(* ===== verification/Prelude.thy ===== *)
theory Prelude
  imports Main "HOL-Library.Word"
begin

text \<open>
  What every component of the model shares: the machine types of the C++ code
  (\<open>uint32_t\<close> as \<open>u32\<close>, \<open>uintptr_t\<close> and the addresses it holds as \<open>uptr\<close>), the ways
  an operation can fail, results and their sequencing, checked array accesses, and the generic
  facts on lists and words the component theories reuse.
\<close>

unbundle bit_operations_syntax

section \<open>Machine types\<close>

type_synonym u32 = "32 word"
type_synonym uptr = "64 word"

abbreviation nullptr :: uptr where
  "nullptr \<equiv> 0"

section \<open>Failures and results\<close>

text \<open>
  Every way in which an operation of the C++ code does not return normally: a read through the
  null pointer, an access to storage that is not allocated (use after free, double free), an
  array access out of its bounds, a failing \<open>assert\<close> (the Makefile does not define
  \<open>NDEBUG\<close>, so assertions abort), an integer division by zero, an allocation that throws
  \<open>std::bad_alloc\<close>, and a loop that used up the number of iterations it was given
  (\<open>NoFuel\<close>; the theorems show how much is enough, or that no amount is).
\<close>

datatype fault =
  NullDeref | BadAccess | OutOfBounds | AssertFail | DivByZero | BadAlloc | NoFuel

type_synonym 'a res = "fault + 'a"

definition bind_r :: "'a res \<Rightarrow> ('a \<Rightarrow> 'b res) \<Rightarrow> 'b res" where
  "bind_r r f = (case r of Inl e \<Rightarrow> Inl e | Inr x \<Rightarrow> f x)"

lemma bind_r_simps [simp]:
  "bind_r (Inl e) f = Inl e"
  "bind_r (Inr x) f = f x"
  by (simp_all add: bind_r_def)

lemma bind_r_Inr_iff: "bind_r r f = Inr y \<longleftrightarrow> (\<exists>x. r = Inr x \<and> f x = Inr y)"
  by (cases r) auto

lemma bind_r_assoc: "bind_r (bind_r r f) g = bind_r r (\<lambda>x. bind_r (f x) g)"
  by (cases r) auto

lemma bind_weak_cong: "r = r' \<Longrightarrow> bind_r r f = bind_r r' f"
  by simp

text \<open>
  \<open>returns r Q\<close>: the operation returned a value with \<open>Q\<close>. \<open>returns_or_oom p r Q\<close>:
  it returned a value with \<open>Q\<close>, or it ran out of memory and \<open>p\<close> says that it may; every other
  failure is excluded.
\<close>

definition returns :: "'a res \<Rightarrow> ('a \<Rightarrow> bool) \<Rightarrow> bool" where
  "returns r Q = (case r of Inl e \<Rightarrow> False | Inr x \<Rightarrow> Q x)"

definition returns_or_oom :: "bool \<Rightarrow> 'a res \<Rightarrow> ('a \<Rightarrow> bool) \<Rightarrow> bool" where
  "returns_or_oom p r Q = (case r of Inl e \<Rightarrow> p \<and> e = BadAlloc | Inr x \<Rightarrow> Q x)"

lemma returns_simps [simp]:
  "\<not> returns (Inl e) Q"
  "returns (Inr x) Q = Q x"
  "returns_or_oom p (Inl e) Q = (p \<and> e = BadAlloc)"
  "returns_or_oom p (Inr x) Q = Q x"
  by (simp_all add: returns_def returns_or_oom_def)

lemma returns_bind:
  assumes "returns r Q" and "\<And>x. Q x \<Longrightarrow> returns (f x) R"
  shows "returns (bind_r r f) R"
  using assms by (cases r) auto

lemma returns_imp_oom: "returns r Q \<Longrightarrow> returns_or_oom p r Q"
  by (cases r) auto

lemma oom_bind:
  assumes "returns_or_oom p r Q" and "\<And>x. Q x \<Longrightarrow> returns_or_oom p (f x) R"
  shows "returns_or_oom p (bind_r r f) R"
  using assms by (cases r) auto

lemma returns_mono: "returns r Q \<Longrightarrow> (\<And>x. Q x \<Longrightarrow> R x) \<Longrightarrow> returns r R"
  by (cases r) auto

lemma oom_mono: "returns_or_oom p r Q \<Longrightarrow> (\<And>x. Q x \<Longrightarrow> R x) \<Longrightarrow> returns_or_oom p r R"
  by (cases r) auto

lemma oom_weaken: "returns_or_oom p r Q \<Longrightarrow> (p \<Longrightarrow> p') \<Longrightarrow> returns_or_oom p' r Q"
  by (cases r) auto

lemma returns_iff_oom_False: "returns r Q = returns_or_oom False r Q"
  by (cases r) auto

lemma returnsE:
  assumes "returns r Q"
  obtains x where "r = Inr x" "Q x"
  using assms by (cases r) auto

section \<open>Checked array accesses\<close>

definition arr_get :: "'a list \<Rightarrow> nat \<Rightarrow> 'a res" where
  "arr_get xs i = (if i < length xs then Inr (xs ! i) else Inl OutOfBounds)"

definition arr_set :: "'a list \<Rightarrow> nat \<Rightarrow> 'a \<Rightarrow> 'a list res" where
  "arr_set xs i v = (if i < length xs then Inr (xs[i := v]) else Inl OutOfBounds)"

lemma arr_get_in [simp]: "i < length xs \<Longrightarrow> arr_get xs i = Inr (xs ! i)"
  by (simp add: arr_get_def)

lemma arr_get_out [simp]: "length xs \<le> i \<Longrightarrow> arr_get xs i = Inl OutOfBounds"
  by (simp add: arr_get_def)

lemma arr_set_in [simp]: "i < length xs \<Longrightarrow> arr_set xs i v = Inr (xs[i := v])"
  by (simp add: arr_set_def)

lemma arr_set_out [simp]: "length xs \<le> i \<Longrightarrow> arr_set xs i v = Inl OutOfBounds"
  by (simp add: arr_set_def)

section \<open>Words\<close>

lemma less_32_cases:
  assumes "n < 32"
    and "P 0" "P 1" "P 2" "P 3" "P 4" "P 5" "P 6" "P 7"
    and "P 8" "P 9" "P 10" "P 11" "P 12" "P 13" "P 14" "P 15"
    and "P 16" "P 17" "P 18" "P 19" "P 20" "P 21" "P 22" "P 23"
    and "P 24" "P 25" "P 26" "P 27" "P 28" "P 29" "P 30" "P 31"
  shows "P (n::nat)"
proof -
  have "n \<in> set [0..<32]" using assms(1) by simp
  also have "[0..<32] = [0,1,2,3,4,5,6,7,8,9,10,11,12,13,14,15,
      16,17,18,19,20,21,22,23,24,25,26,27,28,29,30,31::nat]"
    by (simp add: upt_rec)
  finally show ?thesis using assms(2-) by auto
qed

lemma bit_u32_high: "32 \<le> n \<Longrightarrow> \<not> bit (w::u32) n"
  using bit_imp_le_length [of w n] by auto

lemma bit_u32_not: "bit (NOT w) n \<longleftrightarrow> n < 32 \<and> \<not> bit (w::u32) n"
  by (simp add: bit_not_iff)

lemma unat_pow2: "m < 32 \<Longrightarrow> unat (2 ^ m :: u32) = 2 ^ m"
proof -
  assume "m < 32"
  then have "(2::nat) ^ m < 2 ^ LENGTH(32)" by (intro power_strict_increasing) auto
  then show ?thesis by (intro of_nat_inverse) auto
qed

text \<open>
  Words whose lowest \<open>m\<close> bits are zero (\<open>take_bit m w = 0\<close>) are the multiples of
  \<open>2 ^ m\<close>; clearing the lowest bits of a word rounds it down to such a multiple.
\<close>

lemma unat_take_bit: "unat (take_bit m (w::'w::len word)) = unat w mod 2 ^ m"
proof -
  have "unat (take_bit m w) = take_bit m (unat w)" by (rule unsigned_take_bit_eq)
  then show ?thesis by (simp only: take_bit_eq_mod)
qed

lemma aligned_iff_dvd: "take_bit m (w::u32) = 0 \<longleftrightarrow> 2 ^ m dvd unat w"
  by (metis unat_take_bit unat_0 unsigned_eq_0_iff dvd_eq_mod_eq_0)

lemma take_bit_le_word: "take_bit m w \<le> (w::'w::len word)"
  by (simp add: word_le_nat_alt unat_take_bit)

lemma clear_low_eq_minus: "w AND NOT (mask m) = w - take_bit m (w::'w::len word)"
proof -
  have "(w AND NOT (mask m)) + take_bit m w = (w AND NOT (mask m)) OR take_bit m w"
    by (rule disjunctive_add_eq_or) (auto simp: bit_eq_iff bit_simps)
  also have "\<dots> = w"
    by (auto simp: bit_eq_iff bit_simps)
  finally show ?thesis by (simp add: algebra_simps)
qed

lemma unat_clear_low: "unat (w AND NOT (mask m) :: 'w::len word) = unat w - unat w mod 2 ^ m"
  by (simp add: clear_low_eq_minus unat_sub take_bit_le_word unat_take_bit)

lemma clear_low_le: "w AND NOT (mask m) \<le> (w::u32)"
  by (simp add: word_le_nat_alt unat_clear_low)

lemma aligned_le_clear_low:
  assumes "take_bit m (x::u32) = 0" "x \<le> y"
  shows "x \<le> y AND NOT (mask m)"
proof -
  from assms(1) obtain q where q: "unat x = q * 2 ^ m"
    by (auto simp: aligned_iff_dvd elim: dvdE)
  with assms(2) have "q \<le> unat y div 2 ^ m"
    by (simp add: word_le_nat_alt less_eq_div_iff_mult_less_eq)
  then have "q * 2 ^ m \<le> unat y div 2 ^ m * 2 ^ m" by simp
  with q show ?thesis
    by (simp add: word_le_nat_alt unat_clear_low minus_mod_eq_div_mult)
qed

lemma aligned_minus_step:
  assumes al: "take_bit m (x::u32) = 0" and x: "x \<noteq> 0" and m: "m < 32"
  shows "take_bit m (x - 2 ^ m) = 0" and "x - 2 ^ m < x" and "unat (x - 2 ^ m) = unat x - 2 ^ m"
proof -
  from al have d: "2 ^ m dvd unat x" by (simp add: aligned_iff_dvd)
  with x have "2 ^ m \<le> unat x" by (auto intro: dvd_imp_le simp: unat_gt_0)
  then have le: "2 ^ m \<le> x" using m by (simp only: word_le_nat_alt unat_pow2)
  show u: "unat (x - 2 ^ m) = unat x - 2 ^ m"
    using le m by (simp only: unat_sub unat_pow2)
  show "take_bit m (x - 2 ^ m) = 0"
    using d by (simp add: aligned_iff_dvd u)
  show "x - 2 ^ m < x"
    using x by (simp add: word_less_nat_alt u unat_gt_0)
qed

lemmas u32_bit_eqs =
  bit_and_iff bit_or_iff bit_xor_iff bit_u32_not bit_drop_bit_eq bit_push_bit_iff o_apply

end
