(* ===== verification/BitReverse.thy ===== *)
theory BitReverse
  imports Prelude
begin

text \<open>
  The bit reversal of \<open>solist.cpp\<close> and the split-order keys of \<open>solist.hpp\<close> built on it:
  the two reversal routines with the masks of the source, the proof that both are the bit
  reversal of a 32-bit word, and the order-theoretic facts about reversed keys on which the
  hash table rests, proved once from the law of a bit reversal in the locale \<open>bit_reversal\<close>.
\<close>

section \<open>The routines of solist.cpp\<close>

definition brev_classic :: "u32 \<Rightarrow> u32" where
  "brev_classic a0 =
     (let a = drop_bit 16 a0 OR push_bit 16 a0;
          m = 0x00ff00ff;
          a = (drop_bit 8 a AND m) OR (push_bit 8 a AND NOT m);
          m = m XOR push_bit 4 m;
          a = (drop_bit 4 a AND m) OR (push_bit 4 a AND NOT m);
          m = m XOR push_bit 2 m;
          a = (drop_bit 2 a AND m) OR (push_bit 2 a AND NOT m);
          m = m XOR push_bit 1 m;
          a = (drop_bit 1 a AND m) OR (push_bit 1 a AND NOT m)
      in a)"

definition brev_knuth :: "u32 \<Rightarrow> u32" where
  "brev_knuth a0 =
     (let a = push_bit 15 a0 OR drop_bit 17 a0;
          t = (a XOR drop_bit 10 a) AND 0x003f801f;
          a = (t + push_bit 10 t) XOR a;
          t = (a XOR drop_bit 4 a) AND 0x0e038421;
          a = (t + push_bit 4 t) XOR a;
          t = (a XOR drop_bit 2 a) AND 0x22488842;
          a = (t + push_bit 2 t) XOR a
      in a)"

definition reverse_hasht_bits :: "u32 \<Rightarrow> u32" where
  "reverse_hasht_bits hashv = brev_knuth hashv"

section \<open>Both are the bit reversal\<close>

lemma brev_classic_reverses: "brev_classic a = word_reverse a"
proof (rule bit_word_eqI)
  fix n assume "n < LENGTH(32)"
  then have "n < 32" by simp
  then show "bit (brev_classic a) n = bit (word_reverse a) n"
    by (rule less_32_cases)
      (simp_all only: brev_classic_def Let_def u32_bit_eqs bit_word_reverse_iff,
       simp_all add: possible_bit_word bit_u32_high)
qed

text \<open>
  In Knuth's routine each \<open>t + (t << n)\<close> adds two words with disjoint bits, so the addition
  carries nothing and is a bitwise or.
\<close>

lemma masked_add_shift:
  "m AND push_bit n m = 0 \<Longrightarrow>
   (x AND m) + push_bit n (x AND m) = (x AND m) OR push_bit n (x AND (m::u32))"
  by (rule disjunctive_add_eq_or) (auto simp: bit_eq_iff bit_simps)

lemma knuth_add_10:
  "(x AND 0x003f801f) + push_bit 10 (x AND 0x003f801f)
     = (x AND 0x003f801f) OR push_bit 10 (x AND (0x003f801f::u32))"
  by (rule masked_add_shift) simp

lemma knuth_add_4:
  "(x AND 0x0e038421) + push_bit 4 (x AND 0x0e038421)
     = (x AND 0x0e038421) OR push_bit 4 (x AND (0x0e038421::u32))"
  by (rule masked_add_shift) simp

lemma knuth_add_2:
  "(x AND 0x22488842) + push_bit 2 (x AND 0x22488842)
     = (x AND 0x22488842) OR push_bit 2 (x AND (0x22488842::u32))"
  by (rule masked_add_shift) simp

lemma brev_knuth_reverses: "brev_knuth a = word_reverse a"
proof (rule bit_word_eqI)
  fix n assume "n < LENGTH(32)"
  then have "n < 32" by simp
  then show "bit (brev_knuth a) n = bit (word_reverse a) n"
    by (rule less_32_cases)
      (simp_all only: brev_knuth_def Let_def knuth_add_10 knuth_add_4 knuth_add_2
         u32_bit_eqs bit_word_reverse_iff,
       simp_all add: possible_bit_word bit_u32_high, argo+)
qed

section \<open>What a bit reversal does to the order of words\<close>

text \<open>
  The contract the hash table needs of \<open>reverse_hasht_bits\<close>: bit \<open>n\<close> of the result is bit
  \<open>31 - n\<close> of the argument. The order of the reversed words (the split order) follows.
\<close>

locale bit_reversal =
  fixes rev32 :: "u32 \<Rightarrow> u32"
  assumes bit_rev32: "n < 32 \<Longrightarrow> bit (rev32 w) n = bit w (31 - n)"
begin

lemma rev_rev: "rev32 (rev32 w) = w"
  by (rule bit_word_eqI) (simp add: bit_rev32)

lemma rev_eq_iff: "rev32 v = rev32 w \<longleftrightarrow> v = w"
  by (metis rev_rev)

lemma rev_0: "rev32 0 = 0"
  by (rule bit_word_eqI) (simp add: bit_rev32)

lemma rev_eq_0_iff: "rev32 w = 0 \<longleftrightarrow> w = 0"
  using rev_eq_iff [of w 0] by (simp add: rev_0)

lemma rev_pow2: "k < 32 \<Longrightarrow> rev32 (2 ^ k) = 2 ^ (31 - k)"
  by (rule bit_word_eqI) (auto simp: bit_rev32 bit_exp_iff)

lemma rev_take_bit: "k \<le> 32 \<Longrightarrow> rev32 (take_bit k w) = rev32 w AND NOT (mask (32 - k))"
  by (rule bit_word_eqI) (auto simp: bit_rev32 bit_simps)

lemma rev_aligned:
  assumes "k \<le> 32" and "take_bit k w = w"
  shows "take_bit (32 - k) (rev32 w) = 0"
proof -
  have "rev32 w = rev32 w AND NOT (mask (32 - k))"
    using assms rev_take_bit [of k w] by simp
  then have "take_bit (32 - k) (rev32 w) = take_bit (32 - k) (rev32 w AND NOT (mask (32 - k)))"
    by simp
  also have "\<dots> = 0" by (rule bit_word_eqI) (simp add: bit_simps)
  finally show ?thesis .
qed

lemma rev_below: "k \<le> 32 \<Longrightarrow> take_bit (32 - k) w = 0 \<Longrightarrow> take_bit k (rev32 w) = rev32 w"
proof (rule bit_word_eqI)
  fix n assume k: "k \<le> 32" and al: "take_bit (32 - k) w = 0" and "n < LENGTH(32)"
  then have n: "n < 32" by simp
  have hi: "\<not> bit w (31 - n)" if "k \<le> n"
  proof -
    have "\<not> bit (take_bit (32 - k) w) (31 - n)" using al by simp
    with that n show ?thesis by (simp add: bit_take_bit_iff)
  qed
  then show "bit (take_bit k (rev32 w)) n = bit (rev32 w) n"
    using n hi by (cases "k \<le> n") (auto simp: bit_take_bit_iff bit_rev32)
qed

lemma rev_take_bit_le: "k \<le> 32 \<Longrightarrow> rev32 (take_bit k w) \<le> rev32 w"
  by (simp add: rev_take_bit clear_low_le)

lemma rev_lsb: "bit (rev32 w) 0 = bit w 31"
  by (simp add: bit_rev32)

end

interpretation classic: bit_reversal brev_classic
  by unfold_locales (simp add: brev_classic_reverses bit_word_reverse_iff)

interpretation hrev: bit_reversal reverse_hasht_bits
  by unfold_locales (simp add: reverse_hasht_bits_def brev_knuth_reverses bit_word_reverse_iff)

section \<open>Split-order keys (solist.hpp)\<close>

definition DATABIT :: u32 where
  "DATABIT = 0x1"

definition sol_node_key :: "u32 \<Rightarrow> u32" where
  "sol_node_key hashv = reverse_hasht_bits hashv OR DATABIT"

definition sol_bucket_key :: "u32 \<Rightarrow> u32 res" where
  "sol_bucket_key hashv =
     (let bucket_key = reverse_hasht_bits hashv
      in if 0 = bucket_key AND DATABIT then Inr bucket_key else Inl AssertFail)"

lemma and_DATABIT: "w AND DATABIT = (if bit w 0 then DATABIT else 0)"
  by (rule bit_word_eqI) (auto simp: DATABIT_def bit_simps intro: gr0I)

lemma bit_DATABIT [simp]: "bit DATABIT n \<longleftrightarrow> n = 0"
  by (auto simp: DATABIT_def bit_simps)

lemma DATABIT_neq_0 [simp]: "DATABIT \<noteq> 0" "0 \<noteq> DATABIT"
  by (simp_all add: DATABIT_def)

lemma low_31_power: "(h::u32) < 2 ^ 31 \<longleftrightarrow> \<not> bit h 31"
proof -
  have "h < 2 ^ 31 \<longleftrightarrow> unat h < 2 ^ 31"
    by (simp add: word_less_nat_alt)
  also have "\<dots> \<longleftrightarrow> unat h mod 2 ^ 31 = unat h"
    by (simp add: mod_eq_self_iff_div_eq_0 div_eq_0_iff)
  also have "\<dots> \<longleftrightarrow> take_bit 31 h = h"
    by (simp only: unat_take_bit [symmetric] word_unat_eq_iff)
  also have "\<dots> \<longleftrightarrow> \<not> bit h 31"
  proof
    assume "take_bit 31 h = h"
    then show "\<not> bit h 31" by (metis bit_take_bit_iff less_irrefl)
  next
    assume h: "\<not> bit h 31"
    show "take_bit 31 h = h"
    proof (rule bit_word_eqI)
      fix n assume "n < LENGTH(32)"
      then have "n < 31 \<or> n = 31" by auto
      with h show "bit (take_bit 31 h) n = bit h n"
        by (auto simp: bit_take_bit_iff)
    qed
  qed
  finally show ?thesis .
qed

lemma low_31_iff: "(h::u32) < 0x80000000 \<longleftrightarrow> \<not> bit h 31"
  using low_31_power [of h] by simp

text \<open>The assertion of \<open>sol_bucket_key\<close> holds for exactly the hashes below \<open>2\<^sup>3\<^sup>1\<close>.\<close>

lemma sol_bucket_key_eq:
  "sol_bucket_key h = (if h < 0x80000000 then Inr (reverse_hasht_bits h) else Inl AssertFail)"
  by (simp add: sol_bucket_key_def Let_def and_DATABIT hrev.rev_lsb low_31_iff)

lemma bit_sol_node_key: "n < 32 \<Longrightarrow> bit (sol_node_key h) n \<longleftrightarrow> n = 0 \<or> bit h (31 - n)"
  by (auto simp: sol_node_key_def bit_or_iff hrev.bit_rev32)

lemma sol_node_key_odd: "bit (sol_node_key h) 0"
  by (simp add: bit_sol_node_key)

lemma reversed_even: "h < 0x80000000 \<Longrightarrow> \<not> bit (reverse_hasht_bits h) 0"
  by (simp add: hrev.rev_lsb low_31_iff)

lemma sol_node_key_eq_iff: "sol_node_key a = sol_node_key b \<longleftrightarrow> take_bit 31 a = take_bit 31 b"
proof
  assume eq: "sol_node_key a = sol_node_key b"
  show "take_bit 31 a = take_bit 31 b"
  proof (rule bit_word_eqI)
    fix n assume "n < LENGTH(32)"
    show "bit (take_bit 31 a) n = bit (take_bit 31 b) n"
    proof (cases "n < 31")
      case True
      then have "bit (sol_node_key a) (31 - n) = bit a n" "bit (sol_node_key b) (31 - n) = bit b n"
        by (auto simp: bit_sol_node_key)
      with eq True show ?thesis by (simp add: bit_take_bit_iff)
    qed (simp add: bit_take_bit_iff)
  qed
next
  assume eq: "take_bit 31 a = take_bit 31 b"
  show "sol_node_key a = sol_node_key b"
  proof (rule bit_word_eqI)
    fix n assume "n < LENGTH(32)"
    then have n: "n < 32" by simp
    have "bit a (31 - n) = bit b (31 - n)" if "0 < n"
      using arg_cong [OF eq, of "\<lambda>w. bit w (31 - n)"] that n by (simp add: bit_take_bit_iff)
    with n show "bit (sol_node_key a) n = bit (sol_node_key b) n"
      by (auto simp: bit_sol_node_key)
  qed
qed

lemma take_bit_31_id: "h < 0x80000000 \<Longrightarrow> take_bit 31 (h::u32) = h"
  by (simp add: word_unat_eq_iff unat_take_bit word_less_nat_alt)

lemma sol_node_key_inj:
  "a < 0x80000000 \<Longrightarrow> b < 0x80000000 \<Longrightarrow> sol_node_key a = sol_node_key b \<longleftrightarrow> a = b"
  by (simp only: sol_node_key_eq_iff take_bit_31_id)

lemma sol_node_key_neq_bucket: "h' < 0x80000000 \<Longrightarrow> sol_node_key h \<noteq> reverse_hasht_bits h'"
  using reversed_even [of h'] sol_node_key_odd [of h] by auto

lemma le_or_u32: "w \<le> (w OR v :: u32)"
  by (rule le_word_or2)

lemma reversed_le_node_key: "reverse_hasht_bits h \<le> sol_node_key h"
  by (simp add: sol_node_key_def le_or_u32)

lemma slot_key_le_node_key:
  "k \<le> 32 \<Longrightarrow> reverse_hasht_bits (take_bit k h) \<le> sol_node_key h"
  using hrev.rev_take_bit_le reversed_le_node_key order_trans by blast

text \<open>
  With \<open>2 ^ k\<close> buckets, no bucket key lies strictly between the key of the bucket of a hash and
  the node key of that hash.
\<close>

lemma no_bucket_between:
  assumes k: "k < 32" and s: "take_bit k s = s"
    and le: "reverse_hasht_bits s \<le> sol_node_key h"
  shows "reverse_hasht_bits s \<le> reverse_hasht_bits (take_bit k h)"
proof -
  have "take_bit (32 - k) (reverse_hasht_bits s) = 0"
    using k s by (simp add: hrev.rev_aligned)
  from aligned_le_clear_low [OF this le]
  have "reverse_hasht_bits s \<le> sol_node_key h AND NOT (mask (32 - k))" .
  also have "\<dots> = reverse_hasht_bits h AND NOT (mask (32 - k))"
    by (rule bit_word_eqI) (use k in \<open>auto simp: sol_node_key_def bit_simps\<close>)
  finally show ?thesis using k by (simp add: hrev.rev_take_bit)
qed

section \<open>Properties\<close>

text \<open>C27: the two bit reversal routines agree on every 32 bit word: Knuth's masked additions
  (\<open>brev_knuth\<close>, the one in use) compute the same word as the classic swaps (\<open>brev_classic\<close>),
  and bit \<open>n\<close> of the result is bit \<open>31 - n\<close> of the argument.\<close>

theorem reversals_agree:
  "brev_knuth a = brev_classic a \<and> bit (reverse_hasht_bits a) n = (n < 32 \<and> bit a (31 - n))"
  by (cases "n < 32") (auto simp: brev_knuth_reverses brev_classic_reverses hrev.bit_rev32 bit_u32_high)

text \<open>Two hashes get the same node key exactly when they agree in their lowest 31 bits, node
  keys are never bucket keys, and the assertion of \<open>sol_bucket_key\<close> holds for exactly the
  hashes below \<open>2^31\<close>.\<close>

theorem key_collisions:
  "(sol_node_key a = sol_node_key b) = (take_bit 31 a = take_bit 31 b) \<and>
   sol_bucket_key c \<noteq> Inr (sol_node_key a) \<and>
   sol_bucket_key c = (if c < 0x80000000 then Inr (reverse_hasht_bits c) else Inl AssertFail)"
  using sol_node_key_neq_bucket [of c a] by (auto simp: sol_node_key_eq_iff sol_bucket_key_eq)

end
