(* ===== verification/MarkPtr.thy ===== *)
theory MarkPtr
  imports Prelude
begin

text \<open>
  The template \<open>mark_ptr_type\<close> of \<open>mark_ptr_type.hpp\<close>: a pointer and a mark packed into one
  \<open>uintptr_t\<close>, the mark in the lowest bit. Its single field \<open>upv\<close> is the state, a \<open>uptr\<close>;
  each member function is a definition that takes \<open>upv\<close> and returns the new value with its
  result. The compare-exchange builtin is atomic, so a call of a member function is one step of
  the thread that makes it.
\<close>

section \<open>The member functions\<close>

definition mark_bits_mask :: uptr where
  "mark_bits_mask = 1"

definition mark_bits_maskoff :: uptr where
  "mark_bits_maskoff = NOT mark_bits_mask"

text \<open>
  \<open>__atomic_compare_exchange(&mem, &expected, &desired, ...)\<close>: whether the exchange took
  place, the new contents of the memory, and the new value of the variable \<open>expected\<close>, which a
  failing exchange overwrites with what it read.
\<close>

definition atomic_compare_exchange :: "'w \<Rightarrow> 'w \<Rightarrow> 'w \<Rightarrow> bool \<times> 'w \<times> 'w" where
  "atomic_compare_exchange mem expected desired =
     (if mem = expected then (True, desired, expected) else (False, mem, mem))"

definition mp_init :: uptr where
  "mp_init = 0"

definition mp_of_ptr :: "uptr \<Rightarrow> uptr" where
  "mp_of_ptr p = p"

definition mp_assign :: "uptr \<Rightarrow> uptr \<Rightarrow> uptr" where
  "mp_assign upv p = p OR (upv AND mark_bits_mask)"

definition mp_load_mark :: "uptr \<Rightarrow> bool \<times> uptr" where
  "mp_load_mark upv = (0 \<noteq> upv AND mark_bits_mask, upv AND mark_bits_maskoff)"

definition mp_load :: "uptr \<Rightarrow> uptr" where
  "mp_load upv = upv AND mark_bits_maskoff"

definition mp_arrow :: "uptr \<Rightarrow> uptr" where
  "mp_arrow upv = upv AND mark_bits_maskoff"

definition mp_CAS :: "uptr \<Rightarrow> uptr \<Rightarrow> uptr \<Rightarrow> bool \<times> uptr" where
  "mp_CAS upv expected desired =
     (case atomic_compare_exchange upv expected desired of (ok, upv', _) \<Rightarrow> (ok, upv'))"

definition mp_CAS_des_mark :: "uptr \<Rightarrow> uptr \<Rightarrow> uptr \<Rightarrow> bool \<Rightarrow> bool \<times> uptr" where
  "mp_CAS_des_mark upv expected desired mark =
     (let pv_desired = (if mark then desired OR mark_bits_mask else desired)
      in case atomic_compare_exchange upv expected pv_desired of (ok, upv', _) \<Rightarrow> (ok, upv'))"

definition mp_CAS_mark :: "uptr \<Rightarrow> uptr \<Rightarrow> bool \<Rightarrow> bool \<times> uptr" where
  "mp_CAS_mark upv expected mark =
     (let pv_desired = (if mark then expected OR mark_bits_mask else expected)
      in case atomic_compare_exchange upv expected pv_desired of (ok, upv', _) \<Rightarrow> (ok, upv'))"

definition mp_mark :: "uptr \<Rightarrow> bool \<times> uptr" where
  "mp_mark upv = (0 = mark_bits_mask AND upv, upv OR mark_bits_mask)"

definition mp_CAS_marked :: "uptr \<Rightarrow> uptr \<Rightarrow> bool \<Rightarrow> uptr \<Rightarrow> bool \<Rightarrow> bool \<times> uptr" where
  "mp_CAS_marked upv expected marked desired mark =
     (let pv_expected = (if marked then expected OR mark_bits_mask else expected);
          pv_desired = (if mark then desired OR mark_bits_mask else desired)
      in case atomic_compare_exchange upv pv_expected pv_desired of (ok, upv', _) \<Rightarrow> (ok, upv'))"

definition mp_reset :: "uptr \<Rightarrow> uptr" where
  "mp_reset upv = 0"

section \<open>The packed word as a pair of a pointer and a mark\<close>

text \<open>
  \<open>aligned_ptr p\<close>: the lowest bit of the address \<open>p\<close> is clear, as it is for every object whose
  alignment is at least two. On such pointers the packed word is exactly the pair
  \<open>mp_abs upv\<close> of a pointer and a mark.
\<close>

definition aligned_ptr :: "uptr \<Rightarrow> bool" where
  "aligned_ptr p \<longleftrightarrow> p AND mark_bits_mask = 0"

definition mp_abs :: "uptr \<Rightarrow> uptr \<times> bool" where
  "mp_abs upv = (mp_load upv, fst (mp_load_mark upv))"

lemma bit_mark_mask [simp]: "bit mark_bits_mask n \<longleftrightarrow> n = 0"
  by (auto simp: mark_bits_mask_def bit_simps)

lemma mark_mask_neq_0 [simp]: "mark_bits_mask \<noteq> 0" "0 \<noteq> mark_bits_mask"
  by (simp_all add: mark_bits_mask_def)

lemma and_mark_mask: "w AND mark_bits_mask = (if bit w 0 then mark_bits_mask else 0)"
  by (rule bit_word_eqI) (auto simp: bit_and_iff intro: gr0I)

lemma aligned_ptr_iff: "aligned_ptr p \<longleftrightarrow> \<not> bit p 0"
  by (simp add: aligned_ptr_def and_mark_mask)

lemma aligned_nullptr [simp]: "aligned_ptr 0"
  by (simp add: aligned_ptr_iff)

lemma bit_maskoff: "bit mark_bits_maskoff n \<longleftrightarrow> n < 64 \<and> n \<noteq> 0"
  by (auto simp: mark_bits_maskoff_def mark_bits_mask_def bit_simps)

lemma bit_mp_load: "bit (mp_load upv) n \<longleftrightarrow> n \<noteq> 0 \<and> bit upv n"
  by (auto simp: mp_load_def bit_and_iff bit_maskoff dest: bit_imp_le_length)

lemma aligned_mp_load [simp]: "aligned_ptr (mp_load upv)"
  by (simp add: aligned_ptr_iff bit_mp_load)

lemma mp_load_aligned [simp]: "aligned_ptr p \<Longrightarrow> mp_load p = p"
  by (rule bit_word_eqI) (auto simp: bit_mp_load aligned_ptr_iff intro: gr0I)

lemma mp_load_or_mark [simp]: "mp_load (p OR mark_bits_mask) = mp_load p"
  by (rule bit_word_eqI) (auto simp: bit_mp_load bit_or_iff)

lemma mp_load_mark_eq: "mp_load_mark upv = (bit upv 0, mp_load upv)"
  by (simp add: mp_load_mark_def mp_load_def and_mark_mask)

lemma mp_abs_eq: "mp_abs upv = (mp_load upv, bit upv 0)"
  by (simp add: mp_abs_def mp_load_mark_eq)

lemma mp_abs_inj: "mp_abs u = mp_abs v \<longleftrightarrow> u = v"
proof
  assume eq: "mp_abs u = mp_abs v"
  show "u = v"
  proof (rule bit_word_eqI)
    fix n assume "n < LENGTH(64)"
    from eq have "bit (mp_load u) n = bit (mp_load v) n" "bit u 0 = bit v 0"
      by (simp_all add: mp_abs_eq)
    then show "bit u n = bit v n" by (cases n) (simp_all add: bit_mp_load)
  qed
qed simp

text \<open>The word that packs a pointer and a mark.\<close>

definition mp_pack :: "uptr \<Rightarrow> bool \<Rightarrow> uptr" where
  "mp_pack p m = (if m then p OR mark_bits_mask else p)"

lemma mp_abs_pack: "aligned_ptr p \<Longrightarrow> mp_abs (mp_pack p m) = (p, m)"
  by (cases m) (simp_all add: mp_pack_def mp_abs_eq bit_or_iff aligned_ptr_iff)

lemma mp_eq_pack_iff: "aligned_ptr p \<Longrightarrow> upv = mp_pack p m \<longleftrightarrow> mp_abs upv = (p, m)"
  using mp_abs_inj mp_abs_pack by metis

section \<open>What the member functions do to the pair\<close>

text \<open>The atomic operations of the template as operations on the pair.\<close>

fun pair_cas :: "uptr \<times> bool \<Rightarrow> uptr \<times> bool \<Rightarrow> uptr \<times> bool \<Rightarrow> bool \<times> (uptr \<times> bool)" where
  "pair_cas cell expected desired = (if cell = expected then (True, desired) else (False, cell))"

lemma mp_cas_pack:
  assumes "aligned_ptr e" "aligned_ptr d"
  shows "map_prod id mp_abs
           (case atomic_compare_exchange upv (mp_pack e me) (mp_pack d md) of (ok, upv', _) \<Rightarrow> (ok, upv'))
         = pair_cas (mp_abs upv) (e, me) (d, md)"
  using assms
  by (simp add: atomic_compare_exchange_def mp_eq_pack_iff mp_abs_pack)

lemma mp_CAS_marked_refines:
  "aligned_ptr e \<Longrightarrow> aligned_ptr d \<Longrightarrow>
   map_prod id mp_abs (mp_CAS_marked upv e me d md) = pair_cas (mp_abs upv) (e, me) (d, md)"
  using mp_cas_pack [of e d upv me md]
  by (simp add: mp_CAS_marked_def Let_def mp_pack_def)

lemma mp_CAS_refines:
  "aligned_ptr e \<Longrightarrow> aligned_ptr d \<Longrightarrow>
   map_prod id mp_abs (mp_CAS upv e d) = pair_cas (mp_abs upv) (e, False) (d, False)"
  using mp_cas_pack [of e d upv False False]
  by (simp add: mp_CAS_def mp_pack_def)

lemma mp_CAS_des_mark_refines:
  "aligned_ptr e \<Longrightarrow> aligned_ptr d \<Longrightarrow>
   map_prod id mp_abs (mp_CAS_des_mark upv e d m) = pair_cas (mp_abs upv) (e, False) (d, m)"
  using mp_cas_pack [of e d upv False m]
  by (simp add: mp_CAS_des_mark_def Let_def mp_pack_def)

lemma mp_CAS_mark_refines:
  "aligned_ptr e \<Longrightarrow>
   map_prod id mp_abs (mp_CAS_mark upv e m) = pair_cas (mp_abs upv) (e, False) (e, m)"
  using mp_cas_pack [of e e upv False m]
  by (simp add: mp_CAS_mark_def Let_def mp_pack_def)

lemma mp_mark_refines: "map_prod id mp_abs (mp_mark upv) = (\<not> snd (mp_abs upv), (fst (mp_abs upv), True))"
  by (simp add: mp_mark_def mp_abs_eq and_mark_mask and.commute [of mark_bits_mask] bit_or_iff)

lemma mp_assign_refines: "aligned_ptr p \<Longrightarrow> mp_abs (mp_assign upv p) = (p, snd (mp_abs upv))"
proof -
  assume p: "aligned_ptr p"
  then have "mp_assign upv p = mp_pack p (bit upv 0)"
    by (simp add: mp_assign_def and_mark_mask mp_pack_def)
  with p show ?thesis by (simp add: mp_abs_pack) (simp add: mp_abs_eq)
qed

section \<open>The contract of a markable reference\<close>

text \<open>
  What the containers rely on: loading, testing the mark, the unmarked compare-exchange that
  links a node, and the compare-exchange that marks a node as logically deleted. The laws are
  those of the pair; the consequences (a marked reference refuses every link and every further
  marking) are what makes a marked node immutable.
\<close>

locale markable_ref =
  fixes ptr_of :: "'cell \<Rightarrow> 'p" and marked :: "'cell \<Rightarrow> bool"
    and link :: "'cell \<Rightarrow> 'p \<Rightarrow> 'p \<Rightarrow> bool \<times> 'cell"
    and set_mark :: "'cell \<Rightarrow> 'p \<Rightarrow> bool \<times> 'cell"
    and valid :: "'p \<Rightarrow> bool"
  assumes link_ok: "valid e \<Longrightarrow> valid d \<Longrightarrow> \<not> marked c \<Longrightarrow> ptr_of c = e \<Longrightarrow>
      fst (link c e d) \<and> ptr_of (snd (link c e d)) = d \<and> \<not> marked (snd (link c e d))"
    and link_refused: "valid e \<Longrightarrow> valid d \<Longrightarrow> marked c \<or> ptr_of c \<noteq> e \<Longrightarrow> link c e d = (False, c)"
    and set_mark_ok: "valid e \<Longrightarrow> \<not> marked c \<Longrightarrow> ptr_of c = e \<Longrightarrow>
      fst (set_mark c e) \<and> ptr_of (snd (set_mark c e)) = e \<and> marked (snd (set_mark c e))"
    and set_mark_refused: "valid e \<Longrightarrow> marked c \<or> ptr_of c \<noteq> e \<Longrightarrow> set_mark c e = (False, c)"
begin

lemma marked_is_final:
  "valid e \<Longrightarrow> valid d \<Longrightarrow> marked c \<Longrightarrow> link c e d = (False, c) \<and> set_mark c e = (False, c)"
  by (simp add: link_refused set_mark_refused)

lemma link_then_link_refused:
  assumes "valid e" "valid d" "valid d'" "fst (link c e d)" "d \<noteq> e"
  shows "link (snd (link c e d)) e d' = (False, snd (link c e d))"
  using assms link_ok [of e d c] link_refused [of e d c] link_refused [of e d' "snd (link c e d)"]
  by (metis fst_conv)

lemma set_mark_then_link_refused:
  assumes "valid e" "valid d" "fst (set_mark c e)"
  shows "link (snd (set_mark c e)) e d = (False, snd (set_mark c e))"
  using assms set_mark_ok [of e c] set_mark_refused [of e c]
    link_refused [of e d "snd (set_mark c e)"]
  by (metis fst_conv)

end

lemma mp_CAS_aligned:
  assumes "aligned_ptr e" "aligned_ptr d"
  shows "mp_CAS upv e d = (if mp_abs upv = (e, False) then (True, d) else (False, upv))"
  using assms mp_eq_pack_iff [of e upv False]
  by (auto simp: mp_CAS_def atomic_compare_exchange_def mp_pack_def)

lemma mp_CAS_des_mark_aligned:
  assumes "aligned_ptr e"
  shows "mp_CAS_des_mark upv e e True =
    (if mp_abs upv = (e, False) then (True, mp_pack e True) else (False, upv))"
  using assms mp_eq_pack_iff [of e upv False]
  by (auto simp: mp_CAS_des_mark_def atomic_compare_exchange_def mp_pack_def)

interpretation mref: markable_ref mp_load "\<lambda>c. fst (mp_load_mark c)" mp_CAS
    "\<lambda>c e. mp_CAS_des_mark c e e True" aligned_ptr
proof unfold_locales
  fix e d c
  show "aligned_ptr e \<Longrightarrow> aligned_ptr d \<Longrightarrow> \<not> fst (mp_load_mark c) \<Longrightarrow> mp_load c = e \<Longrightarrow>
      fst (mp_CAS c e d) \<and> mp_load (snd (mp_CAS c e d)) = d \<and> \<not> fst (mp_load_mark (snd (mp_CAS c e d)))"
    by (auto simp: mp_CAS_aligned mp_abs_eq mp_load_mark_eq aligned_ptr_iff)
  show "aligned_ptr e \<Longrightarrow> aligned_ptr d \<Longrightarrow> fst (mp_load_mark c) \<or> mp_load c \<noteq> e \<Longrightarrow> mp_CAS c e d = (False, c)"
    by (auto simp: mp_CAS_aligned mp_abs_eq mp_load_mark_eq)
  show "aligned_ptr e \<Longrightarrow> \<not> fst (mp_load_mark c) \<Longrightarrow> mp_load c = e \<Longrightarrow>
      fst (mp_CAS_des_mark c e e True) \<and> mp_load (snd (mp_CAS_des_mark c e e True)) = e
      \<and> fst (mp_load_mark (snd (mp_CAS_des_mark c e e True)))"
    using mp_abs_pack [of e True]
    by (auto simp: mp_CAS_des_mark_aligned mp_abs_eq mp_load_mark_eq)
  show "aligned_ptr e \<Longrightarrow> fst (mp_load_mark c) \<or> mp_load c \<noteq> e \<Longrightarrow> mp_CAS_des_mark c e e True = (False, c)"
    by (auto simp: mp_CAS_des_mark_aligned mp_abs_eq mp_load_mark_eq)
qed

section \<open>Properties\<close>

text \<open>C28: on addresses of objects with an alignment of at least two, the packed word behaves as a
  pair of a pointer and a mark: each form of \<open>CAS\<close> is the compare-exchange of the pair, \<open>mark\<close>
  sets the mark and reports whether it was clear, the assignment replaces the pointer and keeps
  the mark.\<close>

theorem mark_ptr_refines_pair:
  assumes "aligned_ptr e" "aligned_ptr d"
  shows "map_prod id mp_abs (mp_CAS upv e d) = pair_cas (mp_abs upv) (e, False) (d, False) \<and>
    map_prod id mp_abs (mp_CAS_des_mark upv e d m) = pair_cas (mp_abs upv) (e, False) (d, m) \<and>
    map_prod id mp_abs (mp_CAS_mark upv e m) = pair_cas (mp_abs upv) (e, False) (e, m) \<and>
    map_prod id mp_abs (mp_CAS_marked upv e me d m) = pair_cas (mp_abs upv) (e, me) (d, m) \<and>
    map_prod id mp_abs (mp_mark upv) = (\<not> snd (mp_abs upv), (fst (mp_abs upv), True)) \<and>
    mp_abs (mp_assign upv d) = (d, snd (mp_abs upv))"
  using assms
  by (simp add: mp_CAS_refines mp_CAS_des_mark_refines mp_CAS_mark_refines mp_CAS_marked_refines
      mp_mark_refines mp_assign_refines del: pair_cas.simps)

lemma aligned_16: "aligned_ptr 16" "aligned_ptr 32"
  by (simp_all add: aligned_ptr_iff bit_numeral_word_iff)

lemma mark_ptr_refines_pair_witness:
  "map_prod id mp_abs (mp_CAS 16 16 32) = (True, (32, False)) \<and> mp_abs (mp_assign 17 32) = (32, True)"
  using mark_ptr_refines_pair [OF aligned_16, of 16 False True] mark_ptr_refines_pair [OF aligned_16, of 17 False True]
  by (simp add: mp_abs_eq aligned_16 mp_load_def mark_bits_maskoff_def mark_bits_mask_def)

text \<open>A node whose successor word was marked is immutable for the list: once
  \<open>CAS(next, next, true)\<close> succeeded, every later linking and every later marking compare-exchange
  on that word fails and changes nothing.\<close>

theorem marked_word_is_final:
  assumes "aligned_ptr e" "aligned_ptr e'" "aligned_ptr d" "fst (mp_CAS_des_mark upv e e True)"
  defines "upv' \<equiv> snd (mp_CAS_des_mark upv e e True)"
  shows "mp_CAS upv' e' d = (False, upv') \<and> mp_CAS_des_mark upv' e' e' True = (False, upv')"
proof -
  have "fst (mp_load_mark upv')"
    using assms(1,4) mp_abs_pack [OF assms(1), of True]
    by (auto simp: upv'_def mp_CAS_des_mark_aligned mp_abs_eq mp_load_mark_eq split: if_splits)
  then show ?thesis using mref.marked_is_final assms(2,3) by blast
qed

lemma marked_word_is_final_witness:
  "snd (mp_CAS_des_mark 16 16 16 True) = 17 \<and> mp_CAS 17 16 32 = (False, 17)"
proof -
  have "mp_CAS_des_mark 16 16 16 True = (True, 17)"
    by (simp add: mp_CAS_des_mark_def atomic_compare_exchange_def mark_bits_mask_def)
  with marked_word_is_final [OF aligned_16(1) aligned_16(1) aligned_16(2), of 16] show ?thesis by simp
qed

end
