(* ===== verification/SolHeap.thy ===== *)
theory SolHeap
  imports BitReverse MarkPtr
begin

text \<open>
  The nodes of \<open>solist.hpp\<close> and the storage they live in: the node classes
  \<open>solist_bucket\<close> and \<open>solist_node\<close>, \<open>new\<close>, \<open>delete\<close> and the accesses through a node
  pointer. An address maps to at most one live node, so a null dereference, a use after free
  and a double free are failures of the model. \<open>operator new\<close> is not code of the repository:
  it is the parameter \<open>A\<close> of the operations, with its documented contract in the locale
  \<open>operator_new\<close>.
\<close>

section \<open>Nodes\<close>

text \<open>
  One record serves both classes: \<open>payload\<close> is \<open>None\<close> for an object whose dynamic type is
  \<open>solist_bucket\<close> (a dummy node) and \<open>Some\<close> of the payload for a \<open>solist_node\<close>.
\<close>

record 'a node =
  hashv :: u32
  key :: u32
  next_ref :: uptr
  payload :: "'a option"

definition is_node :: "'a node \<Rightarrow> bool" where
  "is_node nd \<longleftrightarrow> DATABIT = key nd AND DATABIT"

definition solist_bucket_ctor :: "u32 \<Rightarrow> 'a node res" where
  "solist_bucket_ctor h =
     bind_r (sol_bucket_key h) (\<lambda>k.
       Inr \<lparr>hashv = h, key = k, next_ref = mp_init, payload = None\<rparr>)"

definition solist_node_ctor :: "'a \<Rightarrow> u32 \<Rightarrow> 'a node res" where
  "solist_node_ctor data h =
     bind_r (solist_bucket_ctor h) (\<lambda>b.
       Inr (b\<lparr>key := key b OR DATABIT, payload := Some data\<rparr>))"

section \<open>The heap and operator new\<close>

record 'a heap =
  cells :: "uptr \<rightharpoonup> 'a node"
  allocs :: nat

text \<open>
  \<open>new_obj A n c\<close> is the address a \<open>new\<close> of a node returns when \<open>n\<close> allocations came before
  it and \<open>c\<close> are the live nodes, or \<open>None\<close> when it throws; \<open>new_arr A n\<close> says whether the
  allocation of an array of \<open>n\<close> pointers succeeds.
\<close>

record 'a allocator =
  new_obj :: "nat \<Rightarrow> (uptr \<rightharpoonup> 'a node) \<Rightarrow> uptr option"
  new_arr :: "u32 \<Rightarrow> bool"

locale operator_new =
  fixes A :: "'a allocator"
  assumes new_obj_fresh: "new_obj A n c = Some a \<Longrightarrow> a \<noteq> nullptr \<and> aligned_ptr a \<and> c a = None"

text \<open>
  \<open>scarce A\<close>: the allocator refuses some request, for a node while fewer than \<open>2^33\<close> are live, or
  for an array. Running out of memory is possible with such an allocator only.
\<close>

definition scarce :: "'a allocator \<Rightarrow> bool" where
  "scarce A \<longleftrightarrow> (\<exists>n c. card (dom c) < 2 ^ 33 \<and> new_obj A n c = None) \<or> (\<exists>n. \<not> new_arr A n)"

definition new_cell :: "'a allocator \<Rightarrow> 'a node res \<Rightarrow> ('a, 'z) heap_scheme \<Rightarrow> (uptr \<times> ('a, 'z) heap_scheme) res" where
  "new_cell A ctor s =
     (case new_obj A (allocs s) (cells s) of
        None \<Rightarrow> Inl BadAlloc
      | Some a \<Rightarrow> bind_r ctor (\<lambda>nd.
          Inr (a, s\<lparr>cells := (cells s)(a \<mapsto> nd), allocs := Suc (allocs s)\<rparr>)))"

definition delete_cell :: "uptr \<Rightarrow> ('a, 'z) heap_scheme \<Rightarrow> ('a, 'z) heap_scheme res" where
  "delete_cell a s =
     (if a = nullptr then Inr s
      else case cells s a of
        None \<Rightarrow> Inl BadAccess
      | Some nd \<Rightarrow> Inr (s\<lparr>cells := (cells s)(a := None)\<rparr>))"

section \<open>Accesses through a node pointer\<close>

definition deref :: "uptr \<Rightarrow> ('a, 'z) heap_scheme \<Rightarrow> 'a node res" where
  "deref a s =
     (if a = nullptr then Inl NullDeref
      else case cells s a of None \<Rightarrow> Inl BadAccess | Some nd \<Rightarrow> Inr nd)"

text \<open>\<open>p->next()\<close>, \<open>p->next = q\<close>, \<open>p->next.CAS(e, d)\<close> and \<open>p->next.CAS(e, d, mark)\<close>.\<close>

definition next_of :: "uptr \<Rightarrow> ('a, 'z) heap_scheme \<Rightarrow> uptr res" where
  "next_of p s = bind_r (deref p s) (\<lambda>nd. Inr (mp_load (next_ref nd)))"

definition set_next :: "uptr \<Rightarrow> uptr \<Rightarrow> ('a, 'z) heap_scheme \<Rightarrow> ('a, 'z) heap_scheme res" where
  "set_next p q s =
     bind_r (deref p s) (\<lambda>nd.
       Inr (s\<lparr>cells := (cells s)(p \<mapsto> nd\<lparr>next_ref := mp_assign (next_ref nd) q\<rparr>)\<rparr>))"

definition cas_next :: "uptr \<Rightarrow> uptr \<Rightarrow> uptr \<Rightarrow> ('a, 'z) heap_scheme \<Rightarrow> (bool \<times> ('a, 'z) heap_scheme) res" where
  "cas_next p e d s =
     bind_r (deref p s) (\<lambda>nd.
       case mp_CAS (next_ref nd) e d of (ok, upv) \<Rightarrow>
         Inr (ok, s\<lparr>cells := (cells s)(p \<mapsto> nd\<lparr>next_ref := upv\<rparr>)\<rparr>))"

definition cas_next_mark :: "uptr \<Rightarrow> uptr \<Rightarrow> uptr \<Rightarrow> bool \<Rightarrow> ('a, 'z) heap_scheme \<Rightarrow> (bool \<times> ('a, 'z) heap_scheme) res" where
  "cas_next_mark p e d m s =
     bind_r (deref p s) (\<lambda>nd.
       case mp_CAS_des_mark (next_ref nd) e d m of (ok, upv) \<Rightarrow>
         Inr (ok, s\<lparr>cells := (cells s)(p \<mapsto> nd\<lparr>next_ref := upv\<rparr>)\<rparr>))"

end
