(* ===== verification/Solist.thy ===== *)
theory Solist
  imports SolHeap
begin

text \<open>
  The split-ordered list of \<open>solist.hpp\<close>: the shared part (\<open>struct solist\<close>), the accessor
  with its cursor (\<open>class solist_accessor\<close>) and every operation of both, statement by
  statement. The state of an operation is one record that extends the heap by the fields of the
  shared part and those of the accessor. A loop takes the number of iterations it may use as its
  first argument and fails with \<open>NoFuel\<close> when that is not enough.
\<close>

section \<open>struct solist\<close>

record 'a solist = "'a heap" +
  n_buckets :: u32
  max_bucket_length :: u32
  n_items :: u32
  buckets :: "uptr list"

text \<open>
  The constructor: the bucket array is allocated and every slot set to \<open>nullptr\<close>, then the
  dummy node of bucket 0 is created. Storing it is out of bounds when \<open>size\<close> is 0.
\<close>

definition solist_ctor :: "'a allocator \<Rightarrow> u32 \<Rightarrow> u32 \<Rightarrow> 'a heap \<Rightarrow> 'a solist res" where
  "solist_ctor A sz bucket_length h =
     (if \<not> new_arr A sz then Inl BadAlloc
      else bind_r (new_cell A (solist_bucket_ctor 0) h) (\<lambda>(b, h1).
        bind_r (arr_set (replicate (unat sz) nullptr) 0 b) (\<lambda>bs.
          Inr \<lparr>cells = cells h1, allocs = allocs h1, n_buckets = sz,
               max_bucket_length = bucket_length, n_items = 0, buckets = bs\<rparr>)))"

definition inc_item_count :: "('a, 'z) solist_scheme \<Rightarrow> ('a, 'z) solist_scheme" where
  "inc_item_count s = s\<lparr>n_items := n_items s + 1\<rparr>"

definition dec_item_count :: "('a, 'z) solist_scheme \<Rightarrow> ('a, 'z) solist_scheme" where
  "dec_item_count s = s\<lparr>n_items := n_items s - 1\<rparr>"

text \<open>The loop of the destructor.\<close>

fun delete_chain :: "nat \<Rightarrow> uptr \<Rightarrow> ('a, 'z) heap_scheme \<Rightarrow> ('a, 'z) heap_scheme res" where
  "delete_chain 0 c s = Inl NoFuel"
| "delete_chain (Suc f) c s =
     (if c = nullptr then Inr s
      else bind_r (next_of c s) (\<lambda>n. bind_r (delete_cell c s) (delete_chain f n)))"

definition solist_dtor :: "nat \<Rightarrow> ('a, 'z) solist_scheme \<Rightarrow> ('a, 'z) solist_scheme res" where
  "solist_dtor f s = bind_r (arr_get (buckets s) 0) (\<lambda>c. delete_chain f c s)"

text \<open>The two loops of \<open>expand\<close>: \<open>k\<close> slots from slot \<open>x\<close> on are copied, or cleared.\<close>

fun copy_slots :: "nat \<Rightarrow> nat \<Rightarrow> uptr list \<Rightarrow> uptr list \<Rightarrow> uptr list res" where
  "copy_slots 0 x src dst = Inr dst"
| "copy_slots (Suc k) x src dst =
     bind_r (arr_get src x) (\<lambda>v. bind_r (arr_set dst x v) (copy_slots k (Suc x) src))"

fun clear_slots :: "nat \<Rightarrow> nat \<Rightarrow> uptr list \<Rightarrow> uptr list res" where
  "clear_slots 0 x dst = Inr dst"
| "clear_slots (Suc k) x dst = bind_r (arr_set dst x nullptr) (clear_slots k (Suc x))"

definition expand :: "'a allocator \<Rightarrow> u32 \<Rightarrow> ('a, 'z) solist_scheme \<Rightarrow> ('a, 'z) solist_scheme res" where
  "expand A curr_size s =
     (if curr_size < n_buckets s then Inr s
      else let new_size = n_buckets s * 2 in
        if \<not> new_arr A new_size then Inl BadAlloc
        else
          bind_r (copy_slots (unat (n_buckets s)) 0 (buckets s) (replicate (unat new_size) nullptr)) (\<lambda>nb.
          bind_r (clear_slots (unat new_size - unat (n_buckets s)) (unat (n_buckets s)) nb) (\<lambda>nb.
            Inr (s\<lparr>buckets := nb, n_buckets := new_size\<rparr>))))"

section \<open>class solist_accessor: the cursor\<close>

record 'a accessor = "'a solist" +
  nxt :: uptr
  cur :: uptr
  prv :: uptr
  steps :: u32

definition zap :: "'a accessor \<Rightarrow> 'a accessor" where
  "zap s = s\<lparr>prv := nullptr, cur := nullptr, nxt := nullptr\<rparr>"

definition hazp_acquire :: "'a accessor \<Rightarrow> 'a accessor" where
  "hazp_acquire s = zap s"

definition hazp_release :: "'a accessor \<Rightarrow> 'a accessor" where
  "hazp_release s = s"

text \<open>
  An accessor over a given \<open>solist\<close> (the pointer, copy and assignment forms share it), and the
  constructors that create the \<open>solist\<close>. \<open>st\<close> is the indeterminate initial value of the
  uninitialised member \<open>steps\<close>.
\<close>

definition accessor_over :: "u32 \<Rightarrow> 'a solist \<Rightarrow> 'a accessor" where
  "accessor_over st sl = hazp_acquire (solist.extend sl \<lparr>nxt = nullptr, cur = nullptr, prv = nullptr, steps = st\<rparr>)"

definition accessor_new :: "'a allocator \<Rightarrow> u32 \<Rightarrow> u32 \<Rightarrow> u32 \<Rightarrow> 'a heap \<Rightarrow> 'a accessor res" where
  "accessor_new A st sz bucket_length h =
     bind_r (solist_ctor A sz bucket_length h) (\<lambda>sl. Inr (accessor_over st sl))"

definition default_bucket_length :: u32 where
  "default_bucket_length = 4"

text \<open>\<open>advance\<close> always returns \<open>true\<close>; its callers test the result all the same.\<close>

definition advance :: "'a accessor \<Rightarrow> (bool \<times> 'a accessor) res" where
  "advance s =
     (let s = s\<lparr>prv := cur s\<rparr>; s = s\<lparr>cur := nxt s\<rparr> in
      if cur s \<noteq> nullptr
      then bind_r (next_of (cur s) s) (\<lambda>n. Inr (True, s\<lparr>nxt := n\<rparr>))
      else Inr (True, s))"

text \<open>
  The three walks of the accessor,
  \<open>while (nullptr != next && P(next)) { if (!advance()) ...; [++steps;] }\<close>:
  the result is whether the walk ended by its condition (and not by a failing \<open>advance\<close>).
\<close>

fun scan :: "nat \<Rightarrow> ('a node \<Rightarrow> bool) \<Rightarrow> bool \<Rightarrow> 'a accessor \<Rightarrow> (bool \<times> 'a accessor) res" where
  "scan 0 P cnt s = Inl NoFuel"
| "scan (Suc f) P cnt s =
     (if nxt s = nullptr then Inr (True, s)
      else bind_r (deref (nxt s) s) (\<lambda>nd.
        if P nd
        then bind_r (advance s) (\<lambda>(ok, s).
          if \<not> ok then Inr (False, s)
          else scan f P cnt (if cnt then s\<lparr>steps := steps s + 1\<rparr> else s))
        else Inr (True, s)))"

section \<open>Buckets\<close>

text \<open>The \<open>do ... while\<close> loop of \<open>get_parent\<close> over the keys of the lower buckets.\<close>

fun parent_slot :: "nat \<Rightarrow> u32 \<Rightarrow> u32 \<Rightarrow> ('a, 'z) solist_scheme \<Rightarrow> u32 res" where
  "parent_slot 0 pb_key key_step s = Inl NoFuel"
| "parent_slot (Suc f) pb_key key_step s =
     (let pb_key = pb_key - key_step;
          pb_slot = reverse_hasht_bits pb_key
      in bind_r (arr_get (buckets s) (unat pb_slot)) (\<lambda>b.
           if b \<noteq> nullptr then Inr pb_slot
           else if 0 \<noteq> pb_key then parent_slot f pb_key key_step s
           else Inr pb_slot))"

text \<open>\<open>prev = cur = buckets[slot]; next = cur->next();\<close>\<close>

definition start_at :: "u32 \<Rightarrow> 'a accessor \<Rightarrow> 'a accessor res" where
  "start_at slot s =
     bind_r (arr_get (buckets s) (unat slot)) (\<lambda>b.
       let s = s\<lparr>prv := b, cur := b\<rparr> in
       bind_r (next_of (cur s) s) (\<lambda>n. Inr (s\<lparr>nxt := n\<rparr>)))"

fun get_parent_try :: "nat \<Rightarrow> nat \<Rightarrow> u32 \<Rightarrow> 'a accessor \<Rightarrow> 'a accessor res" where
  "get_parent_try 0 f k s = Inl NoFuel"
| "get_parent_try (Suc t) f k s =
     bind_r (sol_bucket_key (n_buckets s div 2)) (\<lambda>key_step.
     bind_r (parent_slot f k key_step s) (\<lambda>pb_slot.
     bind_r (start_at pb_slot s) (\<lambda>s.
     bind_r (scan f (\<lambda>nd. key nd < k) False s) (\<lambda>(ok, s).
       if ok then Inr s else get_parent_try t f k s))))"

definition get_parent :: "nat \<Rightarrow> u32 \<Rightarrow> u32 \<Rightarrow> 'a accessor \<Rightarrow> 'a accessor res" where
  "get_parent f slot k s = get_parent_try f f k s"

text \<open>The test \<open>nullptr == next || next->key != key\<close>.\<close>

definition next_differs :: "u32 \<Rightarrow> 'a accessor \<Rightarrow> bool res" where
  "next_differs k s =
     (if nullptr = nxt s then Inr True
      else bind_r (deref (nxt s) s) (\<lambda>n. Inr (key n \<noteq> k)))"

text \<open>The \<open>do ... while\<close> loop of \<open>initialise_bucket\<close>, with its short-circuit condition.\<close>

fun link_bucket :: "nat \<Rightarrow> nat \<Rightarrow> u32 \<Rightarrow> u32 \<Rightarrow> uptr \<Rightarrow> 'a accessor \<Rightarrow> 'a accessor res" where
  "link_bucket 0 f slot k node s = Inl NoFuel"
| "link_bucket (Suc t) f slot k node s =
     bind_r (get_parent f slot k s) (\<lambda>s.
     bind_r (set_next node (nxt s) s) (\<lambda>s.
     bind_r (arr_get (buckets s) (unat slot)) (\<lambda>b.
       if nullptr \<noteq> b then Inr s
       else bind_r (next_differs k s) (\<lambda>absent.
         if \<not> absent then Inr s
         else bind_r (cas_next (cur s) (nxt s) node s) (\<lambda>(ok, s).
           if ok then Inr s else link_bucket t f slot k node s)))))"

text \<open>The rest of \<open>initialise_bucket\<close>: publish the dummy node, or give it up.\<close>

definition publish_bucket :: "u32 \<Rightarrow> u32 \<Rightarrow> uptr \<Rightarrow> 'a accessor \<Rightarrow> 'a accessor res" where
  "publish_bucket slot k node s =
     bind_r (arr_get (buckets s) (unat slot)) (\<lambda>b.
       if b = nullptr
       then bind_r (next_of (cur s) s) (\<lambda>n.
         if n = node
         then bind_r (arr_set (buckets s) (unat slot) node) (\<lambda>bs.
           Inr (s\<lparr>buckets := bs, nxt := node\<rparr>))
         else bind_r (arr_set (buckets s) (unat slot) (nxt s)) (\<lambda>bs.
           let s = s\<lparr>buckets := bs\<rparr> in
           bind_r (deref (nxt s) s) (\<lambda>nd.
             if key nd \<noteq> k then Inl AssertFail else delete_cell node s)))
       else delete_cell node s)"

definition initialise_bucket :: "'a allocator \<Rightarrow> nat \<Rightarrow> u32 \<Rightarrow> 'a accessor \<Rightarrow> 'a accessor res" where
  "initialise_bucket A f slot s =
     (if \<not> slot < n_buckets s then Inl AssertFail
      else bind_r (arr_get (buckets s) (unat slot)) (\<lambda>b.
        if b \<noteq> nullptr then Inr s
        else
          bind_r (new_cell A (solist_bucket_ctor slot) s) (\<lambda>(node, s).
          bind_r (deref node s) (\<lambda>nd.
          bind_r (link_bucket f f slot (key nd) node s) (\<lambda>s.
          bind_r (publish_bucket slot (key nd) node s) (\<lambda>s.
          bind_r (arr_get (buckets s) (unat slot)) (\<lambda>b.
            if nullptr = b then Inl AssertFail
            else bind_r (deref b s) (\<lambda>bn.
              if key bn \<noteq> key nd then Inl AssertFail else Inr s))))))))"

section \<open>Find, insert, delete\<close>

fun find_node_try :: "nat \<Rightarrow> nat \<Rightarrow> u32 \<Rightarrow> u32 \<Rightarrow> 'a accessor \<Rightarrow> 'a accessor res" where
  "find_node_try 0 f slot k s = Inl NoFuel"
| "find_node_try (Suc t) f slot k s =
     bind_r (start_at slot s) (\<lambda>s.
     bind_r (scan f (\<lambda>nd. key nd \<le> k) True (s\<lparr>steps := 0\<rparr>)) (\<lambda>(ok, s).
       if ok then Inr s else find_node_try t f slot k s))"

definition find_node :: "'a allocator \<Rightarrow> nat \<Rightarrow> u32 \<Rightarrow> 'a accessor \<Rightarrow> (bool \<times> 'a accessor) res" where
  "find_node A f h s =
     (if n_buckets s = 0 then Inl DivByZero
      else
        let slot = h mod n_buckets s; k = sol_node_key h in
        bind_r (arr_get (buckets s) (unat slot)) (\<lambda>b.
        bind_r (if b = nullptr then initialise_bucket A f slot s else Inr s) (\<lambda>s.
        bind_r (find_node_try f f slot k s) (\<lambda>s.
          if cur s = nullptr then Inr (False, s)
          else bind_r (deref (cur s) s) (\<lambda>c.
            if key c \<noteq> k then Inr (False, s) else Inr (True, s))))))"

text \<open>The retry loop of \<open>insert_node\<close>.\<close>

fun insert_loop :: "nat \<Rightarrow> 'a allocator \<Rightarrow> nat \<Rightarrow> u32 \<Rightarrow> uptr \<Rightarrow> 'a accessor \<Rightarrow> (bool \<times> 'a accessor) res" where
  "insert_loop 0 A f h dnode s = Inl NoFuel"
| "insert_loop (Suc t) A f h dnode s =
     bind_r (find_node A f h s) (\<lambda>(found, s).
       if found then Inr (False, s)
       else
         bind_r (set_next dnode (nxt s) s) (\<lambda>s.
         bind_r (cas_next (cur s) (nxt s) dnode s) (\<lambda>(ok, s).
           if ok then Inr (True, inc_item_count s)
           else insert_loop t A f h dnode s)))"

text \<open>The expansion policy of \<open>insert_node\<close>, run after a node was added.\<close>

definition grow :: "'a allocator \<Rightarrow> nat \<Rightarrow> u32 \<Rightarrow> u32 \<Rightarrow> 'a accessor \<Rightarrow> 'a accessor res" where
  "grow A f h nbuckets s =
     (if steps s > max_bucket_length s
      then if n_buckets s = 0 then Inl DivByZero
        else
          let slot = h mod n_buckets s in
          if steps s \<ge> max_bucket_length s * 2
             \<or> n_items s \<ge> max_bucket_length s * n_buckets s
          then bind_r (expand A nbuckets s) (initialise_bucket A f (slot + nbuckets))
          else
            let ib_slot = slot + nbuckets div 2 in
            if ib_slot < n_buckets s then initialise_bucket A f ib_slot s else Inr s
      else Inr s)"

definition insert_node :: "'a allocator \<Rightarrow> nat \<Rightarrow> u32 \<Rightarrow> 'a \<Rightarrow> 'a accessor \<Rightarrow> (bool \<times> 'a accessor) res" where
  "insert_node A f h v s =
     (let nbuckets = n_buckets s in
      bind_r (new_cell A (solist_node_ctor v h) s) (\<lambda>(dnode, s).
      bind_r (insert_loop f A f h dnode s) (\<lambda>(result, s).
        if \<not> result
        then bind_r (delete_cell dnode s) (\<lambda>s. Inr (result, zap s))
        else
          bind_r (next_of (cur s) s) (\<lambda>n.
          bind_r (scan f is_node True (s\<lparr>nxt := n\<rparr>)) (\<lambda>(ok, s).
            if \<not> ok then Inr (result, zap s)
            else bind_r (grow A f h nbuckets s) (\<lambda>s. Inr (result, zap s)))))))"

text \<open>The retry loop of \<open>delete_node\<close>: mark, unlink, destroy.\<close>

fun delete_loop :: "nat \<Rightarrow> 'a allocator \<Rightarrow> nat \<Rightarrow> u32 \<Rightarrow> 'a accessor \<Rightarrow> (bool \<times> 'a accessor) res" where
  "delete_loop 0 A f h s = Inl NoFuel"
| "delete_loop (Suc t) A f h s =
     bind_r (find_node A f h s) (\<lambda>(found, s).
       if \<not> found then Inr (False, s)
       else
         bind_r (cas_next_mark (cur s) (nxt s) (nxt s) True s) (\<lambda>(ok, s).
           if \<not> ok then delete_loop t A f h s
           else bind_r (cas_next (prv s) (cur s) (nxt s) s) (\<lambda>(ok, s).
             if ok
             then bind_r (delete_cell (cur s) (dec_item_count s)) (\<lambda>s. Inr (True, s))
             else delete_loop t A f h s)))"

definition delete_node :: "'a allocator \<Rightarrow> nat \<Rightarrow> u32 \<Rightarrow> 'a accessor \<Rightarrow> (bool \<times> 'a accessor) res" where
  "delete_node A f h s =
     bind_r (delete_loop f A f h s) (\<lambda>(result, s). Inr (result, zap s))"

text \<open>
  \<open>find_item_node\<close> returns \<open>&node->payload\<close>; the address of the node stands for it, and
  \<open>item_at\<close> reads through it.
\<close>

definition find_item_node :: "'a allocator \<Rightarrow> nat \<Rightarrow> u32 \<Rightarrow> 'a accessor \<Rightarrow> (uptr \<times> 'a accessor) res" where
  "find_item_node A f h s =
     bind_r (find_node A f h s) (\<lambda>(found, s).
       if found
       then bind_r (deref (cur s) s) (\<lambda>c.
         case payload c of None \<Rightarrow> Inl NullDeref | Some v \<Rightarrow> Inr (cur s, s))
       else Inr (nullptr, s))"

definition item_at :: "uptr \<Rightarrow> ('a, 'z) heap_scheme \<Rightarrow> 'a res" where
  "item_at p s =
     bind_r (deref p s) (\<lambda>nd. case payload nd of None \<Rightarrow> Inl BadAccess | Some v \<Rightarrow> Inr v)"

end
