(* ===== verification/SolInv.thy ===== *)
theory SolInv
  imports Solist
begin

text \<open>
  The representation invariant of the split-ordered list and the facts about linked nodes the
  operations are proved with: the chain of nodes from the first bucket, sorted strictly by key;
  the bucket table, a power of two in size, whose slots are null or hold the dummy node of the
  bucket; the item count; and the finite map from hashes to payloads the list represents.
\<close>

section \<open>Chains of nodes\<close>

definition nx :: "uptr list \<Rightarrow> uptr \<Rightarrow> uptr" where
  "nx xs q = (case xs of [] \<Rightarrow> q | x # _ \<Rightarrow> x)"

lemma nx_simps [simp]: "nx [] q = q" "nx (x # xs) q = x"
  by (simp_all add: nx_def)

lemma nx_append: "nx (xs @ ys) q = nx xs (nx ys q)"
  by (cases xs) simp_all

abbreviation at :: "(uptr \<rightharpoonup> 'a node) \<Rightarrow> uptr \<Rightarrow> 'a node" where
  "at c x \<equiv> the (c x)"

abbreviation key_of :: "(uptr \<rightharpoonup> 'a node) \<Rightarrow> uptr \<Rightarrow> u32" where
  "key_of c x \<equiv> key (the (c x))"

text \<open>
  \<open>links c xs q\<close>: the nodes at the addresses \<open>xs\<close> are live, each refers to the next one without
  a mark, and the last one to \<open>q\<close>.
\<close>

primrec links :: "(uptr \<rightharpoonup> 'a node) \<Rightarrow> uptr list \<Rightarrow> uptr \<Rightarrow> bool" where
  "links c [] q \<longleftrightarrow> True"
| "links c (x # xs) q \<longleftrightarrow>
     x \<noteq> nullptr \<and> aligned_ptr x \<and> (\<exists>nd. c x = Some nd \<and> next_ref nd = nx xs q) \<and> links c xs q"

lemma links_append: "links c (xs @ ys) q \<longleftrightarrow> links c xs (nx ys q) \<and> links c ys q"
  by (induction xs) (auto simp: nx_append)

lemma links_cong: "(\<And>x. x \<in> set xs \<Longrightarrow> c' x = c x) \<Longrightarrow> links c' xs q = links c xs q"
  by (induction xs) auto

lemma links_upd_other [simp]: "a \<notin> set xs \<Longrightarrow> links (c(a := v)) xs q = links c xs q"
  by (rule links_cong) auto

lemma links_in: "links c xs q \<Longrightarrow> x \<in> set xs \<Longrightarrow> x \<noteq> nullptr \<and> aligned_ptr x \<and> c x \<noteq> None"
  by (induction xs) auto

lemma aligned_nx: "links c xs q \<Longrightarrow> aligned_ptr q \<Longrightarrow> aligned_ptr (nx xs q)"
  by (cases xs) auto

lemma links_next:
  assumes "links c (as @ x # bs) nullptr"
  obtains nd where "c x = Some nd" "next_ref nd = nx bs nullptr" "x \<noteq> nullptr"
    "mp_load (next_ref nd) = nx bs nullptr" "aligned_ptr x"
proof -
  from assms have l: "links c (x # bs) nullptr" by (simp add: links_append)
  then obtain nd where "c x = Some nd" "next_ref nd = nx bs nullptr" by auto
  moreover from l have "aligned_ptr (nx bs nullptr)" by (auto intro: aligned_nx)
  ultimately show thesis using l that by auto
qed

section \<open>Reading and writing the nodes of a chain\<close>

lemma deref_Some [simp]: "a \<noteq> nullptr \<Longrightarrow> cells s a = Some nd \<Longrightarrow> deref a s = Inr nd"
  by (simp add: deref_def)

lemma next_of_chain:
  "links (cells s) (as @ x # bs) nullptr \<Longrightarrow> next_of x s = Inr (nx bs nullptr)"
  by (erule links_next) (simp add: next_of_def)

section \<open>The invariant\<close>

definition node_ok :: "u32 \<Rightarrow> 'a node \<Rightarrow> bool" where
  "node_ok n nd \<longleftrightarrow>
     (case payload nd of
        None \<Rightarrow> hashv nd < n \<and> key nd = reverse_hasht_bits (hashv nd)
      | Some v \<Rightarrow> hashv nd < 0x80000000 \<and> key nd = sol_node_key (hashv nd))"

lemma node_ok_cong:
  "payload nd' = payload nd \<Longrightarrow> hashv nd' = hashv nd \<Longrightarrow> key nd' = key nd \<Longrightarrow> node_ok n nd' = node_ok n nd"
  by (cases "payload nd") (simp_all add: node_ok_def)

lemma node_ok_next [simp]: "node_ok n (nd\<lparr>next_ref := q\<rparr>) = node_ok n nd"
  by (rule node_ok_cong) simp_all

text \<open>
  \<open>list_ok D n c xs\<close>: the live nodes are those of the chain \<open>xs\<close> and the detached ones \<open>D\<close>
  (a node that was allocated and is not linked yet).
\<close>

definition list_ok :: "uptr set \<Rightarrow> u32 \<Rightarrow> (uptr \<rightharpoonup> 'a node) \<Rightarrow> uptr list \<Rightarrow> bool" where
  "list_ok D n c xs \<longleftrightarrow>
     links c xs nullptr \<and> dom c = set xs \<union> D \<and> set xs \<inter> D = {} \<and>
     sorted_wrt (<) (map (key_of c) xs) \<and> (\<forall>x\<in>set xs. node_ok n (at c x))"

definition table_ok :: "u32 \<Rightarrow> uptr list \<Rightarrow> (uptr \<rightharpoonup> 'a node) \<Rightarrow> uptr list \<Rightarrow> bool" where
  "table_ok n bs c xs \<longleftrightarrow>
     (\<exists>k<32. n = 2 ^ k) \<and> length bs = unat n \<and> xs \<noteq> [] \<and> bs ! 0 = hd xs \<and>
     (\<forall>i<length bs. bs ! i \<noteq> nullptr \<longrightarrow>
        bs ! i \<in> set xs \<and> payload (at c (bs ! i)) = None \<and> hashv (at c (bs ! i)) = word_of_nat i) \<and>
     (\<forall>x\<in>set xs. payload (at c x) = None \<longrightarrow> bs ! unat (hashv (at c x)) = x)"

definition items :: "(uptr \<rightharpoonup> 'a node) \<Rightarrow> uptr list \<Rightarrow> (u32 \<times> 'a) list" where
  "items c xs =
     concat (map (\<lambda>x. case payload (at c x) of None \<Rightarrow> [] | Some v \<Rightarrow> [(hashv (at c x), v)]) xs)"

definition sol_wf :: "uptr set \<Rightarrow> ('a, 'z) solist_scheme \<Rightarrow> uptr list \<Rightarrow> bool" where
  "sol_wf D s xs \<longleftrightarrow>
     list_ok D (n_buckets s) (cells s) xs \<and> table_ok (n_buckets s) (buckets s) (cells s) xs \<and>
     n_items s = word_of_nat (length (items (cells s) xs))"

text \<open>The state \<open>s\<close>, with no detached nodes, represents the map \<open>m\<close>.\<close>

definition sol_rel :: "('a, 'z) solist_scheme \<Rightarrow> (u32 \<rightharpoonup> 'a) \<Rightarrow> bool" where
  "sol_rel s m \<longleftrightarrow> (\<exists>xs. sol_wf {} s xs \<and> m = map_of (items (cells s) xs))"

lemma sol_wf_cursor [simp]:
  "sol_wf D (s\<lparr>nxt := a\<rparr>) xs = sol_wf D s xs"
  "sol_wf D (s\<lparr>cur := a\<rparr>) xs = sol_wf D s xs"
  "sol_wf D (s\<lparr>prv := a\<rparr>) xs = sol_wf D s xs"
  "sol_wf D (s\<lparr>steps := n\<rparr>) xs = sol_wf D s xs"
  by (simp_all add: sol_wf_def)

lemma sol_wf_zap [simp]: "sol_wf D (zap s) xs = sol_wf D s xs"
  by (simp add: zap_def)

lemma zap_simps [simp]:
  "cells (zap s) = cells s" "n_buckets (zap s) = n_buckets s" "buckets (zap s) = buckets s"
  "n_items (zap s) = n_items s" "max_bucket_length (zap s) = max_bucket_length s"
  "cur (zap s) = nullptr" "nxt (zap s) = nullptr" "prv (zap s) = nullptr" "steps (zap s) = steps s"
  by (simp_all add: zap_def)

lemma list_okD:
  assumes "list_ok D n c xs"
  shows "links c xs nullptr" "dom c = set xs \<union> D" "set xs \<inter> D = {}"
    "sorted_wrt (<) (map (key_of c) xs)" "\<And>x. x \<in> set xs \<Longrightarrow> node_ok n (at c x)"
  using assms by (auto simp: list_ok_def)

lemma sorted_mid:
  assumes "sorted_wrt (<) (map f (as @ x # bs))"
  shows "\<And>a. a \<in> set as \<Longrightarrow> f a < (f x :: 'k::linorder)" "\<And>b. b \<in> set bs \<Longrightarrow> f x < f b"
  using assms by (auto simp: sorted_wrt_append)

lemma sorted_map_distinct: "sorted_wrt (<) (map f xs) \<Longrightarrow> distinct xs" for f :: "'x \<Rightarrow> 'k::linorder"
  by (induction xs) auto

lemma list_ok_distinct: "list_ok D n c xs \<Longrightarrow> distinct xs"
  by (auto simp: list_ok_def intro: sorted_map_distinct)

lemma items_simps [simp]:
  "items c [] = []"
  "items c (x # xs) = (case payload (at c x) of None \<Rightarrow> [] | Some v \<Rightarrow> [(hashv (at c x), v)]) @ items c xs"
  "items c (xs @ ys) = items c xs @ items c ys"
  by (simp_all add: items_def)

lemma items_cong:
  "(\<And>x. x \<in> set xs \<Longrightarrow> payload (at c' x) = payload (at c x) \<and> hashv (at c' x) = hashv (at c x))
   \<Longrightarrow> items c' xs = items c xs"
  by (induction xs) (auto split: option.split)

lemma in_items: "(h, v) \<in> set (items c xs) \<longleftrightarrow> (\<exists>x\<in>set xs. hashv (at c x) = h \<and> payload (at c x) = Some v)"
  by (induction xs) (auto split: option.splits)

lemma length_items_le: "length (items c xs) \<le> length xs"
  by (induction xs) (auto split: option.splits)

section \<open>Bounds\<close>

text \<open>The keys of the nodes are distinct 32 bit words, so a chain has at most \<open>2^32\<close> nodes.\<close>

lemma chain_bound:
  assumes "sol_wf D s xs"
  shows "length xs \<le> 2 ^ 32"
proof -
  from assms have l: "list_ok D (n_buckets s) (cells s) xs" by (simp add: sol_wf_def)
  have d: "distinct (map (key_of (cells s)) xs)"
    using list_okD(4) [OF l] sorted_map_distinct [of id "map (key_of (cells s)) xs"] by simp
  have "length xs = card (set (map (key_of (cells s)) xs))"
    using distinct_card [OF d] by simp
  also have "\<dots> \<le> card (UNIV :: u32 set)" by (rule card_mono) auto
  also have "\<dots> = 2 ^ 32" by (simp add: card_word)
  finally show ?thesis .
qed

lemma live_bound:
  assumes "sol_wf D s xs" "card D \<le> 2"
  shows "card (dom (cells s)) < 2 ^ 33"
proof -
  from assms have l: "list_ok D (n_buckets s) (cells s) xs" by (simp add: sol_wf_def)
  have "card (dom (cells s)) \<le> card (set xs) + card D"
    using list_okD(2) [OF l] by (simp add: card_Un_le)
  also have "card (set xs) \<le> length xs" by (rule card_length)
  finally show ?thesis using chain_bound [OF assms(1)] assms(2) by simp
qed

section \<open>What the walks do\<close>

text \<open>
  A walk from the node \<open>x\<close> of a chain passes the nodes that satisfy \<open>P\<close> and stops before the
  first that does not.
\<close>

lemma scan_chain:
  assumes "links (cells s) (as @ x # bs) nullptr" "cur s = x" "nxt s = nx bs nullptr" "length bs < f"
  shows "\<exists>ys zs. bs = ys @ zs \<and> (\<forall>y\<in>set ys. P (at (cells s) y)) \<and>
     (zs = [] \<or> \<not> P (at (cells s) (hd zs))) \<and>
     scan f P cnt s = Inr (True,
       s\<lparr>prv := (if ys = [] then prv s else last (x # butlast ys)), cur := last (x # ys),
         nxt := nx zs nullptr,
         steps := (if cnt then steps s + word_of_nat (length ys) else steps s)\<rparr>)"
  using assms
proof (induction bs arbitrary: s as x f)
  case Nil
  then obtain f' where "f = Suc f'" by (cases f) auto
  with Nil show ?case by simp
next
  case (Cons b bs)
  then obtain f' where f: "f = Suc f'" and f': "length bs < f'" by (cases f) auto
  have l: "links (cells s) ((as @ [x]) @ b # bs) nullptr" using Cons.prems(1) by simp
  from links_next [OF l] obtain nd where nd: "cells s b = Some nd" "b \<noteq> nullptr"
    "mp_load (next_ref nd) = nx bs nullptr" by metis
  show ?case
  proof (cases "P nd")
    case False
    with Cons.prems nd f show ?thesis
      by (intro exI [of _ "[]"] exI [of _ "b # bs"]) simp
  next
    case True
    let ?s = "s\<lparr>prv := x, cur := b, nxt := nx bs nullptr\<rparr>"
    let ?t = "if cnt then ?s\<lparr>steps := steps s + 1\<rparr> else ?s"
    have adv: "advance s = Inr (True, ?s)"
      using Cons.prems nd by (simp add: advance_def next_of_def deref_def)
    have "links (cells ?t) ((as @ [x]) @ b # bs) nullptr" "cur ?t = b" "nxt ?t = nx bs nullptr"
      using l by simp_all
    note ih = Cons.IH [OF this f']
    have ct: "cells ?t = cells s" by simp
    from ih obtain ys zs where
      ih: "bs = ys @ zs" "\<forall>y\<in>set ys. P (at (cells s) y)" "zs = [] \<or> \<not> P (at (cells s) (hd zs))"
        "scan f' P cnt ?t = Inr (True, ?t\<lparr>prv := (if ys = [] then prv ?t else last (b # butlast ys)),
           cur := last (b # ys), nxt := nx zs nullptr,
           steps := (if cnt then steps ?t + word_of_nat (length ys) else steps ?t)\<rparr>)"
      unfolding ct by blast
    have "scan f P cnt s = scan f' P cnt ?t"
      using Cons.prems nd True adv by (simp add: f)
    with ih nd True show ?thesis
      by (intro exI [of _ "b # ys"] exI [of _ zs]) (auto simp: ac_simps)
  qed
qed

section \<open>Linking and unlinking a node\<close>

lemma mp_assign_unmarked: "\<not> bit u 0 \<Longrightarrow> mp_assign u p = p"
  by (simp add: mp_assign_def and_mark_mask)

text \<open>The two writes that link the detached node \<open>a\<close> behind the node \<open>x\<close> at the cursor.\<close>

lemma link_node:
  assumes l: "links (cells s) (as @ x # bs) nullptr" and a: "a \<notin> set (as @ x # bs)"
    and na: "cells s a = Some na" "\<not> bit (next_ref na) 0" "a \<noteq> nullptr" "aligned_ptr a"
    and cu: "cur s = x" "nxt s = nx bs nullptr"
  shows "set_next a (nxt s) s = Inr (s\<lparr>cells := (cells s)(a \<mapsto> na\<lparr>next_ref := nx bs nullptr\<rparr>)\<rparr>)"
    and "cas_next x (nx bs nullptr) a (s\<lparr>cells := (cells s)(a \<mapsto> na\<lparr>next_ref := nx bs nullptr\<rparr>)\<rparr>)
      = Inr (True, s\<lparr>cells := (cells s)(a \<mapsto> na\<lparr>next_ref := nx bs nullptr\<rparr>,
            x \<mapsto> (at (cells s) x)\<lparr>next_ref := a\<rparr>)\<rparr>)"
proof -
  from links_next [OF l] obtain nd where nd: "cells s x = Some nd" "next_ref nd = nx bs nullptr"
    "x \<noteq> nullptr" by metis
  have al: "aligned_ptr (nx bs nullptr)"
    using l by (auto simp: links_append intro: aligned_nx)
  show "set_next a (nxt s) s = Inr (s\<lparr>cells := (cells s)(a \<mapsto> na\<lparr>next_ref := nx bs nullptr\<rparr>)\<rparr>)"
    using na cu by (simp add: set_next_def mp_assign_unmarked)
  have "a \<noteq> x" using a by simp
  then show "cas_next x (nx bs nullptr) a (s\<lparr>cells := (cells s)(a \<mapsto> na\<lparr>next_ref := nx bs nullptr\<rparr>)\<rparr>)
      = Inr (True, s\<lparr>cells := (cells s)(a \<mapsto> na\<lparr>next_ref := nx bs nullptr\<rparr>,
            x \<mapsto> (at (cells s) x)\<lparr>next_ref := a\<rparr>)\<rparr>)"
    using nd by (simp add: cas_next_def deref_def mp_CAS_def atomic_compare_exchange_def)
qed

lemma items_after_link:
  assumes "a \<notin> set xs"
    and "c' = c(a \<mapsto> na\<lparr>next_ref := q\<rparr>, x \<mapsto> (at c x)\<lparr>next_ref := a\<rparr>)"
  shows "items c' xs = items c xs"
  using assms by (intro items_cong) auto

lemma list_ok_link:
  assumes ok: "list_ok D n c (as @ x # bs)" and a: "a \<in> D" "a \<noteq> nullptr" "aligned_ptr a"
    and na: "node_ok n na" "key_of c x < key na" "\<And>b. b \<in> set bs \<Longrightarrow> key na < key_of c b"
    and c': "c' = c(a \<mapsto> na\<lparr>next_ref := nx bs nullptr\<rparr>, x \<mapsto> (at c x)\<lparr>next_ref := a\<rparr>)"
  shows "list_ok (D - {a}) n c' (as @ x # a # bs)"
proof -
  note d = list_okD [OF ok]
  have na_in: "a \<notin> set (as @ x # bs)" using d(3) a(1) by auto
  have dist: "distinct (as @ x # bs)" by (rule list_ok_distinct [OF ok])
  have ax: "a \<noteq> x" using na_in by auto
  have other: "c' y = c y" if "y \<noteq> a" "y \<noteq> x" for y using that c' by simp
  have keys: "key_of c' y = key_of c y" if "y \<in> set (as @ x # bs)" for y
    using that na_in c' by auto
  have ka: "key_of c' a = key na" using ax c' by simp
  have "links c' as x"
    using d(1) dist na_in by (subst links_cong [of as c' c]) (auto simp: links_append c')
  moreover have "links c' bs nullptr"
    using d(1) dist na_in by (subst links_cong [of bs c' c]) (auto simp: links_append c')
  ultimately have "links c' (as @ x # a # bs) nullptr"
    using d(1) a ax by (simp add: links_append c')
  moreover have "dom c' = set (as @ x # a # bs) \<union> (D - {a})"
    using d(2) a(1) by (auto simp: c' split: if_splits)
  moreover have "set (as @ x # a # bs) \<inter> (D - {a}) = {}" using d(3) by auto
  moreover have "sorted_wrt (<) (map (key_of c') (as @ x # a # bs))"
  proof -
    have m: "map (key_of c') (as @ x # a # bs)
        = map (key_of c) as @ key_of c x # key na # map (key_of c) bs"
      using keys ka by simp
    have lt: "\<And>y. y \<in> set as \<Longrightarrow> key_of c y < key_of c x"
      using d(4) by (rule sorted_mid)
    show ?thesis unfolding m using d(4) na(2,3)
      by (auto simp: sorted_wrt_append intro: less_trans dest: lt)
  qed
  moreover have "\<forall>y\<in>set (as @ x # a # bs). node_ok n (at c' y)"
  proof -
    have "node_ok n (at c' a)" using na(1) ax by (simp add: c')
    moreover have "node_ok n (at c' y)" if "y \<in> set (as @ x # bs)" for y
      using d(5) [OF that] that na_in by (auto simp: c')
    ultimately show ?thesis by auto
  qed
  ultimately show ?thesis by (simp add: list_ok_def)
qed

text \<open>Unlinking the node behind \<open>p\<close> and freeing it.\<close>

lemma list_ok_unlink:
  assumes ok: "list_ok D n c (as @ p # x # bs)"
    and c': "c' = c(p \<mapsto> (at c p)\<lparr>next_ref := nx bs nullptr\<rparr>, x := None)"
  shows "list_ok D n c' (as @ p # bs)"
    and "y \<in> set (as @ p # bs) \<Longrightarrow> payload (at c' y) = payload (at c y) \<and>
       hashv (at c' y) = hashv (at c y) \<and> key (at c' y) = key (at c y)"
proof -
  note d = list_okD [OF ok]
  have dist: "distinct (as @ p # x # bs)" by (rule list_ok_distinct [OF ok])
  have same: "payload (at c' y) = payload (at c y) \<and> hashv (at c' y) = hashv (at c y)
      \<and> key (at c' y) = key (at c y)" if "y \<in> set (as @ p # bs)" for y
    using that dist c' by auto
  then show "y \<in> set (as @ p # bs) \<Longrightarrow> payload (at c' y) = payload (at c y) \<and>
       hashv (at c' y) = hashv (at c y) \<and> key (at c' y) = key (at c y)" .
  have "links c' as p"
    using d(1) dist by (subst links_cong [of as c' c]) (auto simp: links_append c')
  moreover have "links c' bs nullptr"
    using d(1) dist by (subst links_cong [of bs c' c]) (auto simp: links_append c')
  ultimately have "links c' (as @ p # bs) nullptr"
    using d(1) dist by (auto simp: links_append c')
  moreover have "dom c' = set (as @ p # bs) \<union> D"
    using d(2,3) dist by (auto simp: c' split: if_splits)
  moreover have "set (as @ p # bs) \<inter> D = {}" using d(3) by auto
  moreover have "sorted_wrt (<) (map (key_of c') (as @ p # bs))"
  proof -
    have m: "map (key_of c') (as @ p # bs) = map (key_of c) (as @ p # bs)"
      using same by simp
    show ?thesis unfolding m using d(4) by (auto simp: sorted_wrt_append)
  qed
  moreover have "\<forall>y\<in>set (as @ p # bs). node_ok n (at c' y)"
  proof
    fix y assume y: "y \<in> set (as @ p # bs)"
    then have "node_ok n (at c y)" by (intro d(5)) auto
    with same [OF y] show "node_ok n (at c' y)" using node_ok_cong by blast
  qed
  ultimately show "list_ok D n c' (as @ p # bs)" by (simp add: list_ok_def)
qed

section \<open>The bucket table\<close>

lemma table_okD:
  assumes "table_ok n bs c xs"
  shows "\<exists>k<32. n = 2 ^ k" "length bs = unat n" "xs \<noteq> []" "bs ! 0 = hd xs"
    "\<And>i. i < length bs \<Longrightarrow> bs ! i \<noteq> nullptr \<Longrightarrow>
       bs ! i \<in> set xs \<and> payload (at c (bs ! i)) = None \<and> hashv (at c (bs ! i)) = word_of_nat i"
    "\<And>x. x \<in> set xs \<Longrightarrow> payload (at c x) = None \<Longrightarrow> bs ! unat (hashv (at c x)) = x"
  using assms by (auto simp: table_ok_def)

lemma table_size:
  assumes "table_ok n bs c xs"
  obtains k where "k < 32" "n = 2 ^ k" "unat n = 2 ^ k" "length bs = 2 ^ k"
  using table_okD(1,2) [OF assms] unat_pow2 by auto

lemma bucket_in_chain:
  assumes l: "list_ok D n c xs" and t: "table_ok n bs c xs"
    and i: "i < length bs" "bs ! i \<noteq> nullptr"
  obtains as zs where "xs = as @ bs ! i # zs" "key_of c (bs ! i) = reverse_hasht_bits (word_of_nat i)"
    "payload (at c (bs ! i)) = None"
proof -
  from table_okD(5) [OF t i] have b: "bs ! i \<in> set xs" "payload (at c (bs ! i)) = None"
    "hashv (at c (bs ! i)) = word_of_nat i" by auto
  from list_okD(5) [OF l b(1)] b have "key_of c (bs ! i) = reverse_hasht_bits (word_of_nat i)"
    by (simp add: node_ok_def)
  with b split_list [OF b(1)] that show thesis by blast
qed

lemma bucket_0:
  assumes l: "list_ok D n c xs" and t: "table_ok n bs c xs"
  shows "bs ! 0 \<noteq> nullptr" "0 < length bs"
proof -
  obtain k where k: "k < 32" "n = 2 ^ k" "unat n = 2 ^ k" "length bs = 2 ^ k"
    using table_size [OF t] .
  then show "0 < length bs" by simp
  have "hd xs \<in> set xs" using table_okD(3) [OF t] by simp
  with list_okD(1) [OF l] table_okD(4) [OF t] show "bs ! 0 \<noteq> nullptr"
    using links_in by metis
qed

lemma table_ok_add_data:
  assumes t: "table_ok n bs c (as @ x # zs)" and a: "a \<notin> set (as @ x # zs)"
    and na: "payload na \<noteq> None"
    and c': "c' = c(a \<mapsto> na\<lparr>next_ref := q\<rparr>, x \<mapsto> (at c x)\<lparr>next_ref := a\<rparr>)"
  shows "table_ok n bs c' (as @ x # a # zs)"
proof -
  have same: "payload (at c' y) = payload (at c y) \<and> hashv (at c' y) = hashv (at c y)"
    if "y \<in> set (as @ x # zs)" for y using that a c' by auto
  have "payload (at c' a) \<noteq> None" using na a c' by auto
  moreover have "hd (as @ x # a # zs) = hd (as @ x # zs)" by (cases as) auto
  ultimately show ?thesis
    using t same unfolding table_ok_def by auto
qed

end
