(* ===== verification/SolBucket.thy ===== *)
theory SolBucket
  imports SolInv
begin

text \<open>
  Correctness of the bucket operations: the search for the parent bucket, the initialisation of
  a bucket and the expansion of the bucket table.
\<close>

section \<open>Slots and keys\<close>

lemma pow2_div2: "0 < k \<Longrightarrow> k < 32 \<Longrightarrow> (2 ^ k :: u32) div 2 = 2 ^ (k - 1)"
proof -
  assume k: "0 < k" "k < 32"
  have "unat ((2 ^ k :: u32) div 2) = 2 ^ k div 2"
    using unat_pow2 [of k] k by (simp add: unat_div)
  also have "\<dots> = 2 ^ (k - 1)" using k by (cases k) auto
  also have "\<dots> = unat (2 ^ (k - 1) :: u32)" using unat_pow2 [of "k - 1"] k by simp
  finally show ?thesis by (simp only: word_unat_eq_iff)
qed

lemma take_bit_less_pow2: "k < 32 \<Longrightarrow> take_bit k (w::u32) = w \<longleftrightarrow> unat w < 2 ^ k"
  by (simp only: word_unat_eq_iff unat_take_bit) (simp add: mod_eq_self_iff_div_eq_0 div_eq_0_iff)

lemma less_pow2_iff: "k < 32 \<Longrightarrow> (w::u32) < 2 ^ k \<longleftrightarrow> unat w < 2 ^ k"
  by (simp only: word_less_nat_alt unat_pow2)

lemma mod_pow2: "k < 32 \<Longrightarrow> (h::u32) mod 2 ^ k = take_bit k h"
  by (simp add: take_bit_eq_mod)

lemma pow2_le_limit: "k < 32 \<Longrightarrow> unat (w::u32) < 2 ^ k \<Longrightarrow> w < 0x80000000"
proof -
  assume k: "k < 32" and w: "unat w < 2 ^ k"
  have "(2::nat) ^ k \<le> 2 ^ 31" using k by (intro power_increasing) auto
  with w have "unat w < 2 ^ 31" by simp
  then show ?thesis by (simp add: word_less_nat_alt)
qed

lemma key_step_eq:
  assumes "0 < k" "k < 32"
  shows "sol_bucket_key ((2 ^ k) div 2) = Inr (2 ^ (32 - k))"
proof -
  have "unat (2 ^ (k - 1) :: u32) < 2 ^ k" using unat_pow2 [of "k - 1"] assms by simp
  then have "(2 ^ (k - 1) :: u32) < 0x80000000" using assms by (intro pow2_le_limit)
  moreover have "31 - (k - 1) = 32 - k" using assms by simp
  ultimately show ?thesis
    using assms hrev.rev_pow2 [of "k - 1"] by (simp add: pow2_div2 sol_bucket_key_eq)
qed

section \<open>The parent of a bucket\<close>

text \<open>
  From an aligned key \<open>pk\<close> the loop of \<open>get_parent\<close> finds the initialised bucket with the
  greatest key below \<open>pk\<close>.
\<close>

lemma parent_slot_finds:
  assumes k: "0 < k" "k < 32" and len: "length (buckets s) = 2 ^ k" and b0: "buckets s ! 0 \<noteq> nullptr"
    and pk: "take_bit (32 - k) pk = 0" "pk \<noteq> 0" and f: "unat pk div 2 ^ (32 - k) \<le> f"
  shows "\<exists>p. parent_slot f pk (2 ^ (32 - k)) s = Inr p \<and> unat p < 2 ^ k \<and>
    buckets s ! unat p \<noteq> nullptr \<and> reverse_hasht_bits p < pk \<and>
    (\<forall>q. unat q < 2 ^ k \<longrightarrow> reverse_hasht_bits p < reverse_hasht_bits q \<longrightarrow>
       reverse_hasht_bits q < pk \<longrightarrow> buckets s ! unat q = nullptr)"
  using pk f
proof (induction f arbitrary: pk)
  case 0
  from 0(1) have "2 ^ (32 - k) dvd unat pk" by (simp add: aligned_iff_dvd)
  with 0(2,3) show ?case by (auto elim!: dvdE simp: unat_eq_0)
next
  case (Suc f)
  let ?m = "32 - k"
  let ?pk = "pk - 2 ^ ?m"
  let ?p = "reverse_hasht_bits ?pk"
  have m: "?m < 32" using k by simp
  note st = aligned_minus_step [OF Suc.prems(1,2) m]
  have "take_bit k ?p = ?p" using k st(1) by (intro hrev.rev_below) auto
  then have p: "unat ?p < 2 ^ k" using k by (simp add: take_bit_less_pow2)
  have rp: "reverse_hasht_bits ?p = ?pk" by (simp add: hrev.rev_rev)
  have gap: "x \<le> ?pk" if x: "take_bit ?m x = 0" "x < pk" for x
  proof -
    from x(1) Suc.prems(1) obtain i j where ij: "unat x = 2 ^ ?m * i" "unat pk = 2 ^ ?m * j"
      by (auto simp: aligned_iff_dvd elim!: dvdE)
    with x(2) have "i < j" by (simp add: word_less_nat_alt)
    then have "i \<le> j - 1" by simp
    then have "2 ^ ?m * i \<le> 2 ^ ?m * (j - 1)" by simp
    also have "\<dots> = 2 ^ ?m * j - 2 ^ ?m" by (simp add: diff_mult_distrib2)
    finally show ?thesis by (simp add: word_le_nat_alt st(3) ij)
  qed
  have al: "take_bit ?m (reverse_hasht_bits q) = 0" if "unat q < 2 ^ k" for q
    using that k by (intro hrev.rev_aligned) (auto simp: take_bit_less_pow2)
  show ?case
  proof (cases "buckets s ! unat ?p = nullptr")
    case False
    moreover have "buckets s ! unat q = nullptr"
      if "unat q < 2 ^ k" "?pk < reverse_hasht_bits q" "reverse_hasht_bits q < pk" for q
      using gap [OF al [OF that(1)] that(3)] that(2) by simp
    ultimately show ?thesis using p len rp st(2)
      by (intro exI [of _ ?p]) (auto simp: Let_def)
  next
    case True
    have nz: "?pk \<noteq> 0"
    proof
      assume "?pk = 0"
      then have "unat ?p = 0" by (simp add: hrev.rev_0)
      with True b0 show False by simp
    qed
    have "unat ?pk div 2 ^ ?m \<le> f"
    proof -
      from Suc.prems(1) obtain j where j: "unat pk = 2 ^ ?m * j"
        by (auto simp: aligned_iff_dvd elim!: dvdE)
      have "unat ?pk = 2 ^ ?m * (j - 1)" by (simp add: st(3) j diff_mult_distrib2)
      with Suc.prems(3) j show ?thesis by simp
    qed
    from Suc.IH [OF st(1) nz this] obtain q where q: "parent_slot f ?pk (2 ^ ?m) s = Inr q"
      "unat q < 2 ^ k" "buckets s ! unat q \<noteq> nullptr" "reverse_hasht_bits q < ?pk"
      "\<And>r. unat r < 2 ^ k \<Longrightarrow> reverse_hasht_bits q < reverse_hasht_bits r \<Longrightarrow>
         reverse_hasht_bits r < ?pk \<Longrightarrow> buckets s ! unat r = nullptr" by blast
    have "buckets s ! unat r = nullptr"
      if r: "unat r < 2 ^ k" "reverse_hasht_bits q < reverse_hasht_bits r" "reverse_hasht_bits r < pk" for r
    proof (cases "reverse_hasht_bits r = ?pk")
      case eq: True
      then have "r = ?p" by (metis hrev.rev_rev)
      with True show ?thesis by simp
    next
      case False
      with gap [OF al [OF r(1)] r(3)] have "reverse_hasht_bits r < ?pk" by simp
      with q(5) r show ?thesis by simp
    qed
    moreover have "parent_slot (Suc f) pk (2 ^ ?m) s = Inr q"
      using q(1) True nz p len by (simp add: Let_def)
    ultimately show ?thesis using q st(2) by (intro exI [of _ q]) auto
  qed
qed

section \<open>Walks over a sorted chain\<close>

lemma split_last: "as @ x # ys @ zs = (as @ butlast (x # ys)) @ last (x # ys) # zs"
proof -
  have "x # ys = butlast (x # ys) @ [last (x # ys)]" by (rule append_butlast_last_id [symmetric]) simp
  then have "as @ (x # ys) @ zs = as @ (butlast (x # ys) @ [last (x # ys)]) @ zs" by simp
  then show ?thesis by simp
qed

text \<open>A walk for a property that holds of a lower part of the keys passes exactly the nodes with it.\<close>

lemma scan_sorted:
  assumes ok: "list_ok D n (cells s) (as @ b # bs)" and cu: "cur s = b" "nxt s = nx bs nullptr"
    and f: "length bs < f" and P: "P (at (cells s) b)"
    and down: "\<And>nd nd'. key nd' \<le> key nd \<Longrightarrow> P nd \<Longrightarrow> P nd'"
  shows "\<exists>ys zs. bs = ys @ zs \<and> (\<forall>y\<in>set (as @ b # ys). P (at (cells s) y)) \<and>
     (\<forall>z\<in>set zs. \<not> P (at (cells s) z)) \<and>
     scan f P cnt s = Inr (True,
       s\<lparr>prv := (if ys = [] then prv s else last (b # butlast ys)), cur := last (b # ys),
         nxt := nx zs nullptr,
         steps := (if cnt then steps s + word_of_nat (length ys) else steps s)\<rparr>)"
proof -
  note l = list_okD(1) [OF ok] and so = list_okD(4) [OF ok]
  from scan_chain [OF l cu f, of P cnt] obtain ys zs where
    yz: "bs = ys @ zs" "\<forall>y\<in>set ys. P (at (cells s) y)" "zs = [] \<or> \<not> P (at (cells s) (hd zs))"
    and sc: "scan f P cnt s = Inr (True,
       s\<lparr>prv := (if ys = [] then prv s else last (b # butlast ys)), cur := last (b # ys),
         nxt := nx zs nullptr,
         steps := (if cnt then steps s + word_of_nat (length ys) else steps s)\<rparr>)"
    by blast
  have "P (at (cells s) y)" if "y \<in> set as" for y
  proof -
    have "key_of (cells s) y < key_of (cells s) b" using so that by (rule sorted_mid)
    with P show ?thesis by (auto intro: down [of "at (cells s) y" "at (cells s) b"])
  qed
  moreover have "\<not> P (at (cells s) z)" if z: "z \<in> set zs" for z
  proof (cases zs)
    case (Cons y ws)
    have "key_of (cells s) y \<le> key_of (cells s) z"
      using so z by (auto simp: yz(1) Cons sorted_wrt_append intro: less_imp_le)
    then show ?thesis using yz(3) Cons down by auto
  qed (use z in simp)
  ultimately show ?thesis using yz sc P by (intro exI [of _ ys] exI [of _ zs]) auto
qed

lemma start_at_bucket:
  assumes l: "links (cells s) (as @ b # zs) nullptr"
    and b: "buckets s ! unat slot = b" "unat slot < length (buckets s)"
  shows "start_at slot s = Inr (s\<lparr>prv := b, cur := b, nxt := nx zs nullptr\<rparr>)"
proof -
  have "next_of b (s\<lparr>prv := b, cur := b\<rparr>) = Inr (nx zs nullptr)"
    using l by (intro next_of_chain) simp
  with b show ?thesis by (simp add: start_at_def Let_def)
qed

text \<open>A bucket that is not initialised has no dummy node: no node has its key.\<close>

lemma uninitialised_key_absent:
  assumes l: "list_ok D n c xs" and t: "table_ok n bs c xs"
    and slot: "slot < n" "bs ! unat slot = nullptr" and x: "x \<in> set xs"
  shows "key_of c x \<noteq> reverse_hasht_bits slot"
proof
  assume eq: "key_of c x = reverse_hasht_bits slot"
  obtain k where k: "k < 32" "n = 2 ^ k" "unat n = 2 ^ k" "length bs = 2 ^ k"
    using table_size [OF t] .
  have lim: "slot < 0x80000000"
    using slot k by (intro pow2_le_limit [of k]) (simp_all add: less_pow2_iff)
  from list_okD(5) [OF l x] have nok: "node_ok n (at c x)" .
  show False
  proof (cases "payload (at c x)")
    case (Some v)
    with nok eq have "sol_node_key (hashv (at c x)) = reverse_hasht_bits slot"
      by (simp add: node_ok_def)
    with sol_node_key_neq_bucket [OF lim] show False by blast
  next
    case None
    with nok eq have "hashv (at c x) = slot" by (simp add: node_ok_def hrev.rev_eq_iff)
    with table_okD(6) [OF t x None] slot have "x = nullptr" by simp
    with links_in [OF list_okD(1) [OF l] x] show False by simp
  qed
qed

lemma get_parent_finds:
  assumes l: "list_ok D (n_buckets s) (cells s) xs"
    and t: "table_ok (n_buckets s) (buckets s) (cells s) xs"
    and slot: "slot < n_buckets s" "buckets s ! unat slot = nullptr"
    and f: "unat (n_buckets s) \<le> f" "length xs \<le> f"
  shows "\<exists>as x zs p. xs = as @ x # zs \<and>
     get_parent f slot (reverse_hasht_bits slot) s = Inr (s\<lparr>prv := p, cur := x, nxt := nx zs nullptr\<rparr>) \<and>
     key_of (cells s) x < reverse_hasht_bits slot \<and>
     (\<forall>z\<in>set zs. reverse_hasht_bits slot < key_of (cells s) z)"
proof -
  let ?K = "reverse_hasht_bits slot"
  obtain k where k: "k < 32" "n_buckets s = 2 ^ k" "unat (n_buckets s) = 2 ^ k" "length (buckets s) = 2 ^ k"
    using table_size [OF t] .
  note b0 = bucket_0 [OF l t]
  have s0: "slot \<noteq> 0" using slot(2) b0(1) by auto
  have us: "unat slot < 2 ^ k" using slot(1) k by (simp add: less_pow2_iff)
  have "0 < k" using us s0 by (cases k) (auto simp: unat_eq_0)
  have al: "take_bit (32 - k) ?K = 0"
    using us k by (intro hrev.rev_aligned) (auto simp: take_bit_less_pow2)
  have K0: "?K \<noteq> 0" using s0 by (simp add: hrev.rev_eq_0_iff)
  have Kf: "unat ?K div 2 ^ (32 - k) \<le> f"
  proof -
    have "unat ?K < 2 ^ 32" using unsigned_less [of ?K, where ?'a = nat] by simp
    also have "(2::nat) ^ 32 = 2 ^ k * 2 ^ (32 - k)" using k by (simp flip: power_add)
    finally have "unat ?K div 2 ^ (32 - k) < 2 ^ k" by (simp add: less_mult_imp_div_less)
    with f k show ?thesis by simp
  qed
  from parent_slot_finds [OF \<open>0 < k\<close> k(1) k(4) b0(1) al K0 Kf]
  obtain p where p: "parent_slot f ?K (2 ^ (32 - k)) s = Inr p" "unat p < 2 ^ k"
    "buckets s ! unat p \<noteq> nullptr" "reverse_hasht_bits p < ?K" by blast
  let ?b = "buckets s ! unat p"
  have pl: "unat p < length (buckets s)" using p k by simp
  obtain as zs where xs: "xs = as @ ?b # zs"
    and "key_of (cells s) ?b = reverse_hasht_bits (word_of_nat (unat p))"
    by (rule bucket_in_chain [OF l t pl p(3)])
  then have kb: "key_of (cells s) ?b = reverse_hasht_bits p" by simp
  let ?s = "s\<lparr>prv := ?b, cur := ?b, nxt := nx zs nullptr\<rparr>"
  have st: "start_at p s = Inr ?s"
    using list_okD(1) [OF l] pl unfolding xs by (intro start_at_bucket) auto
  have f0: "length zs < f" using f(2) by (simp add: xs)
  have ok': "list_ok D (n_buckets s) (cells ?s) (as @ ?b # zs)" using l xs by simp
  have "\<exists>ys ws. zs = ys @ ws \<and> (\<forall>y\<in>set (as @ ?b # ys). key (at (cells ?s) y) < ?K) \<and>
     (\<forall>z\<in>set ws. \<not> key (at (cells ?s) z) < ?K) \<and>
     scan f (\<lambda>nd. key nd < ?K) False ?s = Inr (True,
       ?s\<lparr>prv := (if ys = [] then prv ?s else last (?b # butlast ys)), cur := last (?b # ys),
         nxt := nx ws nullptr,
         steps := (if False then steps ?s + word_of_nat (length ys) else steps ?s)\<rparr>)"
    by (rule scan_sorted [OF ok']) (use f0 kb p(4) in auto)
  then obtain ys ws where yw: "zs = ys @ ws" "\<forall>y\<in>set (as @ ?b # ys). key_of (cells s) y < ?K"
    "\<forall>z\<in>set ws. \<not> key_of (cells s) z < ?K"
    and sc: "scan f (\<lambda>nd. key nd < ?K) False ?s = Inr (True,
       s\<lparr>prv := (if ys = [] then ?b else last (?b # butlast ys)), cur := last (?b # ys),
         nxt := nx ws nullptr\<rparr>)" by auto
  obtain f' where f': "f = Suc f'" using f0 by (cases f) auto
  have gp: "get_parent f slot ?K s = Inr (s\<lparr>prv := (if ys = [] then ?b else last (?b # butlast ys)),
      cur := last (?b # ys), nxt := nx ws nullptr\<rparr>)"
    using p(1) st sc key_step_eq [OF \<open>0 < k\<close> k(1)] k(2)
    by (simp add: get_parent_def f')
  have "key_of (cells s) z > ?K" if z: "z \<in> set ws" for z
  proof -
    have "z \<in> set xs" using z by (simp add: xs yw(1))
    from uninitialised_key_absent [OF l t slot this] yw(3) z show ?thesis by fastforce
  qed
  moreover have "key_of (cells s) (last (?b # ys)) < ?K"
    using yw(2) by (auto simp: last_in_set)
  moreover have "xs = (as @ butlast (?b # ys)) @ last (?b # ys) # ws"
    unfolding xs yw(1) by (rule split_last)
  ultimately show ?thesis using gp by blast
qed

section \<open>Initialising a bucket\<close>

text \<open>
  \<open>keeps D s xs s' xs'\<close>: from \<open>s\<close> to \<open>s'\<close> only dummy nodes were added to the chain; the items,
  the contents of every node but its link, and the detached nodes are as before.
\<close>

definition keeps :: "uptr set \<Rightarrow> ('a, 'z) solist_scheme \<Rightarrow> uptr list \<Rightarrow> ('a, 'z) solist_scheme \<Rightarrow> uptr list \<Rightarrow> bool" where
  "keeps D s xs s' xs' \<longleftrightarrow>
     items (cells s') xs' = items (cells s) xs \<and> set xs \<subseteq> set xs' \<and>
     (\<forall>x\<in>D. cells s' x = cells s x) \<and>
     (\<forall>x\<in>set xs. payload (at (cells s') x) = payload (at (cells s) x) \<and>
        hashv (at (cells s') x) = hashv (at (cells s) x) \<and> key_of (cells s') x = key_of (cells s) x) \<and>
     max_bucket_length s' = max_bucket_length s \<and> n_items s' = n_items s"

lemma keeps_refl [simp]: "keeps D s xs s xs"
  by (simp add: keeps_def)

lemma keeps_trans: "keeps D s xs s1 xs1 \<Longrightarrow> keeps D s1 xs1 s2 xs2 \<Longrightarrow> keeps D s xs s2 xs2"
  by (fastforce simp: keeps_def)

lemma keeps_cursor [simp]:
  "keeps D s xs (s'\<lparr>nxt := a\<rparr>) xs' = keeps D s xs s' xs'"
  "keeps D s xs (s'\<lparr>cur := a\<rparr>) xs' = keeps D s xs s' xs'"
  "keeps D s xs (s'\<lparr>prv := a\<rparr>) xs' = keeps D s xs s' xs'"
  "keeps D s xs (s'\<lparr>steps := n\<rparr>) xs' = keeps D s xs s' xs'"
  by (simp_all add: keeps_def)

lemma table_ok_add_bucket:
  assumes t: "table_ok n bs c (as @ x # zs)" and a: "a \<notin> set (as @ x # zs)" "a \<noteq> nullptr"
    and nn: "nullptr \<notin> set (as @ x # zs)" and na: "payload na = None"
    and slot: "hashv na < n" "bs ! unat (hashv na) = nullptr" and b0: "bs ! 0 \<noteq> nullptr"
    and c': "c' = c(a \<mapsto> na\<lparr>next_ref := q\<rparr>, x \<mapsto> (at c x)\<lparr>next_ref := a\<rparr>)"
  shows "table_ok n (bs[unat (hashv na) := a]) c' (as @ x # a # zs)"
proof -
  note d = table_okD [OF t]
  have same: "payload (at c' y) = payload (at c y) \<and> hashv (at c' y) = hashv (at c y)"
    if "y \<in> set (as @ x # zs)" for y using that a c' by auto
  have ca: "payload (at c' a) = None" "hashv (at c' a) = hashv na" using na a c' by auto
  have sl: "unat (hashv na) < length bs" using slot(1) d(2) by (simp add: word_less_nat_alt)
  have s0: "unat (hashv na) \<noteq> 0" using slot(2) b0 by metis
  have "\<forall>i<length (bs[unat (hashv na) := a]). bs[unat (hashv na) := a] ! i \<noteq> nullptr \<longrightarrow>
      bs[unat (hashv na) := a] ! i \<in> set (as @ x # a # zs) \<and>
      payload (at c' (bs[unat (hashv na) := a] ! i)) = None \<and>
      hashv (at c' (bs[unat (hashv na) := a] ! i)) = word_of_nat i"
  proof (intro allI impI)
    fix i assume i: "i < length (bs[unat (hashv na) := a])" "bs[unat (hashv na) := a] ! i \<noteq> nullptr"
    show "bs[unat (hashv na) := a] ! i \<in> set (as @ x # a # zs) \<and>
      payload (at c' (bs[unat (hashv na) := a] ! i)) = None \<and>
      hashv (at c' (bs[unat (hashv na) := a] ! i)) = word_of_nat i"
    proof (cases "i = unat (hashv na)")
      case True
      then show ?thesis using ca sl by simp
    next
      case False
      with i have i': "i < length bs" "bs ! i \<noteq> nullptr" by simp_all
      from d(5) [OF this] same [of "bs ! i"] False show ?thesis by auto
    qed
  qed
  moreover have "\<forall>y\<in>set (as @ x # a # zs). payload (at c' y) = None \<longrightarrow>
      bs[unat (hashv na) := a] ! unat (hashv (at c' y)) = y"
  proof (intro ballI impI)
    fix y assume y: "y \<in> set (as @ x # a # zs)" "payload (at c' y) = None"
    show "bs[unat (hashv na) := a] ! unat (hashv (at c' y)) = y"
    proof (cases "y = a")
      case True
      then show ?thesis using ca sl by simp
    next
      case False
      with y have y': "y \<in> set (as @ x # zs)" by auto
      with y(2) same have "bs ! unat (hashv (at c y)) = y" by (intro d(6)) auto
      moreover from this y' nn slot(2) have "unat (hashv (at c y)) \<noteq> unat (hashv na)" by auto
      ultimately show ?thesis using same [OF y'] by simp
    qed
  qed
  moreover have "hd (as @ x # a # zs) = hd (as @ x # zs)" by (cases as) auto
  ultimately show ?thesis using d(1-4) s0 by (simp add: table_ok_def)
qed

context operator_new
begin

lemma new_cell_returns:
  assumes ctor: "ctor = Inr nd"
    and c: "card (dom (cells s)) < 2 ^ 33"
  shows "returns_or_oom (scarce A) (new_cell A ctor s) (\<lambda>(a, s'). a \<noteq> nullptr \<and> aligned_ptr a \<and> cells s a = None \<and>
    s' = s\<lparr>cells := (cells s)(a \<mapsto> nd), allocs := Suc (allocs s)\<rparr>)"
proof (cases "new_obj A (allocs s) (cells s)")
  case None
  with c have "scarce A" by (auto simp: scarce_def)
  with None show ?thesis by (simp add: new_cell_def)
next
  case (Some a)
  with new_obj_fresh [OF Some] show ?thesis by (simp add: new_cell_def ctor)
qed

end

lemma list_ok_detached:
  assumes l: "list_ok D n c xs" and a: "c a = None"
  shows "list_ok (insert a D) n (c(a \<mapsto> nd)) xs" "a \<notin> set xs" "a \<notin> D"
proof -
  note d = list_okD [OF l]
  show ax: "a \<notin> set xs" and "a \<notin> D" using d(2) a by auto
  have "(c(a \<mapsto> nd)) x = c x" if "x \<in> set xs" for x using that ax by auto
  then show "list_ok (insert a D) n (c(a \<mapsto> nd)) xs"
    using d ax by (auto simp: list_ok_def cong: map_cong)
qed

lemma table_ok_detached:
  "table_ok n bs c xs \<Longrightarrow> a \<notin> set xs \<Longrightarrow> table_ok n bs (c(a \<mapsto> nd)) xs"
  by (auto simp: table_ok_def split: if_splits)

lemma items_detached: "a \<notin> set xs \<Longrightarrow> items (c(a \<mapsto> nd)) xs = items c xs"
  by (rule items_cong) auto

lemma link_bucket_links:
  assumes l: "list_ok D (n_buckets s) (cells s) xs"
    and t: "table_ok (n_buckets s) (buckets s) (cells s) xs"
    and slot: "slot < n_buckets s" "buckets s ! unat slot = nullptr"
    and a: "a \<in> D" "cells s a = Some na" "\<not> bit (next_ref na) 0" "a \<noteq> nullptr" "aligned_ptr a"
    and f: "unat (n_buckets s) \<le> f" "length xs \<le> f"
  shows "\<exists>as x zs p. xs = as @ x # zs \<and>
     key_of (cells s) x < reverse_hasht_bits slot \<and>
     (\<forall>z\<in>set zs. reverse_hasht_bits slot < key_of (cells s) z) \<and>
     link_bucket (Suc t') f slot (reverse_hasht_bits slot) a s =
       Inr (s\<lparr>cells := (cells s)(a \<mapsto> na\<lparr>next_ref := nx zs nullptr\<rparr>, x \<mapsto> (at (cells s) x)\<lparr>next_ref := a\<rparr>),
              prv := p, cur := x, nxt := nx zs nullptr\<rparr>)"
proof -
  let ?K = "reverse_hasht_bits slot"
  from get_parent_finds [OF l t slot f] obtain as x zs p where
    xs: "xs = as @ x # zs"
    and gp: "get_parent f slot ?K s = Inr (s\<lparr>prv := p, cur := x, nxt := nx zs nullptr\<rparr>)"
    and lt: "key_of (cells s) x < ?K" and gt: "\<forall>z\<in>set zs. ?K < key_of (cells s) z" by blast
  let ?s = "s\<lparr>prv := p, cur := x, nxt := nx zs nullptr\<rparr>"
  have ax: "a \<notin> set (as @ x # zs)" using list_okD(3) [OF l] a(1) xs by auto
  have ll: "links (cells ?s) (as @ x # zs) nullptr" using list_okD(1) [OF l] xs by simp
  have "cells ?s a = Some na" "cur ?s = x" "nxt ?s = nx zs nullptr" using a(2) by simp_all
  note ln = link_node [OF ll ax this(1) a(3-5) this(2,3)]
  have ul: "unat slot < length (buckets s)"
    using slot(1) table_okD(2) [OF t] by (simp add: word_less_nat_alt)
  let ?s1 = "?s\<lparr>cells := (cells s)(a \<mapsto> na\<lparr>next_ref := nx zs nullptr\<rparr>)\<rparr>"
  have absent: "next_differs ?K ?s1 = Inr True"
  proof (cases zs)
    case (Cons z ws)
    have "z \<in> set xs" using xs Cons by simp
    with links_in [OF list_okD(1) [OF l]] obtain nz where nz: "z \<noteq> nullptr" "cells s z = Some nz" by blast
    moreover have "z \<noteq> a" using ax Cons by auto
    moreover have "key nz \<noteq> ?K" using gt Cons nz by auto
    ultimately show ?thesis by (simp add: next_differs_def Cons deref_def)
  qed (simp add: next_differs_def)
  have "link_bucket (Suc t') f slot ?K a s =
      Inr (?s1\<lparr>cells := (cells s)(a \<mapsto> na\<lparr>next_ref := nx zs nullptr\<rparr>, x \<mapsto> (at (cells s) x)\<lparr>next_ref := a\<rparr>)\<rparr>)"
    using gp ln ul slot(2) absent by simp
  then show ?thesis using xs lt gt by (intro exI [of _ as] exI [of _ x] exI [of _ zs] exI [of _ p]) simp
qed

lemma initialise_bucket_correct:
  fixes s :: "'a accessor"
  assumes A: "operator_new A" and wf: "sol_wf D s xs" and slot: "slot < n_buckets s"
    and f: "unat (n_buckets s) \<le> f" "length xs \<le> f" and D: "card D \<le> 1"
  shows "returns_or_oom (scarce A) (initialise_bucket A f slot s) (\<lambda>s'. \<exists>xs'. sol_wf D s' xs' \<and>
     keeps D s xs s' xs' \<and> n_buckets s' = n_buckets s \<and> length xs' \<le> Suc (length xs) \<and>
     buckets s' ! unat slot \<noteq> nullptr \<and> steps s' = steps s)"
proof -
  from wf have l: "list_ok D (n_buckets s) (cells s) xs"
    and t: "table_ok (n_buckets s) (buckets s) (cells s) xs"
    and cnt: "n_items s = word_of_nat (length (items (cells s) xs))" by (simp_all add: sol_wf_def)
  obtain k where k: "k < 32" "n_buckets s = 2 ^ k" "unat (n_buckets s) = 2 ^ k" "length (buckets s) = 2 ^ k"
    using table_size [OF t] .
  have ul: "unat slot < length (buckets s)"
    using slot table_okD(2) [OF t] by (simp add: word_less_nat_alt)
  show ?thesis
  proof (cases "buckets s ! unat slot = nullptr")
    case False
    then show ?thesis using slot ul wf by (auto simp: initialise_bucket_def)
  next
    case True
    let ?K = "reverse_hasht_bits slot"
    let ?na = "\<lparr>hashv = slot, key = ?K, next_ref = mp_init, payload = None\<rparr> :: 'a node"
    have lim: "slot < 0x80000000"
      using slot k by (intro pow2_le_limit [of k]) (simp_all add: less_pow2_iff)
    have ctor: "solist_bucket_ctor slot = Inr ?na"
      using lim by (simp add: solist_bucket_ctor_def sol_bucket_key_eq)
    have live: "card (dom (cells s)) < 2 ^ 33" using live_bound [OF wf] D by simp
    have f0: "0 < f" using f(1) k(3) by (cases f) auto
    then obtain f' where f': "f = Suc f'" by (cases f) auto
    have "returns_or_oom (scarce A) (bind_r (new_cell A (solist_bucket_ctor slot) s) (\<lambda>(node, s).
          bind_r (deref node s) (\<lambda>nd.
          bind_r (link_bucket f f slot (key nd) node s) (\<lambda>s.
          bind_r (publish_bucket slot (key nd) node s) (\<lambda>s.
          bind_r (arr_get (buckets s) (unat slot)) (\<lambda>b.
            if nullptr = b then Inl AssertFail
            else bind_r (deref b s) (\<lambda>bn.
              if key bn \<noteq> key nd then Inl AssertFail else Inr s)))))))
        (\<lambda>s'. \<exists>xs'. sol_wf D s' xs' \<and> keeps D s xs s' xs' \<and> n_buckets s' = n_buckets s \<and>
           length xs' \<le> Suc (length xs) \<and> buckets s' ! unat slot \<noteq> nullptr \<and> steps s' = steps s)"
    proof (rule oom_bind [OF operator_new.new_cell_returns [OF A ctor live]], clarify)
      fix a
      assume a: "a \<noteq> nullptr" "aligned_ptr a" "cells s a = None"
      let ?s1 = "s\<lparr>cells := (cells s)(a \<mapsto> ?na), allocs := Suc (allocs s)\<rparr>"
      note det = list_ok_detached [OF l a(3)]
      have l1: "list_ok (insert a D) (n_buckets ?s1) (cells ?s1) xs" using det(1) by simp
      have t1: "table_ok (n_buckets ?s1) (buckets ?s1) (cells ?s1) xs"
        using table_ok_detached [OF t det(2)] by simp
      have lb: "\<exists>as x zs p. xs = as @ x # zs \<and> key_of (cells ?s1) x < ?K \<and>
         (\<forall>z\<in>set zs. ?K < key_of (cells ?s1) z) \<and>
         link_bucket (Suc f') f slot ?K a ?s1 =
         Inr (?s1\<lparr>cells := (cells ?s1)(a \<mapsto> ?na\<lparr>next_ref := nx zs nullptr\<rparr>, x \<mapsto> (at (cells ?s1) x)\<lparr>next_ref := a\<rparr>),
              prv := p, cur := x, nxt := nx zs nullptr\<rparr>)"
        by (rule link_bucket_links [OF l1 t1])
           (use slot True a f in \<open>simp_all add: mp_init_def\<close>)
      then obtain as x zs p where xs: "xs = as @ x # zs" and lt: "key_of (cells ?s1) x < ?K"
        and gt: "\<forall>z\<in>set zs. ?K < key_of (cells ?s1) z"
        and lk: "link_bucket (Suc f') f slot ?K a ?s1 =
         Inr (?s1\<lparr>cells := (cells ?s1)(a \<mapsto> ?na\<lparr>next_ref := nx zs nullptr\<rparr>, x \<mapsto> (at (cells ?s1) x)\<lparr>next_ref := a\<rparr>),
              prv := p, cur := x, nxt := nx zs nullptr\<rparr>)" by blast
      define c' where "c' = (cells ?s1)(a \<mapsto> ?na\<lparr>next_ref := nx zs nullptr\<rparr>, x \<mapsto> (at (cells ?s1) x)\<lparr>next_ref := a\<rparr>)"
      define s2 where "s2 = ?s1\<lparr>cells := c', prv := p, cur := x, nxt := nx zs nullptr\<rparr>"
      let ?s3 = "s2\<lparr>buckets := (buckets s)[unat slot := a], nxt := a\<rparr>"
      have ax: "a \<notin> set (as @ x # zs)" using det(2) xs by simp
      have nok: "node_ok (n_buckets s) ?na" using slot by (simp add: node_ok_def)
      have l3: "list_ok (insert a D - {a}) (n_buckets s) c' (as @ x # a # zs)"
      proof (rule list_ok_link [where c = "cells ?s1" and na = ?na])
        show "list_ok (insert a D) (n_buckets s) (cells ?s1) (as @ x # zs)" using l1 xs by simp
        show "c' = (cells ?s1)(a \<mapsto> ?na\<lparr>next_ref := nx zs nullptr\<rparr>, x \<mapsto> (at (cells ?s1) x)\<lparr>next_ref := a\<rparr>)"
          by (rule c'_def)
        show "key_of (cells ?s1) x < key ?na" using lt by simp
        show "key ?na < key_of (cells ?s1) z" if "z \<in> set zs" for z using gt that by simp
      qed (use a nok in simp_all)
      have Da: "insert a D - {a} = D" using det(3) by auto
      have nn: "nullptr \<notin> set xs" using links_in [OF list_okD(1) [OF l]] by auto
      have t3: "table_ok (n_buckets s) ((buckets s)[unat (hashv ?na) := a]) c' (as @ x # a # zs)"
      proof (rule table_ok_add_bucket [where c = "cells ?s1" and q = "nx zs nullptr" and na = ?na])
        show "table_ok (n_buckets s) (buckets s) (cells ?s1) (as @ x # zs)" using t1 xs by simp
        show "c' = (cells ?s1)(a \<mapsto> ?na\<lparr>next_ref := nx zs nullptr\<rparr>, x \<mapsto> (at (cells ?s1) x)\<lparr>next_ref := a\<rparr>)"
          by (rule c'_def)
      qed (use xs a ax nn slot True bucket_0 [OF l t] in simp_all)
      have same: "payload (at c' y) = payload (at (cells s) y) \<and> hashv (at c' y) = hashv (at (cells s) y)
          \<and> key_of c' y = key_of (cells s) y" if "y \<in> set xs" for y
        using that ax xs by (auto simp: c'_def)
      have ax': "a \<noteq> x" using ax by auto
      have it: "items c' (as @ x # a # zs) = items (cells s) xs"
      proof -
        have "payload (at c' a) = None" using ax' by (simp add: c'_def)
        then have "items c' (as @ x # a # zs) = items c' xs" by (simp add: xs)
        also have "\<dots> = items (cells s) xs" using same by (intro items_cong) auto
        finally show ?thesis .
      qed
      have wf3: "sol_wf D ?s3 (as @ x # a # zs)"
        using l3 t3 it cnt Da by (simp add: sol_wf_def s2_def)
      have kp: "keeps D s xs ?s3 (as @ x # a # zs)"
      proof -
        have "c' y = cells s y" if "y \<in> D" for y
        proof -
          have "y \<noteq> x" using that list_okD(3) [OF l] xs by auto
          with that det(3) show ?thesis by (auto simp: c'_def)
        qed
        with it same show ?thesis by (auto simp: keeps_def s2_def xs)
      qed
      have cx: "cells s2 x = Some ((at (cells s) x)\<lparr>next_ref := a\<rparr>)"
        using ax' by (simp add: s2_def c'_def)
      have x0: "x \<noteq> nullptr" using nn xs by auto
      have nxa: "next_of (cur s2) s2 = Inr a"
        using cx x0 a(2) by (simp add: next_of_def) (simp add: s2_def next_of_def deref_def c'_def)
      have pub: "publish_bucket slot ?K a s2 = Inr ?s3"
        using nxa True ul by (simp add: publish_bucket_def s2_def)
      have ca: "cells s2 a = Some (?na\<lparr>next_ref := nx zs nullptr\<rparr>)"
        using ax' by (simp add: s2_def c'_def)
      have lk2: "link_bucket f f slot ?K a ?s1 = Inr s2"
        using lk by (simp only: f' [symmetric] s2_def c'_def)
      have "bind_r (deref a ?s1) (\<lambda>nd.
          bind_r (link_bucket f f slot (key nd) a ?s1) (\<lambda>s.
          bind_r (publish_bucket slot (key nd) a s) (\<lambda>s.
          bind_r (arr_get (buckets s) (unat slot)) (\<lambda>b.
            if nullptr = b then Inl AssertFail
            else bind_r (deref b s) (\<lambda>bn.
              if key bn \<noteq> key nd then Inl AssertFail else Inr s))))) = Inr ?s3"
        using a lk2 pub ul ca by (simp add: deref_def)
      moreover have "\<exists>xs'. sol_wf D ?s3 xs' \<and> keeps D s xs ?s3 xs' \<and> n_buckets ?s3 = n_buckets s \<and>
           length xs' \<le> Suc (length xs) \<and> buckets ?s3 ! unat slot \<noteq> nullptr \<and> steps ?s3 = steps s"
        using wf3 kp a(1) ul by (intro exI [of _ "as @ x # a # zs"]) (simp add: s2_def xs)
      ultimately show "returns_or_oom (scarce A) (bind_r (deref a ?s1) (\<lambda>nd.
          bind_r (link_bucket f f slot (key nd) a ?s1) (\<lambda>s.
          bind_r (publish_bucket slot (key nd) a s) (\<lambda>s.
          bind_r (arr_get (buckets s) (unat slot)) (\<lambda>b.
            if nullptr = b then Inl AssertFail
            else bind_r (deref b s) (\<lambda>bn.
              if key bn \<noteq> key nd then Inl AssertFail else Inr s))))))
        (\<lambda>s'. \<exists>xs'. sol_wf D s' xs' \<and> keeps D s xs s' xs' \<and> n_buckets s' = n_buckets s \<and>
           length xs' \<le> Suc (length xs) \<and> buckets s' ! unat slot \<noteq> nullptr \<and> steps s' = steps s)"
        by simp
    qed
    with True slot ul show ?thesis by (simp add: initialise_bucket_def)
  qed
qed

end
