(* ===== verification/SolOps.thy ===== *)
theory SolOps
  imports SolBucket
begin

text \<open>
  Correctness of the operations of the accessor over the representation invariant: expansion,
  the search of \<open>find_node\<close>, insertion and deletion.
\<close>

section \<open>Expansion\<close>

lemma copy_slots_eq:
  "x + k \<le> length src \<Longrightarrow> x + k \<le> length dst \<Longrightarrow>
   copy_slots k x src dst = Inr (take x dst @ take k (drop x src) @ drop (x + k) dst)"
proof (induction k arbitrary: x dst)
  case (Suc k)
  then have x: "x < length src" "x < length dst" by simp_all
  have "copy_slots (Suc k) x src dst = copy_slots k (Suc x) src (dst[x := src ! x])"
    using x by simp
  also have "\<dots> = Inr (take (Suc x) (dst[x := src ! x]) @ take k (drop (Suc x) src)
      @ drop (Suc x + k) (dst[x := src ! x]))"
    using Suc.prems by (intro Suc.IH) simp_all
  also have "\<dots> = Inr (take x dst @ take (Suc k) (drop x src) @ drop (x + Suc k) dst)"
    using x by (simp add: take_Suc_conv_app_nth Cons_nth_drop_Suc [symmetric, of x src])
  finally show ?case .
qed simp

lemma clear_slots_eq:
  "x + k \<le> length dst \<Longrightarrow>
   clear_slots k x dst = Inr (take x dst @ replicate k nullptr @ drop (x + k) dst)"
proof (induction k arbitrary: x dst)
  case (Suc k)
  then have x: "x < length dst" by simp
  have "clear_slots (Suc k) x dst = clear_slots k (Suc x) (dst[x := nullptr])"
    using x by simp
  also have "\<dots> = Inr (take (Suc x) (dst[x := nullptr]) @ replicate k nullptr
      @ drop (Suc x + k) (dst[x := nullptr]))"
    using Suc.prems by (intro Suc.IH) simp_all
  also have "\<dots> = Inr (take x dst @ replicate (Suc k) nullptr @ drop (x + Suc k) dst)"
    using x by (simp add: take_Suc_conv_app_nth)
  finally show ?case .
qed simp

lemma pow2_twice: "k < 31 \<Longrightarrow> (2 ^ k * 2 :: u32) = 2 ^ Suc k" "k < 31 \<Longrightarrow> unat (2 ^ k * 2 :: u32) = 2 * 2 ^ k"
  using unat_pow2 [of "Suc k"] by (simp_all add: mult.commute)

lemma below_31: "(2 ^ k :: u32) < 0x80000000 \<Longrightarrow> k < 32 \<Longrightarrow> k < 31"
  by (rule ccontr) (auto simp: not_less le_antisym dest!: le_Suc_ex)

lemma expand_eq:
  assumes len: "length (buckets s) = 2 ^ k" and n: "n_buckets s = 2 ^ k" and k: "k < 31"
  shows "expand A (n_buckets s) s =
    (if new_arr A (2 ^ Suc k)
     then Inr (s\<lparr>buckets := buckets s @ replicate (2 ^ k) nullptr, n_buckets := 2 ^ Suc k\<rparr>)
     else Inl BadAlloc)"
proof -
  have u: "unat (n_buckets s) = 2 ^ k" using n k unat_pow2 [of k] by simp
  have u2: "unat (2 ^ Suc k :: u32) = 2 * 2 ^ k" "n_buckets s * 2 = 2 ^ Suc k"
    using n pow2_twice [OF k] by (simp_all add: mult.commute)
  have c: "copy_slots (2 ^ k) 0 (buckets s) (replicate (2 * 2 ^ k) nullptr)
      = Inr (buckets s @ replicate (2 ^ k) nullptr)"
    using len by (subst copy_slots_eq) simp_all
  have "clear_slots (2 * 2 ^ k - 2 ^ k) (2 ^ k) (buckets s @ replicate (2 ^ k) nullptr)
      = Inr (buckets s @ replicate (2 ^ k) nullptr)"
    using len by (subst clear_slots_eq) simp_all
  with c show ?thesis by (simp add: expand_def Let_def u u2 del: power_Suc)
qed

lemma list_ok_expand: "list_ok D (2 ^ k) c xs \<Longrightarrow> k < 31 \<Longrightarrow> list_ok D (2 ^ Suc k) c xs"
proof -
  assume l: "list_ok D (2 ^ k) c xs" and k: "k < 31"
  have "(2 ^ k :: u32) \<le> 2 ^ Suc k"
    using k unat_pow2 [of k] unat_pow2 [of "Suc k"] by (simp only: word_le_nat_alt) simp
  then have "node_ok (2 ^ k) nd \<Longrightarrow> node_ok (2 ^ Suc k) nd" for nd :: "'a node"
    by (auto simp: node_ok_def split: option.splits)
  with l show ?thesis by (auto simp: list_ok_def simp del: power_Suc)
qed

lemma table_ok_expand:
  assumes l: "list_ok D (2 ^ k) c xs" and t: "table_ok (2 ^ k) bs c xs" and k: "k < 31"
  shows "table_ok (2 ^ Suc k) (bs @ replicate (2 ^ k) nullptr) c xs"
proof -
  note d = table_okD [OF t]
  have u: "unat (2 ^ k :: u32) = 2 ^ k" "unat (2 ^ Suc k :: u32) = 2 * 2 ^ k"
    using k unat_pow2 [of k] unat_pow2 [of "Suc k"] by simp_all
  have len: "length bs = 2 ^ k" using d(2) u by simp
  have "\<exists>j<32. (2 ^ Suc k :: u32) = 2 ^ j" using k by (intro exI [of _ "Suc k"]) simp
  moreover have "(bs @ replicate (2 ^ k) nullptr) ! 0 = hd xs" using d(4) len by (simp add: nth_append)
  moreover have "(bs @ replicate (2 ^ k) nullptr) ! i \<in> set xs \<and>
      payload (at c ((bs @ replicate (2 ^ k) nullptr) ! i)) = None \<and>
      hashv (at c ((bs @ replicate (2 ^ k) nullptr) ! i)) = word_of_nat i"
    if "i < 2 * 2 ^ k" "(bs @ replicate (2 ^ k) nullptr) ! i \<noteq> nullptr" for i
  proof (cases "i < 2 ^ k")
    case True
    with that len d(5) [of i] show ?thesis by (simp add: nth_append)
  next
    case False
    with that len show ?thesis by (simp add: nth_append)
  qed
  moreover have "(bs @ replicate (2 ^ k) nullptr) ! unat (hashv (at c x)) = x"
    if x: "x \<in> set xs" "payload (at c x) = None" for x
  proof -
    from list_okD(5) [OF l x(1)] x(2) have "hashv (at c x) < 2 ^ k" by (simp add: node_ok_def)
    then have "unat (hashv (at c x)) < length bs" using u(1) len by (simp add: word_less_nat_alt)
    with d(6) [OF x] show ?thesis by (simp add: nth_append)
  qed
  ultimately show ?thesis using d(3) u len by (simp add: table_ok_def del: power_Suc)
qed

lemma expand_correct:
  assumes wf: "sol_wf D s xs" and lim: "n_buckets s < 0x80000000"
  shows "returns_or_oom (scarce A) (expand A (n_buckets s) s) (\<lambda>s'. new_arr A (n_buckets s * 2) \<and> sol_wf D s' xs \<and> keeps D s xs s' xs \<and>
     n_buckets s' = n_buckets s * 2 \<and> unat (n_buckets s') = 2 * unat (n_buckets s) \<and> steps s' = steps s \<and>
     cells s' = cells s)"
proof -
  from wf have l: "list_ok D (n_buckets s) (cells s) xs"
    and t: "table_ok (n_buckets s) (buckets s) (cells s) xs"
    and cnt: "n_items s = word_of_nat (length (items (cells s) xs))" by (simp_all add: sol_wf_def)
  obtain k where k: "k < 32" "n_buckets s = 2 ^ k" "unat (n_buckets s) = 2 ^ k" "length (buckets s) = 2 ^ k"
    using table_size [OF t] .
  have k31: "k < 31" using below_31 k(1,2) lim by simp
  let ?s = "s\<lparr>buckets := buckets s @ replicate (2 ^ k) nullptr, n_buckets := 2 ^ Suc k\<rparr>"
  have "sol_wf D ?s xs"
    using list_ok_expand [of D k "cells s" xs] table_ok_expand [of D k "cells s" xs "buckets s"] l t k k31 cnt
    by (simp add: sol_wf_def del: power_Suc)
  moreover have "keeps D s xs ?s xs" by (simp add: keeps_def)
  ultimately show ?thesis
    unfolding expand_eq [OF k(4) k(2) k31]
    using k k31 pow2_twice [OF k31] by (auto simp: scarce_def simp del: power_Suc)
qed

section \<open>Finding a node\<close>

lemma no_detached: "card ({} :: uptr set) \<le> 1"
  by simp

lemma data_key_iff:
  assumes l: "list_ok D n c xs" and n: "n = 2 ^ k" "k < 32" and x: "x \<in> set xs"
  shows "key_of c x = sol_node_key h \<longleftrightarrow> payload (at c x) \<noteq> None \<and> hashv (at c x) = take_bit 31 h"
proof -
  from list_okD(5) [OF l x] have nok: "node_ok n (at c x)" .
  show ?thesis
  proof (cases "payload (at c x)")
    case None
    with nok have b: "hashv (at c x) < n" "key_of c x = reverse_hasht_bits (hashv (at c x))"
      by (simp_all add: node_ok_def)
    then have "hashv (at c x) < 0x80000000"
      using n by (intro pow2_le_limit [of k]) (simp_all add: less_pow2_iff)
    with b(2) None sol_node_key_neq_bucket [of "hashv (at c x)" h] show ?thesis by auto
  next
    case (Some v)
    with nok have "hashv (at c x) < 0x80000000" "key_of c x = sol_node_key (hashv (at c x))"
      by (simp_all add: node_ok_def)
    with Some show ?thesis by (auto simp: sol_node_key_eq_iff take_bit_31_id)
  qed
qed

lemma distinct_items:
  assumes "sorted_wrt (<) (map (key_of c) xs)" "\<forall>x\<in>set xs. node_ok n (at c x)"
  shows "distinct (map fst (items c xs))"
  using assms
proof (induction xs)
  case (Cons x xs)
  show ?case
  proof (cases "payload (at c x)")
    case (Some v)
    have "hashv (at c x) \<notin> fst ` set (items c xs)"
    proof
      assume "hashv (at c x) \<in> fst ` set (items c xs)"
      then obtain y w where y: "y \<in> set xs" "hashv (at c y) = hashv (at c x)" "payload (at c y) = Some w"
        by (auto simp: in_items)
      with Cons.prems Some have "key_of c y = key_of c x" by (auto simp: node_ok_def)
      with Cons.prems(1) y(1) show False by auto
    qed
    with Cons Some show ?thesis by simp
  qed (use Cons in simp)
qed simp

lemma lookup_items:
  assumes l: "list_ok D n c xs"
  shows "map_of (items c xs) h = Some v \<longleftrightarrow> (\<exists>x\<in>set xs. hashv (at c x) = h \<and> payload (at c x) = Some v)"
proof -
  have "distinct (map fst (items c xs))"
    using list_okD(4,5) [OF l] by (intro distinct_items) auto
  then show ?thesis by (auto simp: in_items dest: map_of_SomeD intro: map_of_is_SomeI)
qed

lemma lookup_None:
  assumes l: "list_ok D n c xs"
  shows "map_of (items c xs) h = None \<longleftrightarrow> \<not> (\<exists>x\<in>set xs. hashv (at c x) = h \<and> payload (at c x) \<noteq> None)"
  using lookup_items [OF l, of h] by (metis not_None_eq)

lemma key_in_chain_iff:
  assumes l: "list_ok D n c xs" and n: "n = 2 ^ k" "k < 32"
  shows "(\<exists>x\<in>set xs. key_of c x = sol_node_key h) \<longleftrightarrow> map_of (items c xs) (take_bit 31 h) \<noteq> None"
  using data_key_iff [OF l n] lookup_None [OF l] by auto

text \<open>
  The cursor after a search: the nodes up to \<open>cur\<close> are those with keys up to the key searched.
\<close>

definition found_at :: "'a accessor \<Rightarrow> uptr list \<Rightarrow> u32 \<Rightarrow> u32 \<Rightarrow> uptr list \<Rightarrow> uptr list \<Rightarrow> uptr list \<Rightarrow> bool" where
  "found_at s xs slot k as ys zs \<longleftrightarrow>
     (let b = buckets s ! unat slot in
      xs = as @ b # ys @ zs \<and> cur s = last (b # ys) \<and> nxt s = nx zs nullptr \<and>
      prv s = (if ys = [] then b else last (b # butlast ys)) \<and> steps s = word_of_nat (length ys) \<and>
      (\<forall>y\<in>set (as @ b # ys). key_of (cells s) y \<le> k) \<and> (\<forall>z\<in>set zs. k < key_of (cells s) z))"

lemma find_node_correct:
  assumes A: "operator_new A" and wf: "sol_wf D s xs"
    and f: "unat (n_buckets s) \<le> f" "length xs < f" and D: "card D \<le> 1"
  shows "returns_or_oom (scarce A) (find_node A f h s) (\<lambda>(ok, s'). \<exists>xs' as ys zs. sol_wf D s' xs' \<and>
     keeps D s xs s' xs' \<and> n_buckets s' = n_buckets s \<and> length xs' \<le> Suc (length xs) \<and>
     buckets s' ! unat (h mod n_buckets s) \<noteq> nullptr \<and>
     found_at s' xs' (h mod n_buckets s) (sol_node_key h) as ys zs \<and>
     (buckets s ! unat (h mod n_buckets s) \<noteq> nullptr \<longrightarrow> xs' = xs \<and> cells s' = cells s \<and> buckets s' = buckets s) \<and>
     ok = (map_of (items (cells s) xs) (take_bit 31 h) \<noteq> None))"
proof -
  let ?slot = "h mod n_buckets s" and ?K = "sol_node_key h"
  from wf have l: "list_ok D (n_buckets s) (cells s) xs"
    and t: "table_ok (n_buckets s) (buckets s) (cells s) xs" by (simp_all add: sol_wf_def)
  obtain k where k: "k < 32" "n_buckets s = 2 ^ k" "unat (n_buckets s) = 2 ^ k" "length (buckets s) = 2 ^ k"
    using table_size [OF t] .
  have slot: "?slot = take_bit k h" using k mod_pow2 by simp
  have us: "unat ?slot < 2 ^ k" unfolding slot by (simp add: unat_take_bit)
  have sn: "?slot < n_buckets s" using us k by (simp add: less_pow2_iff)
  have n0: "n_buckets s \<noteq> 0" using k(3) by auto
  have init: "returns_or_oom (scarce A) (if buckets s ! unat ?slot = nullptr then initialise_bucket A f ?slot s else Inr s)
    (\<lambda>s'. \<exists>xs'. sol_wf D s' xs' \<and> keeps D s xs s' xs' \<and> n_buckets s' = n_buckets s \<and>
      length xs' \<le> Suc (length xs) \<and> buckets s' ! unat ?slot \<noteq> nullptr \<and>
      (buckets s ! unat ?slot \<noteq> nullptr \<longrightarrow> xs' = xs \<and> cells s' = cells s \<and> buckets s' = buckets s))"
  proof (cases "buckets s ! unat ?slot = nullptr")
    case True
    show ?thesis using True initialise_bucket_correct [OF A wf sn f(1) _ D] f(2)
      by (auto elim!: oom_mono)
  next
    case False
    then show ?thesis using wf by auto
  qed
  have walk: "returns_or_oom (scarce A) (bind_r (find_node_try f f ?slot ?K s1) (\<lambda>s.
          if cur s = nullptr then Inr (False, s)
          else bind_r (deref (cur s) s) (\<lambda>c.
            if key c \<noteq> ?K then Inr (False, s) else Inr (True, s))))
      (\<lambda>(ok, s'). \<exists>xs' as ys zs. sol_wf D s' xs' \<and>
        keeps D s xs s' xs' \<and> n_buckets s' = n_buckets s \<and> length xs' \<le> Suc (length xs) \<and>
        buckets s' ! unat ?slot \<noteq> nullptr \<and> found_at s' xs' ?slot ?K as ys zs \<and>
        (buckets s ! unat ?slot \<noteq> nullptr \<longrightarrow> xs' = xs \<and> cells s' = cells s \<and> buckets s' = buckets s) \<and>
        ok = (map_of (items (cells s) xs) (take_bit 31 h) \<noteq> None))"
    if h: "sol_wf D s1 xs1" "keeps D s xs s1 xs1" "n_buckets s1 = n_buckets s"
      "length xs1 \<le> Suc (length xs)" "buckets s1 ! unat ?slot \<noteq> nullptr"
      "buckets s ! unat ?slot \<noteq> nullptr \<longrightarrow> xs1 = xs \<and> cells s1 = cells s \<and> buckets s1 = buckets s" for s1 xs1
  proof -
    from h(1) have l1: "list_ok D (n_buckets s) (cells s1) xs1"
      and t1: "table_ok (n_buckets s) (buckets s1) (cells s1) xs1" by (simp_all add: sol_wf_def h(3))
    let ?b = "buckets s1 ! unat ?slot"
    have ul: "unat ?slot < length (buckets s1)" using table_okD(2) [OF t1] us k by simp
    obtain as zs0 where xs1: "xs1 = as @ ?b # zs0"
      and "key_of (cells s1) ?b = reverse_hasht_bits (word_of_nat (unat ?slot))"
      by (rule bucket_in_chain [OF l1 t1 ul h(5)])
    then have "key_of (cells s1) ?b = reverse_hasht_bits ?slot" by simp
    also have "\<dots> \<le> ?K" unfolding slot using k by (intro slot_key_le_node_key) simp
    finally have kb: "key_of (cells s1) ?b \<le> ?K" .
    let ?s = "s1\<lparr>prv := ?b, cur := ?b, nxt := nx zs0 nullptr, steps := 0\<rparr>"
    have st: "start_at ?slot s1 = Inr (s1\<lparr>prv := ?b, cur := ?b, nxt := nx zs0 nullptr\<rparr>)"
      using list_okD(1) [OF l1] ul unfolding xs1 by (intro start_at_bucket) auto
    have ok': "list_ok D (n_buckets s) (cells ?s) (as @ ?b # zs0)" using l1 xs1 by simp
    have fz: "length zs0 < f" using h(4) f(2) by (simp add: xs1)
    have "\<exists>ys zs. zs0 = ys @ zs \<and> (\<forall>y\<in>set (as @ ?b # ys). key (at (cells ?s) y) \<le> ?K) \<and>
       (\<forall>z\<in>set zs. \<not> key (at (cells ?s) z) \<le> ?K) \<and>
       scan f (\<lambda>nd. key nd \<le> ?K) True ?s = Inr (True,
         ?s\<lparr>prv := (if ys = [] then prv ?s else last (?b # butlast ys)), cur := last (?b # ys),
           nxt := nx zs nullptr,
           steps := (if True then steps ?s + word_of_nat (length ys) else steps ?s)\<rparr>)"
      by (rule scan_sorted [OF ok']) (use fz kb in auto)
    then obtain ys zs where yz: "zs0 = ys @ zs" "\<forall>y\<in>set (as @ ?b # ys). key_of (cells s1) y \<le> ?K"
      "\<forall>z\<in>set zs. ?K < key_of (cells s1) z"
      and sc: "scan f (\<lambda>nd. key nd \<le> ?K) True ?s = Inr (True,
         s1\<lparr>prv := (if ys = [] then ?b else last (?b # butlast ys)), cur := last (?b # ys),
           nxt := nx zs nullptr, steps := word_of_nat (length ys)\<rparr>)"
      by (auto simp: not_le)
    define s2 where "s2 = s1\<lparr>prv := (if ys = [] then ?b else last (?b # butlast ys)),
       cur := last (?b # ys), nxt := nx zs nullptr, steps := word_of_nat (length ys)\<rparr>"
    obtain f' where f': "f = Suc f'" using fz by (cases f) auto
    have fn: "find_node_try f f ?slot ?K s1 = Inr s2"
      using st sc by (simp add: f' s2_def)
    have fa: "found_at s2 xs1 ?slot ?K as ys zs"
      using yz by (simp add: found_at_def Let_def s2_def xs1)
    have cin: "cur s2 \<in> set (as @ ?b # ys)" by (simp add: s2_def)
    have cxs: "cur s2 \<in> set xs1" using cin by (auto simp: xs1 yz(1))
    from links_in [OF list_okD(1) [OF l1] cxs] obtain nc where
      nc: "cur s2 \<noteq> nullptr" "cells s2 (cur s2) = Some nc" by (auto simp: s2_def)
    have "key nc = ?K \<longleftrightarrow> (\<exists>x\<in>set xs1. key_of (cells s1) x = ?K)"
    proof
      assume "key nc = ?K"
      with nc cxs show "\<exists>x\<in>set xs1. key_of (cells s1) x = ?K"
        by (intro bexI [of _ "cur s2"]) (auto simp: s2_def)
    next
      assume "\<exists>x\<in>set xs1. key_of (cells s1) x = ?K"
      then obtain x where x: "x \<in> set xs1" "key_of (cells s1) x = ?K" by blast
      have "xs1 = (as @ butlast (?b # ys)) @ last (?b # ys) # zs"
        unfolding xs1 yz(1) by (rule split_last)
      then have sp: "xs1 = (as @ butlast (?b # ys)) @ cur s2 # zs" by (simp add: s2_def)
      have le: "key_of (cells s1) (cur s2) \<le> ?K" using yz(2) cin by blast
      from x(1) sp consider "x \<in> set (as @ butlast (?b # ys))" | "x = cur s2" | "x \<in> set zs" by auto
      then show "key nc = ?K"
      proof cases
        case 1
        with list_okD(4) [OF l1] have "key_of (cells s1) x < key_of (cells s1) (cur s2)"
          unfolding sp by (rule sorted_mid(1))
        with x(2) le show ?thesis by simp
      next
        case 2
        with x(2) nc show ?thesis by (simp add: s2_def)
      next
        case 3
        with x(2) yz(3) show ?thesis by auto
      qed
    qed
    also have "\<dots> \<longleftrightarrow> map_of (items (cells s1) xs1) (take_bit 31 h) \<noteq> None"
      by (rule key_in_chain_iff [OF l1 k(2,1)])
    also have "items (cells s1) xs1 = items (cells s) xs" using h(2) by (simp add: keeps_def)
    finally have res: "key nc = ?K \<longleftrightarrow> map_of (items (cells s) xs) (take_bit 31 h) \<noteq> None" .
    have w2: "sol_wf D s2 xs1" "keeps D s xs s2 xs1" "n_buckets s2 = n_buckets s"
      "buckets s2 ! unat ?slot \<noteq> nullptr"
      using h by (simp_all add: s2_def)
    have ex: "\<exists>xs' as ys zs. sol_wf D s2 xs' \<and> keeps D s xs s2 xs' \<and> n_buckets s2 = n_buckets s \<and>
        length xs' \<le> Suc (length xs) \<and> buckets s2 ! unat ?slot \<noteq> nullptr \<and>
        found_at s2 xs' ?slot ?K as ys zs \<and>
        (buckets s ! unat ?slot \<noteq> nullptr \<longrightarrow> xs' = xs \<and> cells s2 = cells s \<and> buckets s2 = buckets s)"
    proof -
      have "cells s2 = cells s1" "buckets s2 = buckets s1" by (simp_all add: s2_def)
      with w2 h(4,6) fa show ?thesis by metis
    qed
    show ?thesis using fn nc res ex by simp
  qed
  have "find_node A f h s = bind_r (if buckets s ! unat ?slot = nullptr then initialise_bucket A f ?slot s else Inr s)
     (\<lambda>s1. bind_r (find_node_try f f ?slot ?K s1) (\<lambda>s.
          if cur s = nullptr then Inr (False, s)
          else bind_r (deref (cur s) s) (\<lambda>c.
            if key c \<noteq> ?K then Inr (False, s) else Inr (True, s))))"
    using n0 us k by (simp add: find_node_def Let_def)
  then show ?thesis
    by (simp only:) (rule oom_bind [OF init], use walk in blast)
qed

section \<open>Inserting a node\<close>

text \<open>The live nodes of a chain stay where they are, with their contents.\<close>

definition stable :: "('a, 'z) solist_scheme \<Rightarrow> uptr list \<Rightarrow> ('a, 'z) solist_scheme \<Rightarrow> uptr list \<Rightarrow> bool" where
  "stable s xs s' xs' \<longleftrightarrow>
     set xs \<subseteq> set xs' \<and>
     (\<forall>x\<in>set xs. payload (at (cells s') x) = payload (at (cells s) x) \<and>
        hashv (at (cells s') x) = hashv (at (cells s) x) \<and> key_of (cells s') x = key_of (cells s) x)"

lemma keeps_stable: "keeps D s xs s' xs' \<Longrightarrow> stable s xs s' xs'"
  by (simp add: keeps_def stable_def)

lemma stable_trans: "stable s xs s1 xs1 \<Longrightarrow> stable s1 xs1 s2 xs2 \<Longrightarrow> stable s xs s2 xs2"
  by (fastforce simp: stable_def)

lemma map_of_insert_mid:
  "h \<notin> fst ` set l1 \<Longrightarrow> map_of (l1 @ (h, v) # l2) = (map_of (l1 @ l2))(h \<mapsto> v)"
  by (induction l1) auto

lemma is_node_payload:
  assumes "node_ok n nd" "n = 2 ^ k" "k < 32"
  shows "is_node nd \<longleftrightarrow> payload nd \<noteq> None"
proof -
  have i: "is_node nd \<longleftrightarrow> bit (key nd) 0" by (simp add: is_node_def and_DATABIT)
  show ?thesis
  proof (cases "payload nd")
    case None
    with assms have "key nd = reverse_hasht_bits (hashv nd)" "hashv nd < 0x80000000"
      by (auto simp: node_ok_def less_pow2_iff intro: pow2_le_limit [of k])
    with None i reversed_even show ?thesis by simp
  next
    case (Some v)
    with assms i sol_node_key_odd show ?thesis by (simp add: node_ok_def)
  qed
qed

text \<open>The nodes a search passes behind the dummy node of its bucket are data nodes.\<close>

lemma passed_are_data:
  assumes l: "list_ok D n c (as @ b # ys @ zs)" and n: "n = 2 ^ k" "k < 32"
    and b: "key_of c b = reverse_hasht_bits (take_bit k h)"
    and le: "\<forall>y\<in>set ys. key_of c y \<le> sol_node_key h"
  shows "\<forall>y\<in>set ys. payload (at c y) \<noteq> None"
proof
  fix y assume y: "y \<in> set ys"
  show "payload (at c y) \<noteq> None"
  proof
    assume p: "payload (at c y) = None"
    have "node_ok n (at c y)" using list_okD(5) [OF l] y by simp
    with p have h: "hashv (at c y) < n" "key_of c y = reverse_hasht_bits (hashv (at c y))"
      by (simp_all add: node_ok_def)
    have "take_bit k (hashv (at c y)) = hashv (at c y)"
      using h(1) n by (simp add: take_bit_less_pow2 less_pow2_iff)
    moreover have "reverse_hasht_bits (hashv (at c y)) \<le> sol_node_key h" using h(2) le y by metis
    ultimately have "reverse_hasht_bits (hashv (at c y)) \<le> reverse_hasht_bits (take_bit k h)"
      by (intro no_bucket_between [OF n(2)])
    with h(2) b have "key_of c y \<le> key_of c b" by simp
    moreover have "key_of c b < key_of c y"
      using list_okD(4) [OF l] y by (auto simp: sorted_wrt_append)
    ultimately show False by simp
  qed
qed

definition bucket_run :: "(uptr \<rightharpoonup> 'a node) \<Rightarrow> uptr list \<Rightarrow> uptr \<Rightarrow> uptr list" where
  "bucket_run c xs b = takeWhile (\<lambda>x. is_node (at c x)) (tl (dropWhile (\<lambda>x. x \<noteq> b) xs))"

lemma dropWhile_split: "b \<notin> set as \<Longrightarrow> dropWhile (\<lambda>x. x \<noteq> b) (as @ b # zs) = b # zs"
  by (induction as) auto

lemma bucket_run_eq:
  assumes "distinct (as @ b # ys @ zs)" and "\<forall>y\<in>set ys. is_node (at c y)"
    and "zs = [] \<or> \<not> is_node (at c (hd zs))"
  shows "bucket_run c (as @ b # ys @ zs) b = ys"
proof -
  have "takeWhile (\<lambda>x. is_node (at c x)) (ys @ zs) = ys"
    using assms(2,3) by (cases zs) (auto simp: takeWhile_append2 takeWhile_tail)
  with assms(1) show ?thesis by (simp add: bucket_run_def dropWhile_split)
qed

text \<open>
  What one successful pass of the retry loop did: the node \<open>a\<close> was linked behind the cursor.
\<close>

definition inserted :: "'a accessor \<Rightarrow> uptr list \<Rightarrow> u32 \<Rightarrow> uptr \<Rightarrow> uptr list \<Rightarrow> uptr list \<Rightarrow> uptr list \<Rightarrow> bool" where
  "inserted s xs slot a as ys zs \<longleftrightarrow>
     (let b = buckets s ! unat slot in
      xs = as @ b # ys @ a # zs \<and> cur s = last (b # ys) \<and>
      steps s = word_of_nat (length ys) \<and> is_node (at (cells s) a) \<and>
      (\<forall>y\<in>set ys. is_node (at (cells s) y)))"

lemma found_at_split:
  assumes "found_at s xs slot k as ys zs"
  defines "b \<equiv> buckets s ! unat slot"
  shows "xs = (as @ butlast (b # ys)) @ last (b # ys) # zs" "xs = as @ b # ys @ zs"
    "cur s = last (b # ys)" "nxt s = nx zs nullptr" "steps s = word_of_nat (length ys)"
    "\<And>y. y \<in> set (as @ b # ys) \<Longrightarrow> key_of (cells s) y \<le> k"
    "\<And>z. z \<in> set zs \<Longrightarrow> k < key_of (cells s) z"
    "prv s = (if ys = [] then b else last (b # butlast ys))"
proof -
  show xs: "xs = as @ b # ys @ zs" using assms by (simp add: found_at_def Let_def)
  show "xs = (as @ butlast (b # ys)) @ last (b # ys) # zs" unfolding xs by (rule split_last)
  show "key_of (cells s) y \<le> k" if "y \<in> set (as @ b # ys)" for y
    using that assms unfolding found_at_def Let_def by blast
  show "k < key_of (cells s) z" if "z \<in> set zs" for z
    using that assms unfolding found_at_def Let_def by blast
qed (use assms in \<open>simp_all add: found_at_def Let_def\<close>)

lemma link_at_cursor:
  fixes s :: "'a accessor"
  assumes wf: "sol_wf D s xs" and fa: "found_at s xs slot (sol_node_key h) as ys zs"
    and absent: "\<forall>x\<in>set xs. key_of (cells s) x \<noteq> sol_node_key h"
    and a: "a \<in> D" "cells s a = Some na" "a \<noteq> nullptr" "aligned_ptr a" "next_ref na = mp_init"
    and na: "payload na = Some v" "hashv na = h" "key na = sol_node_key h" and h: "h < 0x80000000"
  defines "b \<equiv> buckets s ! unat slot"
  defines "x \<equiv> last (b # ys)"
  defines "c' \<equiv> (cells s)(a \<mapsto> na\<lparr>next_ref := nx zs nullptr\<rparr>, x \<mapsto> (at (cells s) x)\<lparr>next_ref := a\<rparr>)"
  defines "xs' \<equiv> as @ b # ys @ a # zs"
  shows "bind_r (set_next a (nxt s) s) (\<lambda>s. cas_next (cur s) (nxt s) a s) = Inr (True, s\<lparr>cells := c'\<rparr>)"
    and "list_ok (D - {a}) (n_buckets s) c' xs'"
    and "table_ok (n_buckets s) (buckets s) c' xs'"
    and "items c' xs' = items (cells s) (as @ b # ys) @ (h, v) # items (cells s) zs"
    and "\<And>y. y \<in> set xs \<Longrightarrow> payload (at c' y) = payload (at (cells s) y) \<and>
       hashv (at c' y) = hashv (at (cells s) y) \<and> key_of c' y = key_of (cells s) y"
    and "\<And>y. y \<in> D - {a} \<Longrightarrow> c' y = cells s y"
proof -
  from wf have l: "list_ok D (n_buckets s) (cells s) xs"
    and t: "table_ok (n_buckets s) (buckets s) (cells s) xs" by (simp_all add: sol_wf_def)
  note fs = found_at_split [OF fa, folded b_def, folded x_def]
  have ax: "a \<notin> set ((as @ butlast (b # ys)) @ x # zs)"
    using list_okD(3) [OF l] a(1) unfolding fs(1) by blast
  have ln: "links (cells s) ((as @ butlast (b # ys)) @ x # zs) nullptr"
    using list_okD(1) [OF l] unfolding fs(1) .
  have nb: "\<not> bit (next_ref na) 0" by (simp add: a(5) mp_init_def)
  note lk = link_node [OF ln ax a(2) nb a(3,4) fs(3,4)]
  show "bind_r (set_next a (nxt s) s) (\<lambda>s. cas_next (cur s) (nxt s) a s) = Inr (True, s\<lparr>cells := c'\<rparr>)"
    using lk fs(3,4) by (simp add: c'_def)
  have xin: "x \<in> set (as @ b # ys)" by (simp add: x_def)
  have lt: "key_of (cells s) x < key na"
    using fs(6) [OF xin] absent xin by (auto simp: na(3) order_less_le fs(2))
  have nok: "node_ok (n_buckets s) na" using na h by (simp add: node_ok_def)
  have xs': "xs' = (as @ butlast (b # ys)) @ x # a # zs"
    using split_last [of as b ys "a # zs"] by (simp only: xs'_def x_def)
  show "list_ok (D - {a}) (n_buckets s) c' xs'"
    unfolding xs'
  proof (rule list_ok_link [where c = "cells s" and na = na and bs = zs])
    show "list_ok D (n_buckets s) (cells s) ((as @ butlast (b # ys)) @ x # zs)"
      using l unfolding fs(1) .
    show "key na < key_of (cells s) z" if "z \<in> set zs" for z using fs(7) [OF that] na(3) by simp
    show "c' = (cells s)(a \<mapsto> na\<lparr>next_ref := nx zs nullptr\<rparr>, x \<mapsto> (at (cells s) x)\<lparr>next_ref := a\<rparr>)"
      by (simp add: c'_def)
  qed (use a lt nok in simp_all)
  show "table_ok (n_buckets s) (buckets s) c' xs'"
    unfolding xs'
  proof (rule table_ok_add_data [where c = "cells s" and na = na and q = "nx zs nullptr"])
    show "table_ok (n_buckets s) (buckets s) (cells s) ((as @ butlast (b # ys)) @ x # zs)"
      using t unfolding fs(1) .
    show "c' = (cells s)(a \<mapsto> na\<lparr>next_ref := nx zs nullptr\<rparr>, x \<mapsto> (at (cells s) x)\<lparr>next_ref := a\<rparr>)"
      by (simp add: c'_def)
  qed (use ax na in simp_all)
  have axs: "a \<notin> set xs" using ax unfolding fs(1) .
  show same: "payload (at c' y) = payload (at (cells s) y) \<and>
       hashv (at c' y) = hashv (at (cells s) y) \<and> key_of c' y = key_of (cells s) y" if "y \<in> set xs" for y
    using that axs by (auto simp: c'_def)
  have "a \<noteq> x" using ax by auto
  then have "payload (at c' a) = Some v" "hashv (at c' a) = h" using na by (simp_all add: c'_def)
  moreover have "items c' (as @ b # ys) = items (cells s) (as @ b # ys)" "items c' zs = items (cells s) zs"
    using same by (auto intro!: items_cong simp del: items_simps simp: fs(2))
  ultimately show "items c' xs' = items (cells s) (as @ b # ys) @ (h, v) # items (cells s) zs"
    using xs'_def items_simps(3) [of c' "as @ b # ys" "a # zs"] by simp
  show "c' y = cells s y" if "y \<in> D - {a}" for y
  proof -
    have "x \<in> set xs" using fs(1) by simp
    then have "y \<noteq> x" using that list_okD(3) [OF l] by auto
    with that show ?thesis by (simp add: c'_def)
  qed
qed

lemma bucket_key_at_slot:
  assumes wf: "sol_wf D s xs" and b: "buckets s ! unat (h mod n_buckets s) \<noteq> nullptr"
    and k: "k < 32" "n_buckets s = 2 ^ k"
  shows "key_of (cells s) (buckets s ! unat (h mod n_buckets s)) = reverse_hasht_bits (take_bit k h)"
proof -
  from wf have l: "list_ok D (n_buckets s) (cells s) xs"
    and t: "table_ok (n_buckets s) (buckets s) (cells s) xs" by (simp_all add: sol_wf_def)
  have "unat (h mod n_buckets s) < 2 ^ k" using k by (simp add: mod_pow2 unat_take_bit)
  then have "unat (h mod n_buckets s) < length (buckets s)"
    using table_okD(2) [OF t] k unat_pow2 [of k] by simp
  from bucket_in_chain [OF l t this b]
  have "key_of (cells s) (buckets s ! unat (h mod n_buckets s)) =
      reverse_hasht_bits (word_of_nat (unat (h mod n_buckets s)))" by blast
  then show ?thesis using k by (simp add: mod_pow2)
qed

lemma insert_step:
  fixes s :: "'a accessor"
  assumes wf: "sol_wf D s xs" and fa: "found_at s xs slot (sol_node_key h) as ys zs"
    and slot: "slot = h mod n_buckets s" "buckets s ! unat slot \<noteq> nullptr"
    and absent: "map_of (items (cells s) xs) h = None"
    and a: "a \<in> D" "cells s a = Some na" "a \<noteq> nullptr" "aligned_ptr a" "next_ref na = mp_init"
    and na: "payload na = Some v" "hashv na = h" "key na = sol_node_key h" and h: "h < 0x80000000"
  obtains s' where
    "bind_r (set_next a (nxt s) s) (\<lambda>s. bind_r (cas_next (cur s) (nxt s) a s) (\<lambda>(ok, s).
       if ok then Inr (True, inc_item_count s) else g s)) = Inr (True, s')"
    "sol_wf (D - {a}) s' (as @ buckets s ! unat slot # ys @ a # zs)"
    "stable s xs s' (as @ buckets s ! unat slot # ys @ a # zs)"
    "inserted s' (as @ buckets s ! unat slot # ys @ a # zs) slot a as ys zs"
    "map_of (items (cells s') (as @ buckets s ! unat slot # ys @ a # zs)) = (map_of (items (cells s) xs))(h \<mapsto> v)"
    "n_items s' = n_items s + 1" "n_buckets s' = n_buckets s" "max_bucket_length s' = max_bucket_length s"
    "\<forall>d\<in>D - {a}. cells s' d = cells s d" "buckets s' = buckets s"
proof -
  define b where "b = buckets s ! unat slot"
  define x where "x = last (b # ys)"
  define c' where "c' = (cells s)(a \<mapsto> na\<lparr>next_ref := nx zs nullptr\<rparr>, x \<mapsto> (at (cells s) x)\<lparr>next_ref := a\<rparr>)"
  let ?xs' = "as @ b # ys @ a # zs"
  let ?s' = "inc_item_count (s\<lparr>cells := c'\<rparr>)"
  from wf have l: "list_ok D (n_buckets s) (cells s) xs"
    and t: "table_ok (n_buckets s) (buckets s) (cells s) xs"
    and cnt: "n_items s = word_of_nat (length (items (cells s) xs))" by (simp_all add: sol_wf_def)
  obtain k where k: "k < 32" "n_buckets s = 2 ^ k" using table_size [OF t] .
  have "\<forall>y\<in>set xs. key_of (cells s) y \<noteq> sol_node_key h"
    using key_in_chain_iff [OF l k(2,1), of h] absent h by (simp add: take_bit_31_id)
  note lk = link_at_cursor [OF wf fa this a na h, folded b_def, folded x_def, folded c'_def]
  note fs = found_at_split [OF fa, folded b_def]
  have ec: "bind_r (set_next a (nxt s) s) (\<lambda>s. bind_r (cas_next (cur s) (nxt s) a s) (\<lambda>(ok, s).
       if ok then Inr (True, inc_item_count s) else g s)) = Inr (True, ?s')"
    using lk(1) by (simp add: bind_r_assoc [symmetric])
  have ist: "items (cells s) xs = items (cells s) (as @ b # ys) @ items (cells s) zs"
    using items_simps(3) [of "cells s" "as @ b # ys" zs] by (simp only: fs(2) append_Cons append_assoc)
  have wf': "sol_wf (D - {a}) ?s' ?xs'"
    using lk(2,3) cnt by (simp add: sol_wf_def inc_item_count_def lk(4) ist del: items_simps)
  have hn: "h \<notin> fst ` set (items (cells s) (as @ b # ys))"
    using absent unfolding ist map_of_eq_None_iff by auto
  have mp: "map_of (items c' ?xs') = (map_of (items (cells s) xs))(h \<mapsto> v)"
    unfolding lk(4) ist by (rule map_of_insert_mid [OF hn])
  have stb: "stable s xs ?s' ?xs'"
    using lk(5) fs(2) by (auto simp: stable_def inc_item_count_def)
  have bk: "key_of (cells s) b = reverse_hasht_bits (take_bit k h)"
    using bucket_key_at_slot [OF wf _ k, of h] slot by (simp add: b_def)
  have l': "list_ok D (n_buckets s) (cells s) (as @ b # ys @ zs)" using l fs(2) by simp
  have le: "\<forall>y\<in>set ys. key_of (cells s) y \<le> sol_node_key h" using fs(6) by auto
  note pd = passed_are_data [OF l' k(2,1) bk le]
  have isn: "is_node (at c' y)" if y: "y \<in> set ys" for y
  proof -
    have yx: "y \<in> set xs" using y fs(2) by simp
    have "is_node (at (cells s) y)"
      using is_node_payload [OF list_okD(5) [OF l yx] k(2,1)] pd y by blast
    with lk(5) [OF yx] show ?thesis by (simp add: is_node_def)
  qed
  have "x \<in> set xs" using fs(2) by (simp add: x_def)
  then have "a \<noteq> x" using list_okD(3) [OF l] a(1) by auto
  then have "is_node (at c' a)"
    using na(3) sol_node_key_odd by (simp add: c'_def is_node_def and_DATABIT)
  then have ins: "inserted ?s' ?xs' slot a as ys zs"
    using fs(3,5) isn by (auto simp: inserted_def Let_def inc_item_count_def b_def)
  show thesis
    by (rule that [OF ec])
       (use wf' mp stb ins lk(6) in \<open>simp_all add: b_def [symmetric] inc_item_count_def\<close>)
qed

lemma insert_loop_correct:
  fixes s :: "'a accessor"
  assumes A: "operator_new A" and wf: "sol_wf D s xs"
    and f: "unat (n_buckets s) \<le> f" "length xs < f" and D: "card D \<le> 1"
    and a: "a \<in> D" "cells s a = Some na" "a \<noteq> nullptr" "aligned_ptr a" "next_ref na = mp_init"
    and na: "payload na = Some v" "hashv na = h" "key na = sol_node_key h" and h: "h < 0x80000000"
  defines "slot \<equiv> h mod n_buckets s"
  shows "returns_or_oom (scarce A) (insert_loop (Suc t) A f h a s) (\<lambda>(r, s').
     r = (map_of (items (cells s) xs) h = None) \<and> n_buckets s' = n_buckets s \<and>
     max_bucket_length s' = max_bucket_length s \<and>
     (\<not> r \<longrightarrow> (\<exists>xs'. sol_wf D s' xs' \<and> keeps D s xs s' xs')) \<and>
     (r \<longrightarrow> (\<exists>xs' as ys zs. sol_wf (D - {a}) s' xs' \<and> stable s xs s' xs' \<and>
        length xs' \<le> Suc (Suc (length xs)) \<and> n_items s' = n_items s + 1 \<and>
        (\<forall>d\<in>D - {a}. cells s' d = cells s d) \<and> inserted s' xs' slot a as ys zs \<and>
        map_of (items (cells s') xs') = (map_of (items (cells s) xs))(h \<mapsto> v) \<and>
        (buckets s ! unat slot \<noteq> nullptr \<longrightarrow> xs = as @ buckets s ! unat slot # ys @ zs))))"
  (is "returns_or_oom _ _ ?Q")
proof -
  have h': "take_bit 31 h = h" using h by (rule take_bit_31_id)
  show ?thesis unfolding insert_loop.simps
  proof (rule oom_bind [OF find_node_correct [OF A wf f D]], clarify)
    fix ok and s1 :: "'a accessor" and xs1 as ys zs
    assume w1: "sol_wf D s1 xs1" and kp: "keeps D s xs s1 xs1" and nb: "n_buckets s1 = n_buckets s"
      and len: "length xs1 \<le> Suc (length xs)"
      and b1: "buckets s1 ! unat (h mod n_buckets s) \<noteq> nullptr"
      and fa: "found_at s1 xs1 (h mod n_buckets s) (sol_node_key h) as ys zs"
      and same: "buckets s ! unat (h mod n_buckets s) \<noteq> nullptr \<longrightarrow>
         xs1 = xs \<and> cells s1 = cells s \<and> buckets s1 = buckets s"
    let ?r = "map_of (items (cells s) xs) (take_bit 31 h) \<noteq> None"
    let ?g = "\<lambda>s. insert_loop t A f h a s"
    let ?step = "bind_r (set_next a (nxt s1) s1) (\<lambda>s. bind_r (cas_next (cur s) (nxt s) a s) (\<lambda>(ok, s).
       if ok then Inr (True, inc_item_count s) else ?g s))"
    have it: "items (cells s1) xs1 = items (cells s) xs" using kp by (simp add: keeps_def)
    have mx: "max_bucket_length s1 = max_bucket_length s" using kp by (simp add: keeps_def)
    show "returns_or_oom (scarce A) (if ?r then Inr (False, s1) else ?step) ?Q"
    proof (cases ?r)
      case True
      then show ?thesis using w1 kp nb mx h' by auto
    next
      case False
      have ab: "map_of (items (cells s1) xs1) h = None" using False it h' by simp
      have a1: "cells s1 a = Some na" using kp a(1,2) by (simp add: keeps_def)
      have sl: "h mod n_buckets s = h mod n_buckets s1" using nb by simp
      obtain s2 where st: "?step = Inr (True, s2)"
        and s2: "sol_wf (D - {a}) s2 (as @ buckets s1 ! unat (h mod n_buckets s) # ys @ a # zs)"
          "stable s1 xs1 s2 (as @ buckets s1 ! unat (h mod n_buckets s) # ys @ a # zs)"
          "inserted s2 (as @ buckets s1 ! unat (h mod n_buckets s) # ys @ a # zs) (h mod n_buckets s) a as ys zs"
          "map_of (items (cells s2) (as @ buckets s1 ! unat (h mod n_buckets s) # ys @ a # zs)) =
             (map_of (items (cells s1) xs1))(h \<mapsto> v)"
          "n_items s2 = n_items s1 + 1" "n_buckets s2 = n_buckets s1"
          "max_bucket_length s2 = max_bucket_length s1"
          "\<forall>d\<in>D - {a}. cells s2 d = cells s1 d"
        by (rule insert_step [OF w1 fa sl b1 ab a(1) a1 a(3-5) na h, where g = ?g])
      have ni: "n_items s1 = n_items s" and dd: "\<forall>d\<in>D. cells s1 d = cells s d"
        using kp by (simp_all add: keeps_def)
      have xs1: "xs1 = as @ buckets s1 ! unat (h mod n_buckets s) # ys @ zs"
        using found_at_split(2) [OF fa] .
      have stb: "stable s xs s2 (as @ buckets s1 ! unat (h mod n_buckets s) # ys @ a # zs)"
        using stable_trans [OF keeps_stable [OF kp] s2(2)] .
      have lenx: "length (as @ buckets s1 ! unat (h mod n_buckets s) # ys @ a # zs) \<le> Suc (Suc (length xs))"
        using len unfolding xs1 by simp
      have orig: "buckets s ! unat slot \<noteq> nullptr \<longrightarrow> xs = as @ buckets s ! unat slot # ys @ zs"
        using same xs1 by (auto simp: slot_def)
      have dd2: "\<forall>d\<in>D - {a}. cells s2 d = cells s d" using s2(8) dd by simp
      have nm: "n_items s2 = n_items s + 1" "n_buckets s2 = n_buckets s"
        "max_bucket_length s2 = max_bucket_length s" using s2(5-7) nb mx ni by simp_all
      have mp: "map_of (items (cells s2) (as @ buckets s1 ! unat (h mod n_buckets s) # ys @ a # zs)) =
             (map_of (items (cells s) xs))(h \<mapsto> v)" using s2(4) it by simp
      have ins: "inserted s2 (as @ buckets s1 ! unat (h mod n_buckets s) # ys @ a # zs) slot a as ys zs"
        unfolding slot_def by (rule s2(3))
      note ex = s2(1) stb lenx nm(1) dd2 ins mp orig
      have "\<exists>xs' as ys zs. sol_wf (D - {a}) s2 xs' \<and> stable s xs s2 xs' \<and>
        length xs' \<le> Suc (Suc (length xs)) \<and> n_items s2 = n_items s + 1 \<and>
        (\<forall>d\<in>D - {a}. cells s2 d = cells s d) \<and> inserted s2 xs' slot a as ys zs \<and>
        map_of (items (cells s2) xs') = (map_of (items (cells s) xs))(h \<mapsto> v) \<and>
        (buckets s ! unat slot \<noteq> nullptr \<longrightarrow> xs = as @ buckets s ! unat slot # ys @ zs)"
        by (intro exI conjI) (fact ex)+
      with nm False h' have "?Q (True, s2)" by simp
      then show ?thesis using False st by simp
    qed
  qed
qed

end
