(* ===== verification/SolInsert.thy ===== *)
theory SolInsert
  imports SolOps
begin

text \<open>
  Correctness of \<open>insert_node\<close>: the dictionary update, the bookkeeping of the item count and
  the expansion policy.
\<close>

section \<open>The expansion policy\<close>

text \<open>
  The test of \<open>insert_node\<close> for doubling the table: \<open>r\<close> nodes in the run of the bucket, bucket
  length \<open>mx\<close>, \<open>n\<close> buckets, \<open>cnt\<close> items.
\<close>

definition overfull :: "u32 \<Rightarrow> u32 \<Rightarrow> u32 \<Rightarrow> u32 \<Rightarrow> bool" where
  "overfull mx n cnt r \<longleftrightarrow> mx < r \<and> (mx * 2 \<le> r \<or> mx * n \<le> cnt)"

lemma slot_plus_size:
  assumes "(slot::u32) < n" "n < 0x80000000"
  shows "slot + n < n * 2"
proof -
  have "unat n * 2 < 2 ^ 32" "unat slot + unat n < 2 ^ 32"
    using assms by (simp_all add: word_less_nat_alt)
  then have "unat (n * 2) = unat n * 2" "unat (slot + n) = unat slot + unat n"
    by (simp_all add: unat_word_ariths)
  with assms(1) show ?thesis by (simp add: word_less_nat_alt)
qed

lemma grow_correct:
  assumes A: "operator_new A" and wf: "sol_wf D s xs" and lim: "n_buckets s < 0x80000000"
    and f: "2 * unat (n_buckets s) \<le> f" "length xs \<le> f" and D: "card D \<le> 1"
  shows "returns_or_oom (scarce A) (grow A f h (n_buckets s) s) (\<lambda>s'. \<exists>xs'. sol_wf D s' xs' \<and>
     keeps D s xs s' xs' \<and>
     n_buckets s' = (if overfull (max_bucket_length s) (n_buckets s) (n_items s) (steps s)
       then n_buckets s * 2 else n_buckets s) \<and>
     (n_buckets s' \<noteq> n_buckets s \<longrightarrow> new_arr A (n_buckets s * 2)))"
proof -
  from wf have t: "table_ok (n_buckets s) (buckets s) (cells s) xs" by (simp add: sol_wf_def)
  obtain k where k: "k < 32" "n_buckets s = 2 ^ k" "unat (n_buckets s) = 2 ^ k" using table_size [OF t] .
  then have n0: "n_buckets s \<noteq> 0" by auto
  let ?slot = "h mod n_buckets s"
  have slot: "?slot < n_buckets s"
    using k by (simp add: mod_pow2 less_pow2_iff unat_take_bit)
  consider (no) "\<not> steps s > max_bucket_length s"
    | (double) "overfull (max_bucket_length s) (n_buckets s) (n_items s) (steps s)"
    | (split) "steps s > max_bucket_length s"
        "\<not> overfull (max_bucket_length s) (n_buckets s) (n_items s) (steps s)" by blast
  then show ?thesis
  proof cases
    case no
    then show ?thesis using wf by (auto simp: grow_def overfull_def)
  next
    case double
    have "returns_or_oom (scarce A) (bind_r (expand A (n_buckets s) s) (initialise_bucket A f (?slot + n_buckets s)))
      (\<lambda>s'. \<exists>xs'. sol_wf D s' xs' \<and> keeps D s xs s' xs' \<and> n_buckets s' = n_buckets s * 2 \<and>
         new_arr A (n_buckets s * 2))"
    proof (rule oom_bind [OF expand_correct [OF wf lim]], elim conjE)
      fix s1 :: "'a accessor"
      assume na: "new_arr A (n_buckets s * 2)"
        and s1: "sol_wf D s1 xs" "keeps D s xs s1 xs" "n_buckets s1 = n_buckets s * 2"
        "unat (n_buckets s1) = 2 * unat (n_buckets s)"
      have "?slot + n_buckets s < n_buckets s1" using slot_plus_size [OF slot lim] s1(3) by simp
      from initialise_bucket_correct [OF A s1(1) this _ f(2) D] f(1) s1(4)
      have "returns_or_oom (scarce A) (initialise_bucket A f (?slot + n_buckets s) s1) (\<lambda>s'. \<exists>xs'. sol_wf D s' xs' \<and>
        keeps D s1 xs s' xs' \<and> n_buckets s' = n_buckets s1 \<and> length xs' \<le> Suc (length xs) \<and>
        buckets s' ! unat (?slot + n_buckets s) \<noteq> nullptr \<and> steps s' = steps s1)" by simp
      then show "returns_or_oom (scarce A) (initialise_bucket A f (?slot + n_buckets s) s1)
        (\<lambda>s'. \<exists>xs'. sol_wf D s' xs' \<and> keeps D s xs s' xs' \<and> n_buckets s' = n_buckets s * 2 \<and>
         new_arr A (n_buckets s * 2))"
        by (rule oom_mono) (metis keeps_trans [OF s1(2)] s1(3) na)
    qed
    then have "returns_or_oom (scarce A) (bind_r (expand A (n_buckets s) s) (initialise_bucket A f (?slot + n_buckets s)))
      (\<lambda>s'. \<exists>xs'. sol_wf D s' xs' \<and> keeps D s xs s' xs' \<and> n_buckets s' = n_buckets s * 2 \<and>
         (n_buckets s' \<noteq> n_buckets s \<longrightarrow> new_arr A (n_buckets s * 2)))"
      by (rule oom_mono) blast
    with double n0 show ?thesis by (simp add: grow_def overfull_def Let_def)
  next
    case split
    let ?ib = "?slot + n_buckets s div 2"
    have "returns_or_oom (scarce A) (if ?ib < n_buckets s then initialise_bucket A f ?ib s else Inr s)
      (\<lambda>s'. \<exists>xs'. sol_wf D s' xs' \<and> keeps D s xs s' xs' \<and> n_buckets s' = n_buckets s \<and>
        (n_buckets s' \<noteq> n_buckets s \<longrightarrow> new_arr A (n_buckets s * 2)))"
    proof (cases "?ib < n_buckets s")
      case True
      have "returns_or_oom (scarce A) (initialise_bucket A f ?ib s)
        (\<lambda>s'. \<exists>xs'. sol_wf D s' xs' \<and> keeps D s xs s' xs' \<and> n_buckets s' = n_buckets s \<and>
        (n_buckets s' \<noteq> n_buckets s \<longrightarrow> new_arr A (n_buckets s * 2)))"
        by (rule oom_mono [OF initialise_bucket_correct [OF A wf True]]) (use f D in auto)
      with True show ?thesis by simp
    qed (use wf in auto)
    with split n0 show ?thesis by (simp add: grow_def overfull_def Let_def)
  qed
qed

section \<open>Insertion\<close>

lemma solist_node_ctor_eq:
  "h < 0x80000000 \<Longrightarrow> solist_node_ctor v h =
     Inr \<lparr>hashv = h, key = sol_node_key h, next_ref = mp_init, payload = Some v\<rparr>"
  by (simp add: solist_node_ctor_def solist_bucket_ctor_def sol_bucket_key_eq sol_node_key_def)

lemma delete_detached:
  assumes wf: "sol_wf D s xs" and a: "a \<in> D" "a \<noteq> nullptr"
  shows "delete_cell a s = Inr (s\<lparr>cells := (cells s)(a := None)\<rparr>)"
    and "sol_wf (D - {a}) (s\<lparr>cells := (cells s)(a := None)\<rparr>) xs"
    and "stable s xs (s\<lparr>cells := (cells s)(a := None)\<rparr>) xs"
    and "items ((cells s)(a := None)) xs = items (cells s) xs"
proof -
  from wf have l: "list_ok D (n_buckets s) (cells s) xs"
    and t: "table_ok (n_buckets s) (buckets s) (cells s) xs"
    and cnt: "n_items s = word_of_nat (length (items (cells s) xs))" by (simp_all add: sol_wf_def)
  note d = list_okD [OF l]
  have ax: "a \<notin> set xs" using d(3) a(1) by auto
  have same: "((cells s)(a := None)) y = cells s y" if "y \<in> set xs" for y using that ax by auto
  show it: "items ((cells s)(a := None)) xs = items (cells s) xs"
    using same by (intro items_cong) simp
  have "a \<in> dom (cells s)" using d(2) a(1) by simp
  then show "delete_cell a s = Inr (s\<lparr>cells := (cells s)(a := None)\<rparr>)"
    using a(2) by (auto simp: delete_cell_def)
  have "list_ok (D - {a}) (n_buckets s) ((cells s)(a := None)) xs"
    using d ax same by (auto simp: list_ok_def cong: map_cong)
  moreover have "table_ok (n_buckets s) (buckets s) ((cells s)(a := None)) xs"
    using t ax by (auto simp: table_ok_def split: if_splits)
  ultimately show "sol_wf (D - {a}) (s\<lparr>cells := (cells s)(a := None)\<rparr>) xs"
    using cnt by (simp add: sol_wf_def it)
  show "stable s xs (s\<lparr>cells := (cells s)(a := None)\<rparr>) xs"
    using same by (simp add: stable_def)
qed

text \<open>The walk of \<open>insert_node\<close> to the end of the run of the bucket.\<close>

lemma run_after_insert:
  fixes s :: "'a accessor"
  assumes wf: "sol_wf D s xs" and ins: "inserted s xs slot a as ys zs" and f: "length xs < f"
  shows "\<exists>s'. bind_r (next_of (cur s) s) (\<lambda>n. scan f is_node True (s\<lparr>nxt := n\<rparr>)) = Inr (True, s') \<and>
     sol_wf D s' xs \<and> cells s' = cells s \<and> n_buckets s' = n_buckets s \<and> buckets s' = buckets s \<and>
     n_items s' = n_items s \<and> max_bucket_length s' = max_bucket_length s \<and>
     steps s' = word_of_nat (length (bucket_run (cells s) xs (buckets s ! unat slot)))"
proof -
  let ?b = "buckets s ! unat slot"
  let ?x = "last (?b # ys)"
  from wf have l: "list_ok D (n_buckets s) (cells s) xs" by (simp add: sol_wf_def)
  from ins have xs: "xs = as @ ?b # ys @ a # zs" and cu: "cur s = ?x"
    and st: "steps s = word_of_nat (length ys)" and yn: "\<forall>y\<in>set ys. is_node (at (cells s) y)"
    and a: "is_node (at (cells s) a)" by (simp_all add: inserted_def Let_def)
  have sp: "xs = (as @ butlast (?b # ys)) @ ?x # a # zs"
    using xs split_last [of as ?b ys "a # zs"] by simp
  have ln: "links (cells s) ((as @ butlast (?b # ys)) @ ?x # a # zs) nullptr"
    using list_okD(1) [OF l] unfolding sp .
  have no: "next_of (cur s) s = Inr a" using next_of_chain [OF ln] cu by simp
  let ?s = "s\<lparr>nxt := a\<rparr>"
  have "\<exists>ys2 zs2. a # zs = ys2 @ zs2 \<and> (\<forall>y\<in>set ys2. is_node (at (cells ?s) y)) \<and>
     (zs2 = [] \<or> \<not> is_node (at (cells ?s) (hd zs2))) \<and>
     scan f is_node True ?s = Inr (True,
       ?s\<lparr>prv := (if ys2 = [] then prv ?s else last (?x # butlast ys2)), cur := last (?x # ys2),
         nxt := nx zs2 nullptr,
         steps := (if True then steps ?s + word_of_nat (length ys2) else steps ?s)\<rparr>)"
    by (rule scan_chain [where as = "as @ butlast (?b # ys)"]) (use ln cu f xs in simp_all)
  then obtain ys2 zs2 where y2: "a # zs = ys2 @ zs2" "\<forall>y\<in>set ys2. is_node (at (cells s) y)"
     "zs2 = [] \<or> \<not> is_node (at (cells s) (hd zs2))"
     and sc: "scan f is_node True ?s = Inr (True,
       ?s\<lparr>prv := (if ys2 = [] then prv ?s else last (?x # butlast ys2)), cur := last (?x # ys2),
         nxt := nx zs2 nullptr, steps := steps s + word_of_nat (length ys2)\<rparr>)"
    by auto
  have xs2: "xs = as @ ?b # (ys @ ys2) @ zs2" using xs y2(1) by simp
  have "bucket_run (cells s) xs ?b = ys @ ys2"
    unfolding xs2 [unfolded append_assoc] append_assoc [symmetric, of ys]
    using list_ok_distinct [OF l] yn y2(2,3) xs2 by (intro bucket_run_eq) auto
  with no sc st show ?thesis
    by (intro exI [of _ "?s\<lparr>prv := (if ys2 = [] then prv ?s else last (?x # butlast ys2)), cur := last (?x # ys2),
         nxt := nx zs2 nullptr, steps := steps s + word_of_nat (length ys2)\<rparr>"]) (use wf in simp)
qed

text \<open>The run of the bucket grew by the new node.\<close>

lemma bucket_run_grows:
  assumes wf: "sol_wf D s xs" and wf': "sol_wf D' s' xs'" and st: "stable s xs s' xs'"
    and ins: "xs' = as @ b # ys @ a # zs" "\<forall>y\<in>set ys. is_node (at (cells s') y)"
    and xs: "xs = as @ b # ys @ zs" and a: "is_node (at (cells s') a)"
  shows "length (bucket_run (cells s') xs' b) = Suc (length (bucket_run (cells s) xs b))"
proof -
  have d: "distinct xs" "distinct xs'"
    using wf wf' list_ok_distinct by (auto simp: sol_wf_def)
  then have nb: "b \<notin> set as" using xs by auto
  have same: "is_node (at (cells s') y) = is_node (at (cells s) y)" if "y \<in> set xs" for y
    using st that by (simp add: stable_def is_node_def)
  have "\<forall>y\<in>set ys. is_node (at (cells s) y)" using ins(2) same xs by auto
  then have r: "bucket_run (cells s) xs b = ys @ takeWhile (\<lambda>x. is_node (at (cells s) x)) zs"
    unfolding xs bucket_run_def dropWhile_split [OF nb] by (simp add: takeWhile_append2)
  have "bucket_run (cells s') xs' b = ys @ a # takeWhile (\<lambda>x. is_node (at (cells s') x)) zs"
    unfolding ins(1) bucket_run_def dropWhile_split [OF nb]
    using ins(2) a by (simp add: takeWhile_append2)
  moreover have "takeWhile (\<lambda>x. is_node (at (cells s') x)) zs = takeWhile (\<lambda>x. is_node (at (cells s) x)) zs"
    using same xs by (intro takeWhile_cong) auto
  ultimately show ?thesis using r by simp
qed

lemma run_member_is_node:
  assumes wf: "sol_wf D s xs" and m: "map_of (items (cells s) xs) = m(h \<mapsto> v)"
  shows "\<exists>x\<in>set xs. hashv (at (cells s) x) = h \<and> payload (at (cells s) x) = Some v"
proof -
  from wf have l: "list_ok D (n_buckets s) (cells s) xs" by (simp add: sol_wf_def)
  show ?thesis using lookup_items [OF l, of h v] m by simp
qed

text \<open>An initialised bucket keeps its dummy node.\<close>

lemma slot_stays:
  fixes i :: u32
  assumes wf: "sol_wf D s xs" and wf': "sol_wf D' s' xs'" and st: "stable s xs s' xs'"
    and b: "unat i < length (buckets s)" "buckets s ! unat i \<noteq> nullptr"
  shows "buckets s' ! unat i = buckets s ! unat i"
proof -
  from wf have t: "table_ok (n_buckets s) (buckets s) (cells s) xs" by (simp add: sol_wf_def)
  from wf' have t': "table_ok (n_buckets s') (buckets s') (cells s') xs'" by (simp add: sol_wf_def)
  let ?b = "buckets s ! unat i"
  from table_okD(5) [OF t b] have "?b \<in> set xs" "payload (at (cells s) ?b) = None"
    "hashv (at (cells s) ?b) = i" by simp_all
  with st have "?b \<in> set xs'" "payload (at (cells s') ?b) = None" "hashv (at (cells s') ?b) = i"
    by (auto simp: stable_def)
  with table_okD(6) [OF t'] show ?thesis by metis
qed

lemma insert_fails:
  assumes wf: "sol_wf {a} s2 xs2" and a: "a \<noteq> nullptr"
  shows "\<exists>s3. delete_cell a s2 = Inr s3 \<and> sol_wf {} s3 xs2 \<and> stable s2 xs2 s3 xs2 \<and>
     items (cells s3) xs2 = items (cells s2) xs2 \<and> n_buckets s3 = n_buckets s2"
  using delete_detached [OF wf _ a] by simp

lemma insert_finish:
  fixes s2 :: "'a accessor"
  assumes A: "operator_new A" and wf: "sol_wf {} s2 xs2" and ins: "inserted s2 xs2 slot a as ys zs"
    and lim: "n_buckets s2 < 0x80000000"
    and f: "2 * unat (n_buckets s2) \<le> f" "length xs2 < f" and nb: "nb = n_buckets s2"
  defines "r \<equiv> word_of_nat (length (bucket_run (cells s2) xs2 (buckets s2 ! unat slot)))"
  shows "returns_or_oom (scarce A) (bind_r (next_of (cur s2) s2) (\<lambda>n.
          bind_r (scan f is_node True (s2\<lparr>nxt := n\<rparr>)) (\<lambda>(ok, s).
            if \<not> ok then Inr (res, zap s)
            else bind_r (grow A f h nb s) (\<lambda>s. Inr (res, zap s)))))
      (\<lambda>(r', s'). r' = res \<and> (\<exists>xs'. sol_wf {} s' xs' \<and> keeps {} s2 xs2 s' xs') \<and>
         n_buckets s' = (if overfull (max_bucket_length s2) (n_buckets s2) (n_items s2) r
           then n_buckets s2 * 2 else n_buckets s2) \<and>
         (n_buckets s' \<noteq> n_buckets s2 \<longrightarrow> new_arr A (n_buckets s2 * 2)))"
proof -
  from run_after_insert [OF wf ins f(2)] obtain s3 where
    run: "bind_r (next_of (cur s2) s2) (\<lambda>n. scan f is_node True (s2\<lparr>nxt := n\<rparr>)) = Inr (True, s3)"
    and s3: "sol_wf {} s3 xs2" "cells s3 = cells s2" "n_buckets s3 = n_buckets s2" "buckets s3 = buckets s2"
     "n_items s3 = n_items s2" "max_bucket_length s3 = max_bucket_length s2"
     "steps s3 = r" unfolding r_def by metis
  have k3: "keeps {} s2 xs2 s3 xs2" using s3 by (simp add: keeps_def)
  have eq: "bind_r (next_of (cur s2) s2) (\<lambda>n.
          bind_r (scan f is_node True (s2\<lparr>nxt := n\<rparr>)) (\<lambda>(ok, s).
            if \<not> ok then Inr (res, zap s)
            else bind_r (grow A f h nb s) (\<lambda>s. Inr (res, zap s)))) =
      bind_r (grow A f h (n_buckets s3) s3) (\<lambda>s. Inr (res, zap s))"
    using run nb s3(3) by (simp add: bind_r_assoc [symmetric])
  have "returns_or_oom (scarce A) (grow A f h (n_buckets s3) s3) (\<lambda>s'. \<exists>xs'. sol_wf {} s' xs' \<and>
     keeps {} s3 xs2 s' xs' \<and>
     n_buckets s' = (if overfull (max_bucket_length s3) (n_buckets s3) (n_items s3) (steps s3)
       then n_buckets s3 * 2 else n_buckets s3) \<and>
     (n_buckets s' \<noteq> n_buckets s3 \<longrightarrow> new_arr A (n_buckets s3 * 2)))"
    by (rule grow_correct [OF A s3(1)]) (use lim f s3 in simp_all)
  then show ?thesis unfolding eq
  proof (rule oom_bind, elim exE conjE)
    fix s4 :: "'a accessor" and xs4
    assume w4: "sol_wf {} s4 xs4" and k4: "keeps {} s3 xs2 s4 xs4"
      and n4: "n_buckets s4 = (if overfull (max_bucket_length s3) (n_buckets s3) (n_items s3) (steps s3)
       then n_buckets s3 * 2 else n_buckets s3)"
      and na: "n_buckets s4 \<noteq> n_buckets s3 \<longrightarrow> new_arr A (n_buckets s3 * 2)"
    have "keeps {} s2 xs2 (zap s4) xs4"
      using keeps_trans [OF k3 k4] by (simp add: keeps_def)
    moreover have "n_buckets (zap s4) = (if overfull (max_bucket_length s2) (n_buckets s2) (n_items s2) r
           then n_buckets s2 * 2 else n_buckets s2)" by (simp only: zap_simps n4 s3)
    ultimately show "returns_or_oom (scarce A) (Inr (res, zap s4))
      (\<lambda>(r', s'). r' = res \<and> (\<exists>xs'. sol_wf {} s' xs' \<and> keeps {} s2 xs2 s' xs') \<and>
         n_buckets s' = (if overfull (max_bucket_length s2) (n_buckets s2) (n_items s2) r
           then n_buckets s2 * 2 else n_buckets s2) \<and>
         (n_buckets s' \<noteq> n_buckets s2 \<longrightarrow> new_arr A (n_buckets s2 * 2)))"
      unfolding returns_simps prod.case using w4 na s3(3) by (intro conjI refl exI [of _ xs4]) simp_all
  qed
qed

text \<open>After a successful insertion: the map, the surviving nodes, the run of the bucket.\<close>

lemma inserted_run:
  assumes wf: "sol_wf D s xs" and wf': "sol_wf D' s' xs'" and st: "stable s xs s' xs'"
    and ins: "inserted s' xs' (h mod n_buckets s) a as ys zs"
  defines "b \<equiv> buckets s ! unat (h mod n_buckets s)"
  assumes b: "b \<noteq> nullptr" and xs: "xs = as @ b # ys @ zs"
  shows "length (bucket_run (cells s') xs' (buckets s' ! unat (h mod n_buckets s))) =
     Suc (length (bucket_run (cells s) xs b))"
proof -
  from wf have t: "table_ok (n_buckets s) (buckets s) (cells s) xs" by (simp add: sol_wf_def)
  obtain k where k: "k < 32" "n_buckets s = 2 ^ k" "length (buckets s) = 2 ^ k" using table_size [OF t] .
  then have "unat (h mod n_buckets s) < length (buckets s)"
    by (simp add: mod_pow2 unat_take_bit)
  then have b': "buckets s' ! unat (h mod n_buckets s) = b"
    using slot_stays [OF wf wf' st] b by (simp add: b_def)
  from ins have "xs' = as @ b # ys @ a # zs" "is_node (at (cells s') a)" "\<forall>y\<in>set ys. is_node (at (cells s') y)"
    by (simp_all add: inserted_def Let_def b')
  with bucket_run_grows [OF wf wf' st _ _ xs] show ?thesis unfolding b' by blast
qed

theorem insert_node_correct:
  fixes s :: "'a accessor"
  assumes A: "operator_new A" and wf: "sol_wf {} s xs" and h: "h < 0x80000000"
    and lim: "n_buckets s < 0x80000000"
    and f: "2 * unat (n_buckets s) \<le> f" "length xs + 2 < f"
  defines "m \<equiv> map_of (items (cells s) xs)" and "b \<equiv> buckets s ! unat (h mod n_buckets s)"
  defines "r \<equiv> word_of_nat (Suc (length (bucket_run (cells s) xs b)))"
  shows "returns_or_oom (scarce A) (insert_node A f h v s) (\<lambda>(ok, s'). ok = (m h = None) \<and>
     (\<exists>xs'. sol_wf {} s' xs' \<and> stable s xs s' xs' \<and>
        map_of (items (cells s') xs') = (if ok then m(h \<mapsto> v) else m)) \<and>
     (b \<noteq> nullptr \<longrightarrow> n_buckets s' =
        (if ok \<and> overfull (max_bucket_length s) (n_buckets s) (n_items s + 1) r
         then n_buckets s * 2 else n_buckets s)) \<and>
     (n_buckets s' \<noteq> n_buckets s \<longrightarrow> n_buckets s' = n_buckets s * 2 \<and> new_arr A (n_buckets s * 2)))"
  (is "returns_or_oom _ _ ?Q")
proof -
  from wf have l: "list_ok {} (n_buckets s) (cells s) xs"
    and t: "table_ok (n_buckets s) (buckets s) (cells s) xs"
    and cnt: "n_items s = word_of_nat (length (items (cells s) xs))" by (simp_all add: sol_wf_def)
  have live: "card (dom (cells s)) < 2 ^ 33" using live_bound [OF wf] by simp
  let ?na = "\<lparr>hashv = h, key = sol_node_key h, next_ref = mp_init, payload = Some v\<rparr> :: 'a node"
  show ?thesis unfolding insert_node_def Let_def
  proof (rule oom_bind [OF operator_new.new_cell_returns [OF A solist_node_ctor_eq [OF h] live]], clarify)
    fix a
    assume a: "a \<noteq> nullptr" "aligned_ptr a" "cells s a = None"
    define s1 where "s1 = s\<lparr>cells := (cells s)(a \<mapsto> ?na), allocs := Suc (allocs s)\<rparr>"
    note det = list_ok_detached [OF l a(3)]
    have it1: "items (cells s1) xs = items (cells s) xs"
      by (simp add: s1_def items_detached [OF det(2)])
    have wf1: "sol_wf {a} s1 xs"
      using det(1) table_ok_detached [OF t det(2)] cnt
      by (simp add: sol_wf_def s1_def items_detached [OF det(2)])
    have st1: "stable s xs s1 xs" using det(2) by (auto simp: stable_def s1_def)
    have f1: "unat (n_buckets s1) \<le> f" "length xs < f" using f by (simp_all add: s1_def)
    obtain f' where f': "f = Suc f'" using f by (cases f) auto
    have c1: "cells s1 a = Some ?na" by (simp add: s1_def)
    have same1: "n_buckets s1 = n_buckets s" "max_bucket_length s1 = max_bucket_length s"
      "n_items s1 = n_items s" "buckets s1 = buckets s" by (simp_all add: s1_def)
    have il: "returns_or_oom (scarce A) (insert_loop f A f h a s1) (\<lambda>(r, s').
     r = (m h = None) \<and> n_buckets s' = n_buckets s \<and> max_bucket_length s' = max_bucket_length s \<and>
     (\<not> r \<longrightarrow> (\<exists>xs'. sol_wf {a} s' xs' \<and> keeps {a} s1 xs s' xs')) \<and>
     (r \<longrightarrow> (\<exists>xs' as ys zs. sol_wf {} s' xs' \<and> stable s1 xs s' xs' \<and>
        length xs' \<le> Suc (Suc (length xs)) \<and> n_items s' = n_items s + 1 \<and>
        inserted s' xs' (h mod n_buckets s) a as ys zs \<and>
        map_of (items (cells s') xs') = m(h \<mapsto> v) \<and>
        (b \<noteq> nullptr \<longrightarrow> xs = as @ b # ys @ zs))))"
      using insert_loop_correct [OF A wf1 f1 _ _ c1 a(1,2) _ _ _ _ h, of v f', folded f']
      by (rule oom_mono) (simp_all add: same1 it1 m_def [symmetric] b_def [symmetric] split_beta)
    have "returns_or_oom (scarce A) (bind_r (insert_loop f A f h a s1) (\<lambda>(result, s).
        if \<not> result then bind_r (delete_cell a s) (\<lambda>s. Inr (result, zap s))
        else bind_r (next_of (cur s) s) (\<lambda>n.
          bind_r (scan f is_node True (s\<lparr>nxt := n\<rparr>)) (\<lambda>(ok, s).
            if \<not> ok then Inr (result, zap s)
            else bind_r (grow A f h nb s) (\<lambda>s. Inr (result, zap s)))))) ?Q"
      if nb: "nb = n_buckets s" for nb
    proof (rule oom_bind [OF il], clarify)
      fix ok and s2 :: "'a accessor"
      assume n2: "n_buckets s2 = n_buckets s" "max_bucket_length s2 = max_bucket_length s"
        and fl: "m h \<noteq> None \<longrightarrow> (\<exists>xs'. sol_wf {a} s2 xs' \<and> keeps {a} s1 xs s2 xs')"
        and su: "m h = None \<longrightarrow> (\<exists>xs' as ys zs. sol_wf {} s2 xs' \<and> stable s1 xs s2 xs' \<and>
           length xs' \<le> Suc (Suc (length xs)) \<and> n_items s2 = n_items s + 1 \<and>
           inserted s2 xs' (h mod n_buckets s) a as ys zs \<and>
           map_of (items (cells s2) xs') = m(h \<mapsto> v) \<and>
           (b \<noteq> nullptr \<longrightarrow> xs = as @ b # ys @ zs))"
      show "returns_or_oom (scarce A) (if \<not> (m h = None) then bind_r (delete_cell a s2) (\<lambda>s. Inr (m h = None, zap s))
        else bind_r (next_of (cur s2) s2) (\<lambda>n.
          bind_r (scan f is_node True (s2\<lparr>nxt := n\<rparr>)) (\<lambda>(ok, s).
            if \<not> ok then Inr (m h = None, zap s)
            else bind_r (grow A f h nb s) (\<lambda>s. Inr (m h = None, zap s))))) ?Q"
      proof (cases "m h = None")
        case False
        with fl obtain xs2 where w2: "sol_wf {a} s2 xs2" and kp: "keeps {a} s1 xs s2 xs2" by blast
        from insert_fails [OF w2 a(1)] obtain s3 :: "'a accessor" where s3: "delete_cell a s2 = Inr s3"
          "sol_wf {} s3 xs2" "stable s2 xs2 s3 xs2" "items (cells s3) xs2 = items (cells s2) xs2"
          "n_buckets s3 = n_buckets s2" by blast
        have "stable s xs (zap s3) xs2"
          using stable_trans [OF st1 stable_trans [OF keeps_stable [OF kp] s3(3)]] by (simp add: stable_def)
        moreover have "map_of (items (cells s3) xs2) = m"
          using kp s3(4) it1 by (simp add: keeps_def m_def)
        ultimately show ?thesis using False s3 n2 by auto
      next
        case True
        with su obtain xs2 as ys zs where w2: "sol_wf {} s2 xs2" and st2: "stable s1 xs s2 xs2"
          and len: "length xs2 \<le> Suc (Suc (length xs))" and ni: "n_items s2 = n_items s + 1"
          and ins: "inserted s2 xs2 (h mod n_buckets s) a as ys zs"
          and mp: "map_of (items (cells s2) xs2) = m(h \<mapsto> v)"
          and orig: "b \<noteq> nullptr \<longrightarrow> xs = as @ b # ys @ zs" by blast
        note fin = insert_finish [OF A w2 ins, of f nb True h]
        have st: "stable s xs s2 xs2" using stable_trans [OF st1 st2] .
        have rn: "word_of_nat (length (bucket_run (cells s2) xs2 (buckets s2 ! unat (h mod n_buckets s)))) = r"
          if "b \<noteq> nullptr"
          using inserted_run [OF wf w2 st ins] that orig by (simp add: r_def b_def)
        have "returns_or_oom (scarce A) (bind_r (next_of (cur s2) s2) (\<lambda>n.
          bind_r (scan f is_node True (s2\<lparr>nxt := n\<rparr>)) (\<lambda>(ok, s).
            if \<not> ok then Inr (True, zap s)
            else bind_r (grow A f h nb s) (\<lambda>s. Inr (True, zap s))))) ?Q"
        proof (rule oom_mono [OF fin], goal_cases)
          case (5 p)
          then obtain s4 xs4 where p: "p = (True, s4)" and w4: "sol_wf {} s4 xs4" and k4: "keeps {} s2 xs2 s4 xs4"
            and n4: "n_buckets s4 = (if overfull (max_bucket_length s2) (n_buckets s2) (n_items s2)
               (word_of_nat (length (bucket_run (cells s2) xs2 (buckets s2 ! unat (h mod n_buckets s)))))
             then n_buckets s2 * 2 else n_buckets s2)"
            and na: "n_buckets s4 \<noteq> n_buckets s2 \<longrightarrow> new_arr A (n_buckets s2 * 2)"
            by (cases p) blast
          have "stable s xs s4 xs4" using stable_trans [OF st keeps_stable [OF k4]] .
          moreover have "map_of (items (cells s4) xs4) = m(h \<mapsto> v)" using k4 mp by (simp add: keeps_def)
          moreover have "b \<noteq> nullptr \<longrightarrow> n_buckets s4 =
             (if overfull (max_bucket_length s) (n_buckets s) (n_items s + 1) r
              then n_buckets s * 2 else n_buckets s)" using n4 rn n2 ni by simp
          moreover have "n_buckets s4 \<noteq> n_buckets s \<longrightarrow> n_buckets s4 = n_buckets s * 2 \<and> new_arr A (n_buckets s * 2)"
            using n4 na n2 by simp
          ultimately show ?case using w4 True unfolding p by auto
        qed (use n2 nb f len lim in simp_all)
        moreover have yes: "(m h = None) = True" using True by simp
        ultimately show ?thesis unfolding yes by simp
      qed
    qed
    then show "returns_or_oom (scarce A) (bind_r (insert_loop f A f h a s1) (\<lambda>(result, sa).
        if \<not> result then bind_r (delete_cell a sa) (\<lambda>s. Inr (result, zap s))
        else bind_r (next_of (cur sa) sa) (\<lambda>n.
          bind_r (scan f is_node True (sa\<lparr>nxt := n\<rparr>)) (\<lambda>(ok, sa).
            if \<not> ok then Inr (result, zap sa)
            else bind_r (grow A f h (n_buckets s) sa) (\<lambda>s. Inr (result, zap s)))))) ?Q"
      by simp
  qed
qed

end
