(* ===== verification/SolDelete.thy ===== *)
theory SolDelete
  imports SolInsert
begin

text \<open>
  Correctness of \<open>delete_node\<close> and \<open>find_item_node\<close>, of the constructor and of the destructor.
\<close>

section \<open>The cursor on the key searched\<close>

lemma cursor_on_key:
  fixes s :: "'a accessor"
  assumes wf: "sol_wf D s xs" and fa: "found_at s xs (h mod n_buckets s) (sol_node_key h) as ys zs"
    and b: "buckets s ! unat (h mod n_buckets s) \<noteq> nullptr"
    and m: "map_of (items (cells s) xs) (take_bit 31 h) = Some v"
  shows "\<exists>ys0 p as0. ys = ys0 @ [cur s] \<and> xs = as0 @ p # cur s # zs \<and> prv s = p \<and> nxt s = nx zs nullptr \<and>
     payload (at (cells s) (cur s)) = Some v \<and> hashv (at (cells s) (cur s)) = take_bit 31 h"
proof -
  let ?b = "buckets s ! unat (h mod n_buckets s)" and ?K = "sol_node_key h"
  from wf have l: "list_ok D (n_buckets s) (cells s) xs"
    and t: "table_ok (n_buckets s) (buckets s) (cells s) xs" by (simp_all add: sol_wf_def)
  obtain k where k: "k < 32" "n_buckets s = 2 ^ k" "length (buckets s) = 2 ^ k" using table_size [OF t] .
  note fs = found_at_split [OF fa]
  from lookup_items [OF l] m obtain x where x: "x \<in> set xs" "hashv (at (cells s) x) = take_bit 31 h"
    "payload (at (cells s) x) = Some v" by blast
  then have kx: "key_of (cells s) x = ?K" using data_key_iff [OF l k(2,1) x(1)] by simp
  have cx: "x = cur s"
  proof -
    have xin: "x \<in> set (as @ ?b # ys)" using x(1) fs(2) fs(7) [of x] kx by auto
    have "cur s \<in> set (as @ ?b # ys)" using fs(3) by simp
    then have le: "key_of (cells s) (cur s) \<le> ?K" by (rule fs(6))
    have sp: "xs = (as @ butlast (?b # ys)) @ cur s # zs" using fs(1,3) by simp
    with xin fs(2) x(1) consider "x \<in> set (as @ butlast (?b # ys))" | "x = cur s" | "x \<in> set zs" by auto
    then show ?thesis
    proof cases
      case 1
      with list_okD(4) [OF l] have "key_of (cells s) x < key_of (cells s) (cur s)"
        unfolding sp by (rule sorted_mid(1))
      with kx le show ?thesis by simp
    next
      case 3
      with fs(7) [of x] kx show ?thesis by simp
    qed
  qed
  have "unat (h mod n_buckets s) < length (buckets s)"
    using k by (simp add: mod_pow2 unat_take_bit)
  from table_okD(5) [OF t this b] have "payload (at (cells s) ?b) = None" by simp
  with x cx have nb: "cur s \<noteq> ?b" by auto
  then have "ys \<noteq> []" using fs(3) by auto
  then obtain ys0 where ys: "ys = ys0 @ [cur s]"
    using fs(3) by (cases ys rule: rev_cases) auto
  have p: "prv s = last (?b # ys0)" using fs(8) ys by (cases ys0) auto
  have "xs = (as @ butlast (?b # ys0)) @ last (?b # ys0) # cur s # zs"
    using fs(2) split_last [of as ?b ys0 "cur s # zs"] unfolding ys by simp
  with ys p fs(4) x cx show ?thesis by auto
qed

lemma find_item_node_correct:
  assumes A: "operator_new A" and wf: "sol_wf {} s xs"
    and f: "unat (n_buckets s) \<le> f" "length xs < f"
  defines "m \<equiv> map_of (items (cells s) xs)"
  shows "returns_or_oom (scarce A) (find_item_node A f h s) (\<lambda>(p, s'). \<exists>xs'. sol_wf {} s' xs' \<and>
     keeps {} s xs s' xs' \<and> n_buckets s' = n_buckets s \<and>
     (case m (take_bit 31 h) of None \<Rightarrow> p = nullptr | Some v \<Rightarrow> p \<noteq> nullptr \<and> item_at p s' = Inr v))"
  unfolding find_item_node_def
proof (rule oom_bind [OF find_node_correct [OF A wf f no_detached]], clarify)
  fix ok and s1 :: "'a accessor" and xs1 as ys zs
  assume w1: "sol_wf {} s1 xs1" and kp: "keeps {} s xs s1 xs1" and nb: "n_buckets s1 = n_buckets s"
    and b1: "buckets s1 ! unat (h mod n_buckets s) \<noteq> nullptr"
    and fa: "found_at s1 xs1 (h mod n_buckets s) (sol_node_key h) as ys zs"
  have m1: "map_of (items (cells s1) xs1) = m" using kp by (simp add: keeps_def m_def)
  show "returns_or_oom (scarce A) (if map_of (items (cells s) xs) (take_bit 31 h) \<noteq> None
         then bind_r (deref (cur s1) s1) (\<lambda>c.
           case payload c of None \<Rightarrow> Inl NullDeref | Some v \<Rightarrow> Inr (cur s1, s1))
         else Inr (nullptr, s1)) (\<lambda>(p, s'). \<exists>xs'. sol_wf {} s' xs' \<and>
     keeps {} s xs s' xs' \<and> n_buckets s' = n_buckets s \<and>
     (case m (take_bit 31 h) of None \<Rightarrow> p = nullptr | Some v \<Rightarrow> p \<noteq> nullptr \<and> item_at p s' = Inr v))"
  proof (cases "m (take_bit 31 h)")
    case None
    then show ?thesis using w1 kp nb by (auto simp: m_def)
  next
    case (Some v)
    have "found_at s1 xs1 (h mod n_buckets s1) (sol_node_key h) as ys zs"
      "buckets s1 ! unat (h mod n_buckets s1) \<noteq> nullptr"
      "map_of (items (cells s1) xs1) (take_bit 31 h) = Some v"
      using fa b1 nb m1 Some by simp_all
    from cursor_on_key [OF w1 this] obtain as0 p where
      c: "xs1 = as0 @ p # cur s1 # zs" "payload (at (cells s1) (cur s1)) = Some v" by blast
    from w1 have "links (cells s1) xs1 nullptr" by (simp add: sol_wf_def list_ok_def)
    from links_in [OF this, of "cur s1"] c(1) obtain nd where
      nd: "cur s1 \<noteq> nullptr" "cells s1 (cur s1) = Some nd" by auto
    with c(2) have "item_at (cur s1) s1 = Inr v" by (simp add: item_at_def)
    with nd c(2) Some w1 kp nb show ?thesis by (auto simp: m_def)
  qed
qed

section \<open>Deletion\<close>

lemma map_of_delete_mid:
  assumes "distinct (map fst (l1 @ (h, v) # l2))"
  shows "map_of (l1 @ l2) = (map_of (l1 @ (h, v) # l2))(h := None)"
proof -
  from assms have "h \<notin> fst ` set l1" "h \<notin> fst ` set l2" by auto
  then have "map_of l1 h = None" "map_of l2 h = None" by (simp_all add: map_of_eq_None_iff)
  then show ?thesis by (auto simp: fun_eq_iff map_add_def split: option.splits)
qed

lemma table_ok_unlink:
  assumes t: "table_ok n bs c (as @ p # x # zs)" and x: "payload (at c x) \<noteq> None"
    and same: "\<And>y. y \<in> set (as @ p # zs) \<Longrightarrow> payload (at c' y) = payload (at c y) \<and>
       hashv (at c' y) = hashv (at c y) \<and> key (at c' y) = key (at c y)"
  shows "table_ok n bs c' (as @ p # zs)"
proof -
  note d = table_okD [OF t]
  have hd: "hd (as @ p # zs) = hd (as @ p # x # zs)" by (cases as) auto
  have "bs ! i \<in> set (as @ p # zs) \<and> payload (at c' (bs ! i)) = None \<and> hashv (at c' (bs ! i)) = word_of_nat i"
    if i: "i < length bs" "bs ! i \<noteq> nullptr" for i
  proof -
    from d(5) [OF i] x have "bs ! i \<in> set (as @ p # zs)" by auto
    with d(5) [OF i] same [of "bs ! i"] show ?thesis by auto
  qed
  moreover have "bs ! unat (hashv (at c' y)) = y" if y: "y \<in> set (as @ p # zs)" "payload (at c' y) = None" for y
  proof -
    have "y \<in> set (as @ p # x # zs)" "payload (at c y) = None" using y same [of y] by auto
    from d(6) [OF this] same [OF y(1)] show ?thesis by simp
  qed
  ultimately show ?thesis using d(1-4) hd by (simp add: table_ok_def)
qed

lemma unlink_cells:
  fixes s :: "'a accessor"
  assumes l: "links (cells s) (as @ p # x # zs) nullptr" and d: "distinct (as @ p # x # zs)"
    and c: "cur s = x" "prv s = p" "nxt s = nx zs nullptr"
  shows "bind_r (cas_next_mark (cur s) (nxt s) (nxt s) True s) (\<lambda>(ok, s).
           if \<not> ok then g s
           else bind_r (cas_next (prv s) (cur s) (nxt s) s) (\<lambda>(ok, s).
             if ok then bind_r (delete_cell (cur s) (dec_item_count s)) (\<lambda>s. Inr (True, s)) else g s)) =
         Inr (True, s\<lparr>cells := (cells s)(p \<mapsto> (at (cells s) p)\<lparr>next_ref := nx zs nullptr\<rparr>, x := None),
            n_items := n_items s - 1\<rparr>)"
proof -
  have lx: "links (cells s) ((as @ [p]) @ x # zs) nullptr" using l by simp
  from links_next [OF lx] obtain nd where nd: "cells s x = Some nd" "next_ref nd = nx zs nullptr"
    "x \<noteq> nullptr" by metis
  from links_next [OF l] obtain np where np: "cells s p = Some np" "next_ref np = x" "p \<noteq> nullptr"
    by (metis nx_simps(2))
  have "p \<noteq> x" using d by auto
  with nd np c show ?thesis
    by (simp add: cas_next_mark_def cas_next_def deref_def mp_CAS_def mp_CAS_des_mark_def
        atomic_compare_exchange_def Let_def dec_item_count_def delete_cell_def fun_upd_twist)
qed

text \<open>The nodes other than that of the hash \<open>h\<close> stay, with their contents.\<close>

definition stable_but :: "u32 \<Rightarrow> ('a, 'z) solist_scheme \<Rightarrow> uptr list \<Rightarrow> ('a, 'z) solist_scheme \<Rightarrow> uptr list \<Rightarrow> bool" where
  "stable_but h s xs s' xs' \<longleftrightarrow>
     (\<forall>x\<in>set xs. payload (at (cells s) x) \<noteq> None \<and> hashv (at (cells s) x) = h \<or>
        x \<in> set xs' \<and> payload (at (cells s') x) = payload (at (cells s) x) \<and>
        hashv (at (cells s') x) = hashv (at (cells s) x) \<and> key_of (cells s') x = key_of (cells s) x)"

lemma delete_step:
  fixes s :: "'a accessor"
  assumes wf: "sol_wf {} s xs" and xs: "xs = as @ prv s # cur s # zs" and nx: "nxt s = nx zs nullptr"
    and x: "payload (at (cells s) (cur s)) = Some v" "hashv (at (cells s) (cur s)) = h"
  obtains s' where
    "bind_r (cas_next_mark (cur s) (nxt s) (nxt s) True s) (\<lambda>(ok, s).
           if \<not> ok then g s
           else bind_r (cas_next (prv s) (cur s) (nxt s) s) (\<lambda>(ok, s).
             if ok then bind_r (delete_cell (cur s) (dec_item_count s)) (\<lambda>s. Inr (True, s)) else g s)) =
       Inr (True, s')"
    "sol_wf {} s' (as @ prv s # zs)" "stable_but h s xs s' (as @ prv s # zs)"
    "map_of (items (cells s') (as @ prv s # zs)) = (map_of (items (cells s) xs))(h := None)"
    "n_items s' = n_items s - 1" "n_buckets s' = n_buckets s" "max_bucket_length s' = max_bucket_length s"
    "cells s' (cur s) = None"
proof -
  let ?p = "prv s" and ?x = "cur s"
  define c' where "c' = (cells s)(?p \<mapsto> (at (cells s) ?p)\<lparr>next_ref := nx zs nullptr\<rparr>, ?x := None)"
  let ?s' = "s\<lparr>cells := c', n_items := n_items s - 1\<rparr>"
  from wf have l: "list_ok {} (n_buckets s) (cells s) (as @ ?p # ?x # zs)"
    and t: "table_ok (n_buckets s) (buckets s) (cells s) (as @ ?p # ?x # zs)"
    and cnt: "n_items s = word_of_nat (length (items (cells s) xs))"
    using xs by (simp_all add: sol_wf_def)
  note un = list_ok_unlink [OF l c'_def]
  have t': "table_ok (n_buckets s) (buckets s) c' (as @ ?p # zs)"
    by (rule table_ok_unlink [OF t]) (use x un(2) in auto)
  have it: "items (cells s) xs = items (cells s) (as @ [?p]) @ (h, v) # items (cells s) zs"
    unfolding xs using x by simp
  have it': "items c' (as @ ?p # zs) = items (cells s) (as @ [?p]) @ items (cells s) zs"
    using items_cong [of "as @ ?p # zs" c' "cells s"] un(2) by (simp del: items_simps) simp
  have wf': "sol_wf {} ?s' (as @ ?p # zs)"
    using un(1) t' cnt by (simp add: sol_wf_def it it' del: items_simps)
  have "distinct (map fst (items (cells s) xs))"
    unfolding xs using list_okD(4,5) [OF l] by (intro distinct_items) auto
  then have mp: "map_of (items c' (as @ ?p # zs)) = (map_of (items (cells s) xs))(h := None)"
    unfolding it it' by (rule map_of_delete_mid)
  have sb: "stable_but h s xs ?s' (as @ ?p # zs)"
    unfolding stable_but_def xs using x un(2) by auto
  have eq: "bind_r (cas_next_mark (cur s) (nxt s) (nxt s) True s) (\<lambda>(ok, s).
           if \<not> ok then g s
           else bind_r (cas_next (prv s) (cur s) (nxt s) s) (\<lambda>(ok, s).
             if ok then bind_r (delete_cell (cur s) (dec_item_count s)) (\<lambda>s. Inr (True, s)) else g s)) =
       Inr (True, ?s')"
    unfolding c'_def using list_okD(1) [OF l] list_ok_distinct [OF l] refl refl nx by (rule unlink_cells)
  show thesis by (rule that [OF eq]) (use wf' sb mp in \<open>simp_all add: c'_def\<close>)
qed

theorem delete_node_correct:
  fixes s :: "'a accessor"
  assumes A: "operator_new A" and wf: "sol_wf {} s xs"
    and f: "unat (n_buckets s) \<le> f" "length xs < f"
  defines "m \<equiv> map_of (items (cells s) xs)"
  shows "returns_or_oom (scarce A) (delete_node A f h s) (\<lambda>(ok, s'). ok = (m (take_bit 31 h) \<noteq> None) \<and>
     n_buckets s' = n_buckets s \<and> max_bucket_length s' = max_bucket_length s \<and>
     n_items s' = (if ok then n_items s - 1 else n_items s) \<and>
     (\<exists>xs'. sol_wf {} s' xs' \<and> stable_but (take_bit 31 h) s xs s' xs' \<and>
        map_of (items (cells s') xs') = m(take_bit 31 h := None)))"
  (is "returns_or_oom _ _ ?Q")
proof -
  let ?h = "take_bit 31 h"
  obtain f' where f': "f = Suc f'" using f(2) by (cases f) auto
  have "returns_or_oom (scarce A) (delete_loop (Suc f') A f h s) ?Q"
    unfolding delete_loop.simps
  proof (rule oom_bind [OF find_node_correct [OF A wf f no_detached]], clarify)
    fix ok and s1 :: "'a accessor" and xs1 as ys zs
    assume w1: "sol_wf {} s1 xs1" and kp: "keeps {} s xs s1 xs1" and nb: "n_buckets s1 = n_buckets s"
      and b1: "buckets s1 ! unat (h mod n_buckets s) \<noteq> nullptr"
      and fa: "found_at s1 xs1 (h mod n_buckets s) (sol_node_key h) as ys zs"
    let ?r = "map_of (items (cells s) xs) ?h \<noteq> None"
    let ?g = "\<lambda>s. delete_loop f' A f h s"
    let ?step = "bind_r (cas_next_mark (cur s1) (nxt s1) (nxt s1) True s1) (\<lambda>(ok, s).
           if \<not> ok then ?g s
           else bind_r (cas_next (prv s) (cur s) (nxt s) s) (\<lambda>(ok, s).
             if ok then bind_r (delete_cell (cur s) (dec_item_count s)) (\<lambda>s. Inr (True, s)) else ?g s))"
    have m1: "map_of (items (cells s1) xs1) = m" using kp by (simp add: keeps_def m_def)
    have k1: "n_items s1 = n_items s" "max_bucket_length s1 = max_bucket_length s"
      using kp by (simp_all add: keeps_def)
    show "returns_or_oom (scarce A) (if \<not> ?r then Inr (False, s1) else ?step) ?Q"
    proof (cases "m ?h")
      case None
      have "stable_but ?h s xs s1 xs1" using kp by (auto simp: stable_but_def keeps_def)
      with None w1 nb k1 m1 show ?thesis by (auto simp: m_def fun_upd_idem)
    next
      case (Some v)
      have "found_at s1 xs1 (h mod n_buckets s1) (sol_node_key h) as ys zs"
        "buckets s1 ! unat (h mod n_buckets s1) \<noteq> nullptr" "map_of (items (cells s1) xs1) ?h = Some v"
        using fa b1 nb m1 Some by simp_all
      from cursor_on_key [OF w1 this] obtain as0 where
        c: "xs1 = as0 @ prv s1 # cur s1 # zs" "nxt s1 = nx zs nullptr"
          "payload (at (cells s1) (cur s1)) = Some v" "hashv (at (cells s1) (cur s1)) = ?h" by blast
      obtain s2 where st: "?step = Inr (True, s2)"
        and s2: "sol_wf {} s2 (as0 @ prv s1 # zs)" "stable_but ?h s1 xs1 s2 (as0 @ prv s1 # zs)"
          "map_of (items (cells s2) (as0 @ prv s1 # zs)) = (map_of (items (cells s1) xs1))(?h := None)"
          "n_items s2 = n_items s1 - 1" "n_buckets s2 = n_buckets s1"
          "max_bucket_length s2 = max_bucket_length s1"
        by (rule delete_step [OF w1 c, where g = ?g])
      have "stable_but ?h s xs s2 (as0 @ prv s1 # zs)"
        using s2(2) kp by (fastforce simp: stable_but_def keeps_def)
      with s2 nb k1 m1 Some have "?Q (True, s2)" by auto
      then show ?thesis using Some st by (simp add: m_def)
    qed
  qed
  then show ?thesis unfolding delete_node_def f' [symmetric]
    by (rule oom_bind) (auto simp: stable_but_def)
qed

end
