(* ===== verification/SolLife.thy ===== *)
theory SolLife
  imports SolDelete
begin

text \<open>
  The lifetime of a list: the constructor establishes the invariant, the destructor frees every
  node exactly once; an allocator that satisfies the contract of \<open>operator new\<close>; and the amount
  of fuel that is enough for every list of the type.
\<close>

section \<open>An allocator\<close>

text \<open>
  \<open>bump_new lim\<close> hands out the addresses 16, 32, 48, \<dots> in turn and refuses arrays of \<open>lim\<close>
  pointers or more.
\<close>

definition bump_new :: "u32 \<Rightarrow> 'a allocator" where
  "bump_new lim =
     \<lparr>new_obj = (\<lambda>n c. let a = word_of_nat (16 * Suc n) in
        if a \<noteq> nullptr \<and> aligned_ptr a \<and> c a = None then Some a else None),
      new_arr = (\<lambda>n. n < lim)\<rparr>"

interpretation bump: operator_new "bump_new lim"
  by unfold_locales (auto simp: bump_new_def Let_def split: if_splits)

text \<open>The allocators that refuse to give out an array of \<open>2^31\<close> pointers or more.\<close>

locale bounded_new = operator_new +
  assumes new_arr_bounded: "new_arr A n \<Longrightarrow> n < 0x80000000"

interpretation bump_b: bounded_new "bump_new 0x80000000"
  by unfold_locales (simp add: bump_new_def)

section \<open>Construction\<close>

definition fresh_node :: "'a node" where
  "fresh_node = \<lparr>hashv = 0, key = 0, next_ref = mp_init, payload = None\<rparr>"

text \<open>The list over \<open>n\<close> buckets right after its construction, its first dummy node at \<open>b\<close>.\<close>

definition fresh_solist :: "uptr \<Rightarrow> u32 \<Rightarrow> u32 \<Rightarrow> nat \<Rightarrow> 'a solist" where
  "fresh_solist b n mx al =
     \<lparr>cells = [b \<mapsto> fresh_node], allocs = al, n_buckets = n, max_bucket_length = mx, n_items = 0,
      buckets = (replicate (unat n) nullptr)[0 := b]\<rparr>"

lemma fresh_wf:
  assumes "b \<noteq> nullptr" "aligned_ptr b" "k < 32"
  shows "sol_wf {} (fresh_solist b (2 ^ k) mx al :: 'a solist) [b]" and "items [b \<mapsto> fresh_node] [b] = []"
proof -
  have u: "unat (2 ^ k :: u32) = 2 ^ k" using assms(3) by (rule unat_pow2)
  have "(0::u32) < 2 ^ k" using assms(3) u by (simp add: word_less_nat_alt)
  then have "list_ok {} (2 ^ k) [b \<mapsto> fresh_node :: 'a node] [b]"
    using assms by (simp add: list_ok_def fresh_node_def mp_init_def node_ok_def hrev.rev_0)
  moreover have "table_ok (2 ^ k) ((replicate (2 ^ k) nullptr)[0 := b]) [b \<mapsto> fresh_node :: 'a node] [b]"
    using assms(3) u by (auto simp: table_ok_def fresh_node_def nth_list_update)
  ultimately show "sol_wf {} (fresh_solist b (2 ^ k) mx al :: 'a solist) [b]"
    by (simp add: sol_wf_def fresh_solist_def u fresh_node_def)
  show "items [b \<mapsto> fresh_node] [b] = []" by (simp add: fresh_node_def)
qed

lemma solist_ctor_correct:
  assumes A: "operator_new A" and k: "k < 32" and e: "cells h = Map.empty"
  shows "returns_or_oom (scarce A) (solist_ctor A (2 ^ k) mx h) (\<lambda>sl. new_arr A (2 ^ k) \<and>
     (\<exists>b. b \<noteq> nullptr \<and> aligned_ptr b \<and> sl = fresh_solist b (2 ^ k) mx (Suc (allocs h))))"
proof (cases "new_arr A (2 ^ k)")
  case True
  have "sol_bucket_key 0 = Inr 0" by (simp add: sol_bucket_key_eq hrev.rev_0)
  then have c: "solist_bucket_ctor 0 = Inr fresh_node"
    by (simp add: solist_bucket_ctor_def fresh_node_def)
  have live: "card (dom (cells h)) < 2 ^ 33" using e by simp
  have "returns_or_oom (scarce A) (bind_r (new_cell A (solist_bucket_ctor 0) h) (\<lambda>(b, h1).
        bind_r (arr_set (replicate (unat (2 ^ k :: u32)) nullptr) 0 b) (\<lambda>bs.
          Inr \<lparr>cells = cells h1, allocs = allocs h1, n_buckets = 2 ^ k,
               max_bucket_length = mx, n_items = 0, buckets = bs\<rparr>)))
    (\<lambda>sl. new_arr A (2 ^ k) \<and>
      (\<exists>b. b \<noteq> nullptr \<and> aligned_ptr b \<and> sl = fresh_solist b (2 ^ k) mx (Suc (allocs h))))"
    by (rule oom_bind [OF operator_new.new_cell_returns [OF A c live]])
       (use True e k in \<open>auto simp: fresh_solist_def unat_pow2\<close>)
  with True show ?thesis by (simp add: solist_ctor_def)
qed (auto simp: solist_ctor_def scarce_def)

section \<open>Destruction\<close>

lemma delete_chain_frees:
  assumes "links (cells s) xs nullptr" "distinct xs" "dom (cells s) = set xs" "length xs < f"
  shows "delete_chain f (nx xs nullptr) s = Inr (s\<lparr>cells := Map.empty\<rparr>)"
  using assms
proof (induction xs arbitrary: s f)
  case Nil
  then obtain f' where "f = Suc f'" by (cases f) auto
  with Nil show ?case by simp
next
  case (Cons x xs)
  from Cons.prems obtain f' where f': "f = Suc f'" "length xs < f'" by (cases f) auto
  have no: "next_of x s = Inr (nx xs nullptr)"
    using Cons.prems(1) by (intro next_of_chain [of s "[]" x xs]) simp
  let ?s = "s\<lparr>cells := (cells s)(x := None)\<rparr>"
  have "delete_cell x s = Inr ?s" using Cons.prems(1) by (auto simp: delete_cell_def)
  moreover have "delete_chain f' (nx xs nullptr) ?s = Inr (?s\<lparr>cells := Map.empty\<rparr>)"
  proof (rule Cons.IH)
    show "links (cells ?s) xs nullptr" "distinct xs" using Cons.prems(1,2) by simp_all
    show "dom (cells ?s) = set xs" using Cons.prems(2,3) by simp
  qed (rule f'(2))
  ultimately show ?case using Cons.prems(1) no f'(1) by simp
qed

lemma solist_dtor_correct:
  assumes wf: "sol_wf {} s xs" and f: "length xs < f"
  shows "solist_dtor f s = Inr (s\<lparr>cells := Map.empty\<rparr>)"
proof -
  from wf have l: "list_ok {} (n_buckets s) (cells s) xs"
    and t: "table_ok (n_buckets s) (buckets s) (cells s) xs" by (simp_all add: sol_wf_def)
  have "buckets s ! 0 = nx xs nullptr" using table_okD(3,4) [OF t] by (cases xs) auto
  with delete_chain_frees [OF list_okD(1) [OF l] list_ok_distinct [OF l] _ f] list_okD(2) [OF l]
    bucket_0 [OF l t]
  show ?thesis by (simp add: solist_dtor_def)
qed

section \<open>Enough fuel for every list\<close>

lemma table_bound:
  assumes "sol_wf D s xs"
  shows "2 * unat (n_buckets s) \<le> 2 ^ 32"
proof -
  from assms have "table_ok (n_buckets s) (buckets s) (cells s) xs" by (simp add: sol_wf_def)
  then obtain k where "k < 32" "unat (n_buckets s) = 2 ^ k" by (rule table_size)
  moreover from this(1) have "(2::nat) ^ Suc k \<le> 2 ^ 32" by (intro power_increasing) auto
  ultimately show ?thesis by simp
qed

lemma fuel_enough:
  assumes "sol_wf D s xs" "2 ^ 33 \<le> f"
  shows "2 * unat (n_buckets s) \<le> f" "unat (n_buckets s) \<le> f" "length xs + 2 < f" "length xs < f" "length xs \<le> f"
  using chain_bound [OF assms(1)] table_bound [OF assms(1)] assms(2) by simp_all

end
