(* ===== verification/SolSpec.thy ===== *)
theory SolSpec
  imports SolLife
begin

text \<open>
  The contract of the split-ordered list as a dictionary: what its three public operations do to
  the finite map the list represents, the consequences a client relies on, proved once from the
  contract, and the proof that the operations of the accessor meet it.
\<close>

section \<open>The abstract dictionary\<close>

datatype 'v request = Insert u32 'v | Delete u32 | Lookup u32

datatype 'v reply = Done bool | Found "'v option"

fun hash_of :: "'v request \<Rightarrow> u32" where
  "hash_of (Insert h v) = h"
| "hash_of (Delete h) = h"
| "hash_of (Lookup h) = h"

fun spec_step :: "'v request \<Rightarrow> (u32 \<rightharpoonup> 'v) \<Rightarrow> 'v reply \<times> (u32 \<rightharpoonup> 'v)" where
  "spec_step (Insert h v) m = (Done (m h = None), if m h = None then m(h \<mapsto> v) else m)"
| "spec_step (Delete h) m = (Done (m h \<noteq> None), m(h := None))"
| "spec_step (Lookup h) m = (Found (m h), m)"

fun spec_run :: "'v request list \<Rightarrow> (u32 \<rightharpoonup> 'v) \<Rightarrow> 'v reply list \<times> (u32 \<rightharpoonup> 'v)" where
  "spec_run [] m = ([], m)"
| "spec_run (q # qs) m =
     (let (r, m1) = spec_step q m; (rs, m2) = spec_run qs m1 in (r # rs, m2))"

text \<open>A client that sends a list of requests to an implementation with the given step.\<close>

fun run_requests :: "('v request \<Rightarrow> 's \<Rightarrow> ('v reply \<times> 's) res) \<Rightarrow> 'v request list \<Rightarrow> 's \<Rightarrow> ('v reply list \<times> 's) res" where
  "run_requests step [] s = Inr ([], s)"
| "run_requests step (q # qs) s =
     bind_r (step q s) (\<lambda>(r, s). bind_r (run_requests step qs s) (\<lambda>(rs, s). Inr (r # rs, s)))"

locale dictionary =
  fixes rel :: "'s \<Rightarrow> (u32 \<rightharpoonup> 'v) \<Rightarrow> bool"
    and step :: "'v request \<Rightarrow> 's \<Rightarrow> ('v reply \<times> 's) res"
    and p :: bool
  assumes step_refines: "rel s m \<Longrightarrow> hash_of q < 0x80000000 \<Longrightarrow>
    returns_or_oom p (step q s) (\<lambda>(r, s'). r = fst (spec_step q m) \<and> rel s' (snd (spec_step q m)))"
begin

lemma run_refines:
  assumes "rel s m" "\<forall>q\<in>set qs. hash_of q < 0x80000000"
  shows "returns_or_oom p (run_requests step qs s)
    (\<lambda>(rs, s'). rs = fst (spec_run qs m) \<and> rel s' (snd (spec_run qs m)))"
  using assms
proof (induction qs arbitrary: s m)
  case (Cons q qs)
  have q: "returns_or_oom p (step q s) (\<lambda>(r, s'). r = fst (spec_step q m) \<and> rel s' (snd (spec_step q m)))"
    using Cons.prems by (intro step_refines) auto
  show ?case unfolding run_requests.simps
  proof (rule oom_bind [OF q], clarify)
    fix r s1 assume s1: "rel s1 (snd (spec_step q m))"
    have "returns_or_oom p (run_requests step qs s1) (\<lambda>(rs, s').
      rs = fst (spec_run qs (snd (spec_step q m))) \<and> rel s' (snd (spec_run qs (snd (spec_step q m)))))"
      using s1 Cons.prems(2) by (intro Cons.IH) auto
    then show "returns_or_oom p (bind_r (run_requests step qs s1) (\<lambda>(rs, s). Inr (fst (spec_step q m) # rs, s)))
      (\<lambda>(rs, s'). rs = fst (spec_run (q # qs) m) \<and> rel s' (snd (spec_run (q # qs) m)))"
      by (rule oom_bind) (auto simp: split_beta Let_def)
  qed
qed simp

lemma answers:
  assumes "rel s m" "\<forall>q\<in>set qs. hash_of q < 0x80000000"
  shows "returns_or_oom p (run_requests step qs s) (\<lambda>(rs, s'). rs = fst (spec_run qs m))"
  by (rule oom_mono [OF run_refines [OF assms]]) auto

lemma lookup_after_insert:
  assumes "rel s m" "h < 0x80000000"
  shows "returns_or_oom p (run_requests step [Insert h v, Lookup h] s)
    (\<lambda>(rs, s'). rs = [Done (m h = None), Found (Some (case m h of None \<Rightarrow> v | Some w \<Rightarrow> w))])"
  using answers [OF assms(1), of "[Insert h v, Lookup h]"] assms(2) by (cases "m h") simp_all

lemma lookup_after_delete:
  assumes "rel s m" "h < 0x80000000"
  shows "returns_or_oom p (run_requests step [Delete h, Lookup h] s)
    (\<lambda>(rs, s'). rs = [Done (m h \<noteq> None), Found None])"
  using answers [OF assms(1), of "[Delete h, Lookup h]"] assms(2) by simp

lemma insert_twice:
  assumes "rel s m" "h < 0x80000000"
  shows "returns_or_oom p (run_requests step [Insert h v, Insert h w, Lookup h] s)
    (\<lambda>(rs, s'). rs = [Done (m h = None), Done False, Found (Some (case m h of None \<Rightarrow> v | Some u \<Rightarrow> u))])"
  using answers [OF assms(1), of "[Insert h v, Insert h w, Lookup h]"] assms(2) by (cases "m h") simp_all

lemma other_keys_untouched:
  assumes "rel s m" "h < 0x80000000" "k < 0x80000000" "h \<noteq> k"
  shows "returns_or_oom p (run_requests step [Insert h v, Delete h, Lookup k] s)
    (\<lambda>(rs, s'). rs ! 2 = Found (m k))"
  by (rule oom_mono [OF answers [OF assms(1), of "[Insert h v, Delete h, Lookup k]"]])
     (use assms in \<open>auto simp: numeral_2_eq_2\<close>)

end

section \<open>The split-ordered list as a dictionary\<close>

text \<open>A client reads the item through the pointer \<open>find_item_node\<close> returns.\<close>

definition find_item :: "'a allocator \<Rightarrow> nat \<Rightarrow> u32 \<Rightarrow> 'a accessor \<Rightarrow> ('a option \<times> 'a accessor) res" where
  "find_item A f h s =
     bind_r (find_item_node A f h s) (\<lambda>(p, s).
       if p = nullptr then Inr (None, s) else bind_r (item_at p s) (\<lambda>v. Inr (Some v, s)))"

fun sol_step :: "'a allocator \<Rightarrow> nat \<Rightarrow> 'a request \<Rightarrow> 'a accessor \<Rightarrow> ('a reply \<times> 'a accessor) res" where
  "sol_step A f (Insert h v) s = bind_r (insert_node A f h v s) (\<lambda>(ok, s). Inr (Done ok, s))"
| "sol_step A f (Delete h) s = bind_r (delete_node A f h s) (\<lambda>(ok, s). Inr (Done ok, s))"
| "sol_step A f (Lookup h) s = bind_r (find_item A f h s) (\<lambda>(r, s). Inr (Found r, s))"

definition dict_rel :: "'a accessor \<Rightarrow> (u32 \<rightharpoonup> 'a) \<Rightarrow> bool" where
  "dict_rel s m \<longleftrightarrow> sol_rel s m \<and> n_buckets s < 0x80000000"

lemma sol_relI: "sol_wf {} s xs \<Longrightarrow> map_of (items (cells s) xs) = m \<Longrightarrow> sol_rel s m"
  by (auto simp: sol_rel_def)

lemma sol_relE:
  assumes "sol_rel s m"
  obtains xs where "sol_wf {} s xs" "m = map_of (items (cells s) xs)"
  using assms by (auto simp: sol_rel_def)

lemma item_count:
  assumes "sol_rel s m"
  shows "finite (dom m)" "n_items s = word_of_nat (card (dom m))"
proof -
  from assms obtain xs where wf: "sol_wf {} s xs" and m: "m = map_of (items (cells s) xs)" by (rule sol_relE)
  from wf have l: "list_ok {} (n_buckets s) (cells s) xs" by (simp add: sol_wf_def)
  have d: "distinct (map fst (items (cells s) xs))"
    using list_okD(4,5) [OF l] by (intro distinct_items) auto
  have "card (dom m) = length (items (cells s) xs)"
    using distinct_card [OF d] by (simp add: m dom_map_of_conv_image_fst)
  with wf show "n_items s = word_of_nat (card (dom m))" by (simp add: sol_wf_def)
  show "finite (dom m)" by (simp add: m finite_dom_map_of)
qed

lemma sol_find:
  assumes A: "operator_new A" and r: "sol_rel s m" and f: "2 ^ 33 \<le> f"
  shows "returns_or_oom (scarce A) (find_item A f h s)
    (\<lambda>(r, s'). r = m (take_bit 31 h) \<and> sol_rel s' m \<and> n_buckets s' = n_buckets s)"
proof -
  from r obtain xs where wf: "sol_wf {} s xs" and m: "m = map_of (items (cells s) xs)" by (rule sol_relE)
  show ?thesis unfolding find_item_def
  proof (rule oom_bind [OF find_item_node_correct [OF A wf fuel_enough(2,4) [OF wf f]]], clarify)
    fix p and s1 :: "'a accessor" and xs1
    assume s1: "sol_wf {} s1 xs1" "keeps {} s xs s1 xs1" "n_buckets s1 = n_buckets s"
      and c: "case map_of (items (cells s) xs) (take_bit 31 h) of None \<Rightarrow> p = nullptr
        | Some v \<Rightarrow> p \<noteq> nullptr \<and> item_at p s1 = Inr v"
    have "sol_rel s1 m" using s1(1,2) m by (auto simp: keeps_def intro: sol_relI)
    with s1(3) c show "returns_or_oom (scarce A) (if p = nullptr then Inr (None, s1)
        else bind_r (item_at p s1) (\<lambda>v. Inr (Some v, s1)))
      (\<lambda>(r, s'). r = m (take_bit 31 h) \<and> sol_rel s' m \<and> n_buckets s' = n_buckets s)"
      by (auto simp: m split: option.splits)
  qed
qed

lemma sol_insert:
  assumes A: "operator_new A" and r: "sol_rel s m" and f: "2 ^ 33 \<le> f"
    and h: "h < 0x80000000" and n: "n_buckets s < 0x80000000"
  shows "returns_or_oom (scarce A) (insert_node A f h v s)
    (\<lambda>(ok, s'). ok = (m h = None) \<and> sol_rel s' (if ok then m(h \<mapsto> v) else m) \<and>
       (n_buckets s' \<noteq> n_buckets s \<longrightarrow> n_buckets s' = n_buckets s * 2 \<and> new_arr A (n_buckets s * 2)))"
proof -
  from r obtain xs where wf: "sol_wf {} s xs" and m: "m = map_of (items (cells s) xs)" by (rule sol_relE)
  show ?thesis
    by (rule oom_mono [OF insert_node_correct [OF A wf h n fuel_enough(1,3) [OF wf f]]])
       (auto simp: m intro: sol_relI)
qed

lemma sol_delete:
  assumes A: "operator_new A" and r: "sol_rel s m" and f: "2 ^ 33 \<le> f"
  shows "returns_or_oom (scarce A) (delete_node A f h s) (\<lambda>(ok, s'). ok = (m (take_bit 31 h) \<noteq> None) \<and>
     sol_rel s' (m(take_bit 31 h := None)) \<and> n_buckets s' = n_buckets s)"
proof -
  from r obtain xs where wf: "sol_wf {} s xs" and m: "m = map_of (items (cells s) xs)" by (rule sol_relE)
  show ?thesis
    by (rule oom_mono [OF delete_node_correct [OF A wf fuel_enough(2,4) [OF wf f]]])
       (auto simp: m intro: sol_relI)
qed

text \<open>
  The contract holds for every allocator that keeps that of \<open>operator new\<close> and refuses arrays of
  \<open>2^31\<close> pointers, and with \<open>2^33\<close> iterations for every loop.
\<close>

locale sol_client = bounded_new +
  fixes f :: nat
  assumes fuel: "2 ^ 33 \<le> f"
begin

lemma new_contract: "operator_new A"
  by unfold_locales

lemma sol_step_refines:
  assumes r: "dict_rel s m" and h: "hash_of q < 0x80000000"
  shows "returns_or_oom (scarce A) (sol_step A f q s)
    (\<lambda>(r, s'). r = fst (spec_step q m) \<and> dict_rel s' (snd (spec_step q m)))"
proof -
  from r have s: "sol_rel s m" and n: "n_buckets s < 0x80000000" by (simp_all add: dict_rel_def)
  note A = new_contract
  show ?thesis
  proof (cases q)
    case (Insert k v)
    then have k: "k < 0x80000000" using h by simp
    show ?thesis unfolding Insert sol_step.simps
      by (rule oom_bind [OF sol_insert [OF A s fuel k n]])
         (use n new_arr_bounded in \<open>auto simp: dict_rel_def split: if_splits\<close>)
  next
    case (Delete k)
    then have k: "take_bit 31 k = k" using h by (simp add: take_bit_31_id)
    show ?thesis unfolding Delete sol_step.simps
      by (rule oom_bind [OF sol_delete [OF A s fuel]]) (use n k in \<open>auto simp: dict_rel_def\<close>)
  next
    case (Lookup k)
    then have k: "take_bit 31 k = k" using h by (simp add: take_bit_31_id)
    show ?thesis unfolding Lookup sol_step.simps
      by (rule oom_bind [OF sol_find [OF A s fuel]]) (use n k in \<open>auto simp: dict_rel_def\<close>)
  qed
qed

end

sublocale sol_client \<subseteq> dict: dictionary dict_rel "sol_step A f" "scarce A"
  by unfold_locales (rule sol_step_refines)

context sol_client
begin

lemma client_run:
  assumes "dict_rel s m" "\<forall>q\<in>set qs. hash_of q < 0x80000000"
  shows "returns_or_oom (scarce A) (run_requests (sol_step A f) qs s)
    (\<lambda>(rs, s'). rs = fst (spec_run qs m) \<and> dict_rel s' (snd (spec_run qs m)))"
  using assms by (rule dict.run_refines)

lemma client_lookup_after_insert:
  assumes "dict_rel s m" "h < 0x80000000"
  shows "returns_or_oom (scarce A) (run_requests (sol_step A f) [Insert h v, Lookup h] s)
    (\<lambda>(rs, s'). rs = [Done (m h = None), Found (Some (case m h of None \<Rightarrow> v | Some w \<Rightarrow> w))])"
  using assms by (rule dict.lookup_after_insert)

end

interpretation bump_client: sol_client "bump_new 0x80000000" "2 ^ 33"
  by unfold_locales simp

lemma sol_client_intro: "bounded_new A \<Longrightarrow> 2 ^ 33 \<le> f \<Longrightarrow> sol_client A f"
  by (simp add: sol_client_def sol_client_axioms_def)

text \<open>A concrete list to apply the theorems to: four buckets, no items, a bucket length of 0.\<close>

abbreviation demo_new :: "string allocator" where
  "demo_new \<equiv> bump_new 0x80000000"

definition demo_list :: "string accessor" where
  "demo_list = zap (accessor_over 0 (fresh_solist 16 4 0 1))"

lemma demo_rel: "sol_wf {} demo_list [16]" "items (cells demo_list) [16] = []" "n_buckets demo_list = 4"
  "dict_rel demo_list Map.empty" "sol_rel demo_list Map.empty"
proof -
  have al: "aligned_ptr 16" by (simp add: aligned_ptr_iff bit_numeral_word_iff)
  have w: "sol_wf {} (fresh_solist 16 (2 ^ 2) 0 1 :: string solist) [16]"
    by (rule fresh_wf) (use al in simp_all)
  then show wf: "sol_wf {} demo_list [16]"
    by (simp add: demo_list_def accessor_over_def hazp_acquire_def sol_wf_def solist.defs)
  show it: "items (cells demo_list) [16] = []" and n: "n_buckets demo_list = 4"
    by (simp_all add: demo_list_def accessor_over_def hazp_acquire_def fresh_solist_def fresh_node_def solist.defs)
  show "sol_rel demo_list Map.empty" by (rule sol_relI [OF wf]) (simp only: it map_of.simps)
  with n show "dict_rel demo_list Map.empty" by (simp add: dict_rel_def)
qed

end
