(* ===== verification/SolDbg.thy ===== *)
theory SolDbg
  imports SolSpec
begin

text \<open>
  The debugging functions of \<open>solist_dbg.hpp\<close>: what they write to the standard error stream, as a
  string. How an address is printed (\<open>%p\<close>) and how a payload is printed (\<open>operator<<\<close> of the
  client's type) are the parameters \<open>fmt_p\<close> and \<open>fmt_T\<close>; \<open>psol\<close> is the address of the local
  variable \<open>sol\<close>, which the functions print in their first line.
\<close>

section \<open>Conversions of fprintf\<close>

abbreviation endl :: string where
  "endl \<equiv> [CHR 0x0A]"

definition hex_digit :: "nat \<Rightarrow> char" where
  "hex_digit d = ''0123456789abcdef'' ! d"

fun hex_digits :: "nat \<Rightarrow> nat \<Rightarrow> string" where
  "hex_digits 0 n = []"
| "hex_digits (Suc k) n = hex_digits k (n div 16) @ [hex_digit (n mod 16)]"

text \<open>\<open>0x%08x\<close>: an argument of 32 bits has eight digits, so the width pads and never widens.\<close>

definition fmt_08x :: "u32 \<Rightarrow> string" where
  "fmt_08x w = ''0x'' @ hex_digits 8 (unat w)"

fun dec_digits :: "nat \<Rightarrow> string" where
  "dec_digits n = (if n < 10 then [hex_digit n] else dec_digits (n div 10) @ [hex_digit (n mod 10)])"

declare dec_digits.simps [simp del]

text \<open>\<open>%d\<close>: the argument is read as a signed number.\<close>

definition fmt_d :: "u32 \<Rightarrow> string" where
  "fmt_d w = (if sint w < 0 then ''-'' @ dec_digits (nat (- sint w)) else dec_digits (nat (sint w)))"

section \<open>The functions\<close>

text \<open>
  The line of a bucket. The third and fourth column are read through the slot's pointer, the
  fifth is the slot the hash belongs to.
\<close>

definition bucket_line :: "(uptr \<Rightarrow> string) \<Rightarrow> nat \<Rightarrow> ('a, 'z) solist_scheme \<Rightarrow> string res" where
  "bucket_line fmt_p x s =
     bind_r (arr_get (buckets s) x) (\<lambda>b.
       if nullptr \<noteq> b
       then bind_r (deref b s) (\<lambda>nd.
         if n_buckets s = 0 then Inl DivByZero
         else Inr (fmt_d (word_of_nat x) @ '') '' @ fmt_p b @ '' '' @ fmt_08x (key nd) @ '' '' @ fmt_08x (hashv nd) @
           '' '' @ fmt_d (hashv nd mod n_buckets s) @ endl))
       else Inr (fmt_d (word_of_nat x) @ '')'' @ endl))"

fun bucket_lines :: "(uptr \<Rightarrow> string) \<Rightarrow> nat \<Rightarrow> nat \<Rightarrow> ('a, 'z) solist_scheme \<Rightarrow> string res" where
  "bucket_lines fmt_p 0 x s = Inr []"
| "bucket_lines fmt_p (Suc k) x s =
     bind_r (bucket_line fmt_p x s) (\<lambda>l. bind_r (bucket_lines fmt_p k (Suc x) s) (\<lambda>r. Inr (l @ r)))"

definition dump_solist_buckets :: "(uptr \<Rightarrow> string) \<Rightarrow> uptr \<Rightarrow> ('a, 'z) solist_scheme \<Rightarrow> string res" where
  "dump_solist_buckets fmt_p psol s =
     bind_r (bucket_lines fmt_p (unat (n_buckets s)) 0 s) (\<lambda>ls.
       Inr (''(=== dump_solist_buckets '' @ fmt_p psol @ endl @ ls @ endl @ ''===)'' @ endl))"

text \<open>\<open>while(cur) { print(cur); cur = cur->next(); }\<close>\<close>

fun walk :: "nat \<Rightarrow> ('a node \<Rightarrow> string res) \<Rightarrow> uptr \<Rightarrow> ('a, 'z) heap_scheme \<Rightarrow> string res" where
  "walk 0 pr c s = Inl NoFuel"
| "walk (Suc f) pr c s =
     (if c = nullptr then Inr []
      else bind_r (deref c s) (\<lambda>nd. bind_r (pr nd) (\<lambda>l.
        bind_r (next_of c s) (\<lambda>n. bind_r (walk f pr n s) (\<lambda>r. Inr (l @ r))))))"

definition dump_solist_keys :: "nat \<Rightarrow> (uptr \<Rightarrow> string) \<Rightarrow> uptr \<Rightarrow> 'a accessor \<Rightarrow> (string \<times> 'a accessor) res" where
  "dump_solist_keys f fmt_p psol s =
     (let s = zap s in
      bind_r (arr_get (buckets s) 0) (\<lambda>c.
      bind_r (walk f (\<lambda>nd. Inr (fmt_08x (key nd) @ '', '')) c s) (\<lambda>ks.
      bind_r (arr_get (buckets s) 0) (\<lambda>c.
      bind_r (walk f (\<lambda>nd. Inr (fmt_08x (hashv nd) @ '', '')) c s) (\<lambda>hs.
        Inr (''(=== dump_solist_keys '' @ fmt_p psol @ endl @ ks @ endl @ hs @ endl @ ''===)'' @ endl, s))))))"

definition dump_solist_key_order :: "nat \<Rightarrow> (uptr \<Rightarrow> string) \<Rightarrow> uptr \<Rightarrow> ('a, 'z) solist_scheme \<Rightarrow> string res" where
  "dump_solist_key_order f fmt_p psol s =
     bind_r (arr_get (buckets s) 0) (\<lambda>c.
     bind_r (walk f (\<lambda>nd. Inr (fmt_08x (key nd) @ '', '')) c s) (\<lambda>ks.
       Inr (''(=== dump_solist_key_order '' @ fmt_p psol @ endl @ ks @ endl @ ''===)'' @ endl)))"

text \<open>
  \<open>cur->key & DATABIT\<close> decides whether the node is read as a \<open>solist_node\<close>; reading the payload
  of an object that is none is an access outside of the object.
\<close>

definition payload_of :: "('a \<Rightarrow> string) \<Rightarrow> 'a node \<Rightarrow> string res" where
  "payload_of fmt_T nd = (case payload nd of None \<Rightarrow> Inl BadAccess | Some v \<Rightarrow> Inr (fmt_T v @ '', ''))"

definition node_text :: "('a \<Rightarrow> string) \<Rightarrow> 'a node \<Rightarrow> string res" where
  "node_text fmt_T nd =
     (if key nd AND DATABIT \<noteq> 0 then bind_r (payload_of fmt_T nd) (\<lambda>p. Inr (fmt_08x (key nd) @ ''|'' @ p))
      else Inr (endl @ '' '' @ fmt_08x (key nd) @ ''|- ''))"

definition item_text :: "('a \<Rightarrow> string) \<Rightarrow> 'a node \<Rightarrow> string res" where
  "item_text fmt_T nd = (if key nd AND DATABIT \<noteq> 0 then payload_of fmt_T nd else Inr [])"

definition dump_solist :: "nat \<Rightarrow> ('a \<Rightarrow> string) \<Rightarrow> (uptr \<Rightarrow> string) \<Rightarrow> uptr \<Rightarrow> ('a, 'z) solist_scheme \<Rightarrow> string res" where
  "dump_solist f fmt_T fmt_p psol s =
     bind_r (arr_get (buckets s) 0) (\<lambda>c.
     bind_r (walk f (node_text fmt_T) c s) (\<lambda>ns.
       Inr (''(=== dump_solist '' @ fmt_p psol @ '' n_buckets='' @ fmt_d (n_buckets s) @ ns @ endl @ ''===)'' @ endl)))"

definition dump_solist_items :: "nat \<Rightarrow> ('a \<Rightarrow> string) \<Rightarrow> (uptr \<Rightarrow> string) \<Rightarrow> uptr \<Rightarrow> ('a, 'z) solist_scheme \<Rightarrow> string res" where
  "dump_solist_items f fmt_T fmt_p psol s =
     bind_r (arr_get (buckets s) 0) (\<lambda>c.
     bind_r (walk f (item_text fmt_T) c s) (\<lambda>is.
       Inr (''(=== dump_solist_items '' @ fmt_p psol @ '' n_buckets='' @ fmt_d (n_buckets s) @ endl @ is @
         endl @ ''===)'' @ endl)))"

definition fail_line :: "(uptr \<Rightarrow> string) \<Rightarrow> uptr \<Rightarrow> u32 \<Rightarrow> uptr \<Rightarrow> u32 \<Rightarrow> string" where
  "fail_line fmt_p c k n prev = endl @ ''Fail:: '' @ fmt_p c @ '' '' @ fmt_08x k @ '' '' @ fmt_p n @ ''; prev='' @ fmt_08x prev"

fun check_loop :: "nat \<Rightarrow> (uptr \<Rightarrow> string) \<Rightarrow> u32 \<Rightarrow> uptr \<Rightarrow> ('a, 'z) heap_scheme \<Rightarrow> string res" where
  "check_loop 0 fmt_p k c s = Inl NoFuel"
| "check_loop (Suc f) fmt_p k c s =
     (if c = nullptr then Inr []
      else bind_r (deref c s) (\<lambda>nd.
        bind_r (if \<not> key nd > k then bind_r (next_of c s) (\<lambda>n. Inr (fail_line fmt_p c (key nd) n k)) else Inr []) (\<lambda>l.
        bind_r (next_of c s) (\<lambda>n.
        bind_r (check_loop f fmt_p (key nd) n s) (\<lambda>r. Inr (l @ r))))))"

definition check_header :: "(uptr \<Rightarrow> string) \<Rightarrow> uptr \<Rightarrow> string" where
  "check_header fmt_p psol = ''(=== check_solist '' @ fmt_p psol @ '' '' @ ''checking for monotonically increasing keys ''"

definition check_solist :: "nat \<Rightarrow> (uptr \<Rightarrow> string) \<Rightarrow> uptr \<Rightarrow> ('a, 'z) solist_scheme \<Rightarrow> string res" where
  "check_solist f fmt_p psol s =
     bind_r (arr_get (buckets s) 0) (\<lambda>c.
     bind_r (deref c s) (\<lambda>nd.
     bind_r (next_of c s) (\<lambda>n.
     bind_r (check_loop f fmt_p (key nd) n s) (\<lambda>r.
       Inr (check_header fmt_p psol @ r @ ''===)'' @ endl)))))"

section \<open>The conversions can be read back\<close>

definition digit_value :: "char \<Rightarrow> nat" where
  "digit_value c = (if of_char c < (58::nat) then of_char c - 48 else of_char c - 87)"

definition number_value :: "nat \<Rightarrow> string \<Rightarrow> nat" where
  "number_value b ds = foldl (\<lambda>n c. b * n + digit_value c) 0 ds"

lemma number_value_simps [simp]:
  "number_value b [] = 0" "number_value b (ds @ [c]) = b * number_value b ds + digit_value c"
  by (simp_all add: number_value_def)

lemma digit_value_hex: "d < 16 \<Longrightarrow> digit_value (hex_digit d) = d"
proof -
  assume "d < 16"
  then have "d \<in> set [0..<16]" by simp
  also have "[0..<16] = [0,1,2,3,4,5,6,7,8,9,10,11,12,13,14,15::nat]" by (simp add: upt_rec)
  finally show ?thesis by (auto simp: hex_digit_def digit_value_def)
qed

lemma hex_digits_value: "number_value 16 (hex_digits k n) = n mod 16 ^ k"
proof (induction k arbitrary: n)
  case (Suc k)
  then show ?case by (simp add: digit_value_hex mod_mult2_eq)
qed simp

lemma length_hex_digits [simp]: "length (hex_digits k n) = k"
  by (induction k arbitrary: n) simp_all

lemma fmt_08x_value: "number_value 16 (drop 2 (fmt_08x w)) = unat w"
proof -
  have "unat w < 2 ^ LENGTH(32)" by (rule unsigned_less)
  then show ?thesis by (simp add: fmt_08x_def hex_digits_value)
qed

lemma length_fmt_08x [simp]: "length (fmt_08x w) = 10"
  by (simp add: fmt_08x_def)

lemma fmt_08x_inject [simp]: "fmt_08x v = fmt_08x w \<longleftrightarrow> v = w"
  by (metis fmt_08x_value unsigned_word_eqI)

lemma dec_digits_value: "number_value 10 (dec_digits n) = n"
proof (induction n rule: dec_digits.induct)
  case (1 n)
  show ?case
  proof (cases "n < 10")
    case True
    then show ?thesis using number_value_simps(2) [of 10 "[]" "hex_digit n"]
      by (simp add: dec_digits.simps digit_value_hex del: number_value_simps(2))
  next
    case False
    with 1 show ?thesis by (subst dec_digits.simps) (simp add: digit_value_hex)
  qed
qed

lemma fmt_d_small: "w < 0x80000000 \<Longrightarrow> fmt_d w = dec_digits (unat w)"
proof -
  assume "w < 0x80000000"
  then have "\<not> bit w 31" using low_31_iff [of w] by simp
  moreover have u: "uint w < 2147483648" using \<open>w < 0x80000000\<close> by (simp add: word_less_def)
  ultimately have "sint w = uint w mod 2147483648"
    by (simp add: sint_uint signed_take_bit_eq_if_positive bit_uint_iff take_bit_eq_mod)
  with u have "sint w = uint w" by simp
  then show ?thesis by (simp add: fmt_d_def)
qed

section \<open>The walks over a chain\<close>

lemma links_unique: "links c xs nullptr \<Longrightarrow> links c ys nullptr \<Longrightarrow> nx xs nullptr = nx ys nullptr \<Longrightarrow> xs = ys"
proof (induction xs arbitrary: ys)
  case Nil
  then show ?case by (cases ys) auto
next
  case (Cons x xs)
  then show ?case by (cases ys) auto
qed

lemma walk_chain:
  assumes "links (cells s) xs nullptr" "length xs < f" "\<And>x. x \<in> set xs \<Longrightarrow> pr (at (cells s) x) = Inr (g x)"
  shows "walk f pr (nx xs nullptr) s = Inr (concat (map g xs))"
  using assms
proof (induction xs arbitrary: f)
  case Nil
  then show ?case by (cases f) simp_all
next
  case (Cons x xs)
  then obtain f' where f: "f = Suc f'" by (cases f) auto
  obtain nd where nd: "cells s x = Some nd" "x \<noteq> nullptr" using Cons.prems(1) by auto
  have "next_of x s = Inr (nx xs nullptr)" using next_of_chain [of s "[]" x xs] Cons.prems(1) by simp
  moreover have "walk f' pr (nx xs nullptr) s = Inr (concat (map g xs))"
    using Cons f by (intro Cons.IH) auto
  moreover have "pr nd = Inr (g x)" using Cons.prems(3) [of x] nd(1) by simp
  ultimately show ?case using nd f by simp
qed

lemma wf_first:
  assumes "sol_wf D s xs"
  shows "arr_get (buckets s) 0 = Inr (nx xs nullptr)" "links (cells s) xs nullptr" "xs \<noteq> []"
proof -
  from assms have l: "list_ok D (n_buckets s) (cells s) xs" and t: "table_ok (n_buckets s) (buckets s) (cells s) xs"
    by (simp_all add: sol_wf_def)
  from bucket_0(2) [OF l t] table_okD(3,4) [OF t] show "arr_get (buckets s) 0 = Inr (nx xs nullptr)"
    by (cases xs) simp_all
  show "links (cells s) xs nullptr" "xs \<noteq> []" using list_okD(1) [OF l] table_okD(3) [OF t] by simp_all
qed

text \<open>The data bit of the key tells the type of a node.\<close>

lemma wf_payload:
  assumes "sol_wf D s xs" "x \<in> set xs"
  shows "key_of (cells s) x AND DATABIT \<noteq> 0 \<longleftrightarrow> payload (at (cells s) x) \<noteq> None"
proof -
  from assms have l: "list_ok D (n_buckets s) (cells s) xs" and t: "table_ok (n_buckets s) (buckets s) (cells s) xs"
    by (simp_all add: sol_wf_def)
  obtain k where k: "k < 32" "n_buckets s = 2 ^ k" by (rule table_size [OF t]) auto
  from is_node_payload [OF list_okD(5) [OF l assms(2)] k(2,1)] show ?thesis
    by (auto simp: is_node_def and_DATABIT)
qed

lemma item_text_wf:
  assumes "sol_wf D s xs" "x \<in> set xs"
  shows "item_text fmt_T (at (cells s) x) =
      Inr (case payload (at (cells s) x) of None \<Rightarrow> [] | Some v \<Rightarrow> fmt_T v @ '', '')"
    "node_text fmt_T (at (cells s) x) =
      Inr (case payload (at (cells s) x) of None \<Rightarrow> endl @ '' '' @ fmt_08x (key_of (cells s) x) @ ''|- ''
        | Some v \<Rightarrow> fmt_08x (key_of (cells s) x) @ ''|'' @ fmt_T v @ '', '')"
  using wf_payload [OF assms]
  by (auto simp: item_text_def node_text_def payload_of_def split: option.splits)

text \<open>What the dumps print of a chain: its keys and the payloads of its data nodes.\<close>

definition contents :: "(uptr \<rightharpoonup> 'a node) \<Rightarrow> uptr list \<Rightarrow> (u32 \<times> 'a option) list" where
  "contents c xs = map (\<lambda>x. (key_of c x, payload (at c x))) xs"

lemma in_contents:
  assumes wf: "sol_wf {} s xs"
  shows "(k, None) \<in> set (contents (cells s) xs) \<longleftrightarrow>
      (\<exists>i < length (buckets s). buckets s ! i \<noteq> nullptr \<and> k = reverse_hasht_bits (word_of_nat i))" (is ?dummies)
    and "(k, Some v) \<in> set (contents (cells s) xs) \<longleftrightarrow> (\<exists>h. map_of (items (cells s) xs) h = Some v \<and> k = sol_node_key h)"
      (is ?data)
proof -
  from wf have l: "list_ok {} (n_buckets s) (cells s) xs" and t: "table_ok (n_buckets s) (buckets s) (cells s) xs"
    by (simp_all add: sol_wf_def)
  obtain j where j: "j < 32" "n_buckets s = 2 ^ j" "unat (n_buckets s) = 2 ^ j" "length (buckets s) = 2 ^ j"
    by (rule table_size [OF t])
  note ok = list_okD(5) [OF l]
  have dummy: "\<exists>i < length (buckets s). buckets s ! i \<noteq> nullptr \<and> key_of (cells s) x = reverse_hasht_bits (word_of_nat i)"
    if x: "x \<in> set xs" "payload (at (cells s) x) = None" for x
  proof (intro exI conjI)
    from ok [OF x(1)] x(2) have h: "hashv (at (cells s) x) < n_buckets s"
      and k: "key_of (cells s) x = reverse_hasht_bits (hashv (at (cells s) x))" by (simp_all add: node_ok_def)
    from h j show "unat (hashv (at (cells s) x)) < length (buckets s)" by (simp add: word_less_nat_alt)
    from table_okD(6) [OF t x] links_in [OF list_okD(1) [OF l] x(1)]
    show "buckets s ! unat (hashv (at (cells s) x)) \<noteq> nullptr" by simp
    from k show "key_of (cells s) x = reverse_hasht_bits (word_of_nat (unat (hashv (at (cells s) x))))" by simp
  qed
  have bucket: "\<exists>x\<in>set xs. key_of (cells s) x = reverse_hasht_bits (word_of_nat i) \<and> payload (at (cells s) x) = None"
    if "i < length (buckets s)" "buckets s ! i \<noteq> nullptr" for i
    using bucket_in_chain [OF l t that] by (metis in_set_conv_decomp)
  show ?dummies
  proof
    assume "(k, None) \<in> set (contents (cells s) xs)"
    then show "\<exists>i < length (buckets s). buckets s ! i \<noteq> nullptr \<and> k = reverse_hasht_bits (word_of_nat i)"
      using dummy by (auto simp: contents_def)
  next
    assume "\<exists>i < length (buckets s). buckets s ! i \<noteq> nullptr \<and> k = reverse_hasht_bits (word_of_nat i)"
    then show "(k, None) \<in> set (contents (cells s) xs)" using bucket by (force simp: contents_def)
  qed
  show ?data
  proof
    assume "(k, Some v) \<in> set (contents (cells s) xs)"
    then obtain x where x: "x \<in> set xs" "payload (at (cells s) x) = Some v" "k = key_of (cells s) x"
      by (auto simp: contents_def)
    then have "map_of (items (cells s) xs) (hashv (at (cells s) x)) = Some v" using lookup_items [OF l] by blast
    with ok [OF x(1)] x show "\<exists>h. map_of (items (cells s) xs) h = Some v \<and> k = sol_node_key h" by (auto simp: node_ok_def)
  next
    assume "\<exists>h. map_of (items (cells s) xs) h = Some v \<and> k = sol_node_key h"
    then obtain x where x: "x \<in> set xs" "payload (at (cells s) x) = Some v" "k = sol_node_key (hashv (at (cells s) x))"
      by (auto simp: lookup_items [OF l])
    with ok [OF x(1)] have "k = key_of (cells s) x" by (simp add: node_ok_def)
    with x show "(k, Some v) \<in> set (contents (cells s) xs)" by (auto simp: contents_def image_iff intro!: bexI [of _ x])
  qed
qed

lemma sorted_contents: "sol_wf D s xs \<Longrightarrow> sorted_wrt (<) (map fst (contents (cells s) xs))"
  by (simp add: sol_wf_def list_ok_def contents_def comp_def)

lemma hashes_of_contents:
  assumes "sol_wf D s xs"
  shows "list_all2 (\<lambda>h (k, p). k = (if p = None then reverse_hasht_bits h else sol_node_key h))
    (map (\<lambda>x. hashv (at (cells s) x)) xs) (contents (cells s) xs)"
proof -
  have "key_of (cells s) x = (if payload (at (cells s) x) = None then reverse_hasht_bits (hashv (at (cells s) x))
      else sol_node_key (hashv (at (cells s) x)))" if "x \<in> set xs" for x
  proof -
    have "node_ok (n_buckets s) (at (cells s) x)" using assms that by (simp add: sol_wf_def list_ok_def)
    then show ?thesis by (auto simp: node_ok_def split: option.splits)
  qed
  then show ?thesis by (simp add: contents_def list.rel_map list.rel_refl_strong)
qed

lemma fmt_bucket_count:
  assumes "sol_wf D s xs"
  shows "fmt_d (n_buckets s) = (if n_buckets s < 0x80000000 then dec_digits (unat (n_buckets s)) else ''-2147483648'')"
proof (cases "n_buckets s < 0x80000000")
  case False
  from assms have t: "table_ok (n_buckets s) (buckets s) (cells s) xs" by (simp add: sol_wf_def)
  obtain k where k: "k < 32" "n_buckets s = 2 ^ k" by (rule table_size [OF t]) auto
  with False have "bit (2 ^ k :: u32) 31" using low_31_iff [of "n_buckets s"] by (simp only: simp_thms)
  then have "k = 31" by (simp only: bit_exp_iff simp_thms)
  with k have "n_buckets s = 0x80000000" by simp
  moreover have "sint (0x80000000 :: u32) = - 2147483648" by simp
  then have "fmt_d 0x80000000 = ''-2147483648''" by (simp add: fmt_d_def dec_digits.simps hex_digit_def)
  ultimately show ?thesis by simp
qed (simp add: fmt_d_small)

section \<open>What the dumps show\<close>

definition node_string :: "('a \<Rightarrow> string) \<Rightarrow> u32 \<times> 'a option \<Rightarrow> string" where
  "node_string fmt_T kp = (case kp of (k, None) \<Rightarrow> endl @ '' '' @ fmt_08x k @ ''|- ''
     | (k, Some v) \<Rightarrow> fmt_08x k @ ''|'' @ fmt_T v @ '', '')"

lemma walks_wf:
  assumes wf: "sol_wf D s xs" and f: "2 ^ 33 \<le> f"
  shows "walk f (item_text fmt_T) (nx xs nullptr) s =
      Inr (concat (map (\<lambda>(k, p). case p of None \<Rightarrow> [] | Some v \<Rightarrow> fmt_T v @ '', '') (contents (cells s) xs)))"
    and "walk f (node_text fmt_T) (nx xs nullptr) s = Inr (concat (map (node_string fmt_T) (contents (cells s) xs)))"
    and "walk f (\<lambda>nd. Inr (fmt_08x (key nd) @ '', '')) (nx xs nullptr) s =
      Inr (concat (map (\<lambda>(k, p). fmt_08x k @ '', '') (contents (cells s) xs)))"
    and "walk f (\<lambda>nd. Inr (fmt_08x (hashv nd) @ '', '')) (nx xs nullptr) s =
      Inr (concat (map (\<lambda>x. fmt_08x (hashv (at (cells s) x)) @ '', '') xs))"
proof -
  note w = walk_chain [OF wf_first(2) [OF wf] fuel_enough(4) [OF wf f]]
  show "walk f (item_text fmt_T) (nx xs nullptr) s =
      Inr (concat (map (\<lambda>(k, p). case p of None \<Rightarrow> [] | Some v \<Rightarrow> fmt_T v @ '', '') (contents (cells s) xs)))"
    unfolding contents_def list.map_comp by (rule w) (simp add: item_text_wf(1) [OF wf])
  show "walk f (node_text fmt_T) (nx xs nullptr) s = Inr (concat (map (node_string fmt_T) (contents (cells s) xs)))"
    unfolding contents_def list.map_comp
    by (rule w) (simp add: item_text_wf(2) [OF wf] node_string_def split: option.splits)
  show "walk f (\<lambda>nd. Inr (fmt_08x (key nd) @ '', '')) (nx xs nullptr) s =
      Inr (concat (map (\<lambda>(k, p). fmt_08x k @ '', '') (contents (cells s) xs)))"
    unfolding contents_def list.map_comp by (rule w) simp
  show "walk f (\<lambda>nd. Inr (fmt_08x (hashv nd) @ '', '')) (nx xs nullptr) s =
      Inr (concat (map (\<lambda>x. fmt_08x (hashv (at (cells s) x)) @ '', '') xs))"
    by (rule w) simp
qed

text \<open>The dumps of a list that represents the map \<open>m\<close> return, and show it: there is a sequence of
  keys and payloads, sorted strictly by key, whose keys without a payload are those of the
  initialised buckets and whose other entries are those of \<open>m\<close>; \<open>dump_solist\<close> prints all of it,
  \<open>dump_solist_items\<close> the payloads, \<open>dump_solist_key_order\<close> the keys, \<open>dump_solist_keys\<close> the keys and
  then the hashes they are made of, leaving the cursor reset. The number of
  buckets in the first line is right up to \<open>2^30\<close>; \<open>2^31\<close> buckets are shown as a negative number.\<close>

theorem dumps_show_list:
  fixes s :: "'a accessor"
  assumes "sol_rel s m" "2 ^ 33 \<le> f"
  shows "\<exists>ns hs. sorted_wrt (<) (map fst ns) \<and>
    list_all2 (\<lambda>h (k, p). k = (if p = None then reverse_hasht_bits h else sol_node_key h)) hs ns \<and>
    (\<forall>k. (k, None) \<in> set ns \<longleftrightarrow> (\<exists>i < length (buckets s). buckets s ! i \<noteq> nullptr \<and> k = reverse_hasht_bits (word_of_nat i))) \<and>
    (\<forall>k v. (k, Some v) \<in> set ns \<longleftrightarrow> (\<exists>h. m h = Some v \<and> k = sol_node_key h)) \<and>
    (let n = (if n_buckets s < 0x80000000 then dec_digits (unat (n_buckets s)) else ''-2147483648'') in
     dump_solist f fmt_T fmt_p psol s = Inr (''(=== dump_solist '' @ fmt_p psol @ '' n_buckets='' @ n @
       concat (map (node_string fmt_T) ns) @ endl @ ''===)'' @ endl) \<and>
     dump_solist_items f fmt_T fmt_p psol s = Inr (''(=== dump_solist_items '' @ fmt_p psol @ '' n_buckets='' @ n @ endl @
       concat (map (\<lambda>(k, p). case p of None \<Rightarrow> [] | Some v \<Rightarrow> fmt_T v @ '', '') ns) @ endl @ ''===)'' @ endl) \<and>
     dump_solist_key_order f fmt_p psol s = Inr (''(=== dump_solist_key_order '' @ fmt_p psol @ endl @
       concat (map (\<lambda>(k, p). fmt_08x k @ '', '') ns) @ endl @ ''===)'' @ endl) \<and>
     dump_solist_keys f fmt_p psol s = Inr (''(=== dump_solist_keys '' @ fmt_p psol @ endl @
       concat (map (\<lambda>(k, p). fmt_08x k @ '', '') ns) @ endl @ concat (map (\<lambda>h. fmt_08x h @ '', '') hs) @ endl @ ''===)'' @ endl, zap s))"
proof -
  from assms(1) obtain xs where wf: "sol_wf {} s xs" and m: "m = map_of (items (cells s) xs)" by (rule sol_relE)
  note eqs = wf_first(1) [OF wf] walks_wf [OF wf assms(2)] fmt_bucket_count [OF wf]
  have wfz: "sol_wf {} (zap s) xs" using wf by simp
  note eqz = wf_first(1) [OF wfz] walks_wf(3,4) [OF wfz assms(2)]
  show ?thesis
    by (intro exI [of _ "contents (cells s) xs"] exI [of _ "map (\<lambda>x. hashv (at (cells s) x)) xs"] conjI hashes_of_contents [OF wf])
      (simp_all only: sorted_contents [OF wf] in_contents [OF wf] m dump_solist_def dump_solist_items_def dump_solist_keys_def
        dump_solist_key_order_def eqs eqz zap_simps bind_r_simps Let_def simp_thms append_assoc list.map_comp comp_def)
qed

lemma dumps_show_list_witness:
  "\<exists>ns. (0, None) \<in> set ns \<and>
    dump_solist (2 ^ 33) id (\<lambda>_. ''p'') 64 demo_list =
      Inr (''(=== dump_solist p n_buckets=4'' @ concat (map (node_string id) ns) @ endl @ ''===)'' @ endl)"
proof -
  have d: "dec_digits 4 = ''4''" by code_simp
  obtain ns where ns: "\<forall>k. (k, None) \<in> set ns \<longleftrightarrow> (\<exists>i < length (buckets demo_list).
      buckets demo_list ! i \<noteq> nullptr \<and> k = reverse_hasht_bits (word_of_nat i))"
    "dump_solist (2 ^ 33) id (\<lambda>_. ''p'') 64 demo_list =
      Inr (''(=== dump_solist p n_buckets=4'' @ concat (map (node_string id) ns) @ endl @ ''===)'' @ endl)"
    using dumps_show_list [OF demo_rel(5) order_refl, of id "\<lambda>_. ''p''" 64] by (auto simp: demo_rel(3) Let_def d)
  have "buckets demo_list = [16, 0, 0, 0]" by code_simp
  with ns(1) have "(0, None) \<in> set ns" by (auto intro!: exI [of _ 0] simp: hrev.rev_0)
  with ns(2) show ?thesis by blast
qed

section \<open>The dump of the table\<close>

definition bucket_string :: "(uptr \<Rightarrow> string) \<Rightarrow> nat \<Rightarrow> uptr \<Rightarrow> string" where
  "bucket_string fmt_p i b =
     (if b = nullptr then dec_digits i @ '')'' @ endl
      else dec_digits i @ '') '' @ fmt_p b @ '' '' @ fmt_08x (reverse_hasht_bits (word_of_nat i)) @ '' '' @
        fmt_08x (word_of_nat i) @ '' '' @ dec_digits i @ endl)"

lemma bucket_line_wf:
  assumes wf: "sol_wf D s xs" and i: "i < length (buckets s)"
  shows "bucket_line fmt_p i s = Inr (bucket_string fmt_p i (buckets s ! i))"
proof -
  from wf have l: "list_ok D (n_buckets s) (cells s) xs" and t: "table_ok (n_buckets s) (buckets s) (cells s) xs"
    by (simp_all add: sol_wf_def)
  obtain k where k: "k < 32" "n_buckets s = 2 ^ k" "unat (n_buckets s) = 2 ^ k" "length (buckets s) = 2 ^ k"
    by (rule table_size [OF t])
  have "(2::nat) ^ k \<le> 2 ^ 31" using k(1) by (intro power_increasing) auto
  with i k(4) have u: "unat (word_of_nat i :: u32) = i" by (intro of_nat_inverse) auto
  with i k have small: "word_of_nat i < n_buckets s" by (simp add: word_less_nat_alt)
  then have "(word_of_nat i :: u32) < 0x80000000" using k u pow2_le_limit [of k "word_of_nat i"] i by simp
  then have d: "fmt_d (word_of_nat i) = dec_digits i" using u by (simp add: fmt_d_small)
  have m: "(word_of_nat i :: u32) mod n_buckets s = word_of_nat i" using small
    by (simp add: word_arith_nat_mod word_less_nat_alt)
  show ?thesis
  proof (cases "buckets s ! i = nullptr")
    case False
    from table_okD(5) [OF t i False] have b: "buckets s ! i \<in> set xs" "hashv (at (cells s) (buckets s ! i)) = word_of_nat i"
      "payload (at (cells s) (buckets s ! i)) = None" by auto
    from list_okD(5) [OF l b(1)] b have key: "key_of (cells s) (buckets s ! i) = reverse_hasht_bits (word_of_nat i)"
      by (simp add: node_ok_def)
    obtain nd where nd: "cells s (buckets s ! i) = Some nd" using links_in [OF list_okD(1) [OF l] b(1)] by auto
    have "n_buckets s \<noteq> 0" using small by auto
    with False i nd b key m d show ?thesis by (simp add: bucket_line_def bucket_string_def)
  qed (use i d in \<open>simp add: bucket_line_def bucket_string_def\<close>)
qed

lemma bucket_lines_wf:
  assumes "sol_wf D s xs"
  shows "x + k \<le> length (buckets s) \<Longrightarrow>
    bucket_lines fmt_p k x s = Inr (concat (map (\<lambda>i. bucket_string fmt_p i (buckets s ! i)) [x..<x + k]))"
proof (induction k arbitrary: x)
  case (Suc k)
  then have "bucket_lines fmt_p k (Suc x) s = Inr (concat (map (\<lambda>i. bucket_string fmt_p i (buckets s ! i)) [Suc x..<Suc x + k]))"
    by (intro Suc.IH) simp
  moreover have "bucket_line fmt_p x s = Inr (bucket_string fmt_p x (buckets s ! x))"
    using Suc.prems by (intro bucket_line_wf [OF assms]) simp
  ultimately show ?case by (subst upt_conv_Cons) (simp_all del: upt_Suc)
qed simp

text \<open>C35: \<open>dump_solist_buckets\<close> reads every slot within its bounds and no stale pointer; the line
  of an initialised bucket \<open>i\<close> shows the bit reversal of \<open>i\<close> as the key, \<open>i\<close> as the hash, and again
  \<open>i\<close> as the slot of that hash, and the line of another bucket only its number.\<close>

theorem bucket_dump:
  assumes "sol_rel s m"
  shows "dump_solist_buckets fmt_p psol s = Inr (''(=== dump_solist_buckets '' @ fmt_p psol @ endl @
    concat (map (\<lambda>i. bucket_string fmt_p i (buckets s ! i)) [0..<unat (n_buckets s)]) @ endl @ ''===)'' @ endl)"
proof -
  from assms obtain xs where wf: "sol_wf {} s xs" by (rule sol_relE)
  then have "length (buckets s) = unat (n_buckets s)" by (simp add: sol_wf_def table_ok_def)
  with bucket_lines_wf [OF wf, of 0 "unat (n_buckets s)"] show ?thesis by (simp add: dump_solist_buckets_def)
qed

lemma bucket_dump_witness:
  "dump_solist_buckets (\<lambda>_. ''p'') 64 demo_list = Inr (''(=== dump_solist_buckets p'' @ endl @
     ''0) p 0x00000000 0x00000000 0'' @ endl @ ''1)'' @ endl @ ''2)'' @ endl @ ''3)'' @ endl @ endl @ ''===)'' @ endl)"
proof -
  have u: "[0..<unat (n_buckets demo_list)] = [0, 1, 2, 3]" by (simp add: demo_rel(3) upt_rec)
  have b: "buckets demo_list = [16, 0, 0, 0]" by code_simp
  have z: "fmt_08x 0 = ''0x00000000''" by code_simp
  show ?thesis unfolding bucket_dump [OF demo_rel(5)] u b
    by (simp add: bucket_string_def dec_digits.simps hex_digit_def hrev.rev_0 z)
qed

section \<open>The check of the order\<close>

text \<open>The reports about a chain behind a node with the key \<open>k\<close>: one for each key that is not greater than the one before.\<close>

fun reports :: "(uptr \<Rightarrow> string) \<Rightarrow> (uptr \<rightharpoonup> 'a node) \<Rightarrow> u32 \<Rightarrow> uptr list \<Rightarrow> string list" where
  "reports fmt_p c k [] = []"
| "reports fmt_p c k (x # xs) =
     (if key_of c x \<le> k then [fail_line fmt_p x (key_of c x) (nx xs nullptr) k] else []) @ reports fmt_p c (key_of c x) xs"

lemma check_loop_chain:
  assumes "links (cells s) xs nullptr" "length xs < f"
  shows "check_loop f fmt_p k (nx xs nullptr) s = Inr (concat (reports fmt_p (cells s) k xs))"
  using assms
proof (induction xs arbitrary: f k)
  case Nil
  then show ?case by (cases f) simp_all
next
  case (Cons x xs)
  then obtain f' where f: "f = Suc f'" by (cases f) auto
  obtain nd where nd: "cells s x = Some nd" "x \<noteq> nullptr" using Cons.prems(1) by auto
  have "next_of x s = Inr (nx xs nullptr)" using next_of_chain [of s "[]" x xs] Cons.prems(1) by simp
  moreover have "check_loop f' fmt_p (key nd) (nx xs nullptr) s = Inr (concat (reports fmt_p (cells s) (key nd) xs))"
    using Cons f by (intro Cons.IH) auto
  ultimately show ?case using nd f by (auto simp: not_less)
qed

lemma reports_none: "reports fmt_p c k xs = [] \<longleftrightarrow> sorted_wrt (<) (k # map (key_of c) xs)"
proof (induction xs arbitrary: k)
  case (Cons x xs)
  have "sorted_wrt (<) (k # map (key_of c) (x # xs)) \<longleftrightarrow> k < key_of c x \<and> sorted_wrt (<) (key_of c x # map (key_of c) xs)"
    by auto
  then show ?case unfolding Cons [of "key_of c x", symmetric] by (auto simp: not_le)
qed simp

lemma length_reports: "length (reports fmt_p c k xs) = length (filter (\<lambda>(a, b). b \<le> a) (zip (k # map (key_of c) xs) (map (key_of c) xs)))"
  by (induction xs arbitrary: k) auto

text \<open>C34: \<open>check_solist\<close> decides whether the keys ascend strictly. On any chain of nodes, in order or
  not, it reports exactly the nodes whose key is not greater than the key before, so it reports
  nothing exactly when the chain is sorted strictly; on a list that satisfies the invariant it
  reports nothing.\<close>

theorem check_solist_decides:
  assumes "links (cells s) (x # xs) nullptr" "buckets s = x # bs" "length xs < f"
  shows "check_solist f fmt_p psol s = Inr (check_header fmt_p psol @ concat (reports fmt_p (cells s) (key_of (cells s) x) xs) @ ''===)'' @ endl) \<and>
    (reports fmt_p (cells s) (key_of (cells s) x) xs = [] \<longleftrightarrow> sorted_wrt (<) (map (key_of (cells s)) (x # xs))) \<and>
    length (reports fmt_p (cells s) (key_of (cells s) x) xs) =
      length (filter (\<lambda>(a, b). b \<le> a) (zip (map (key_of (cells s)) (x # xs)) (map (key_of (cells s)) xs))) \<and>
    (\<forall>m. sol_rel s m \<longrightarrow> check_solist f fmt_p psol s = Inr (check_header fmt_p psol @ ''===)'' @ endl))"
proof -
  obtain nd where nd: "cells s x = Some nd" "x \<noteq> nullptr" using assms(1) by auto
  have "next_of x s = Inr (nx xs nullptr)" using next_of_chain [of s "[]" x xs] assms(1) by simp
  moreover have "links (cells s) xs nullptr" using assms(1) by simp
  ultimately have c: "check_solist f fmt_p psol s =
      Inr (check_header fmt_p psol @ concat (reports fmt_p (cells s) (key_of (cells s) x) xs) @ ''===)'' @ endl)"
    using nd check_loop_chain [OF _ assms(3), of s fmt_p] by (simp add: check_solist_def assms(2))
  have r: "reports fmt_p (cells s) (key_of (cells s) x) xs = [] \<longleftrightarrow> sorted_wrt (<) (map (key_of (cells s)) (x # xs))"
    by (simp only: reports_none list.map)
  have e: "reports fmt_p (cells s) (key_of (cells s) x) xs = []" if "sol_rel s m" for m
  proof -
    from that obtain ys where wf: "sol_wf {} s ys" by (rule sol_relE)
    then have l: "links (cells s) ys nullptr" "arr_get (buckets s) 0 = Inr (nx ys nullptr)"
      and "sorted_wrt (<) (map (key_of (cells s)) ys)"
      using wf_first [OF wf] by (simp_all add: sol_wf_def list_ok_def)
    moreover have "ys = x # xs" by (rule links_unique [OF l(1) assms(1)]) (use l(2) assms(2) in simp)
    ultimately show ?thesis using r by simp
  qed
  show ?thesis
    by (intro conjI allI impI c r) (simp_all only: length_reports list.map c e concat.simps append_Nil)
qed

text \<open>A chain that is not in order.\<close>

definition demo_unsorted :: "string solist" where
  "demo_unsorted = \<lparr>cells = [16 \<mapsto> \<lparr>hashv = 0, key = 0, next_ref = 32, payload = None\<rparr>,
       32 \<mapsto> \<lparr>hashv = 6, key = 9, next_ref = 48, payload = Some ''b''\<rparr>,
       48 \<mapsto> \<lparr>hashv = 4, key = 5, next_ref = 0, payload = Some ''a''\<rparr>],
     allocs = 3, n_buckets = 1, max_bucket_length = 4, n_items = 2, buckets = [16]\<rparr>"

lemma check_solist_decides_witness:
  "check_solist 9 (\<lambda>_. ''p'') 64 demo_unsorted = Inr (''(=== check_solist p checking for monotonically increasing keys '' @ endl @
     ''Fail:: p 0x00000005 p; prev=0x00000009===)'' @ endl)"
proof -
  have "aligned_ptr 16" "aligned_ptr 32" "aligned_ptr 48" by (simp_all add: aligned_ptr_iff bit_numeral_word_iff)
  then have l: "links (cells demo_unsorted) [16, 32, 48] nullptr" by (simp add: demo_unsorted_def)
  have b: "buckets demo_unsorted = [16]" by (simp add: demo_unsorted_def)
  have x: "fmt_08x 5 = ''0x00000005''" "fmt_08x 9 = ''0x00000009''" by code_simp+
  show ?thesis
    using check_solist_decides [OF l b, of 9 "\<lambda>_. ''p''" 64]
    by (simp add: check_header_def fail_line_def x demo_unsorted_def)
qed

end
