(* ===== verification/SolTest.thy ===== *)
theory SolTest
  imports SolDbg
begin

text \<open>
  The test programs of the split-ordered list, \<open>test1.cpp\<close> and \<open>test_expansion.cpp\<close>, with payloads of
  type \<open>uint32_t\<close>. Their state is the heap and what they wrote to the two output streams. \<open>rand()\<close> is
  the parameter \<open>rnd\<close>, from the number of the call to its result. An accessor that goes out of scope
  destroys its list.
\<close>

section \<open>Streams and accessors\<close>

record streams =
  sout :: string
  serr :: string

definition cout :: "string \<Rightarrow> streams \<Rightarrow> streams" where
  "cout x io = io\<lparr>sout := sout io @ x\<rparr>"

definition cerr :: "string \<Rightarrow> streams \<Rightarrow> streams" where
  "cerr x io = io\<lparr>serr := serr io @ x\<rparr>"

definition fmt_u :: "u32 \<Rightarrow> string" where
  "fmt_u w = dec_digits (unat w)"

text \<open>
  What the tests take from their environment: the allocator, the fuel of the list's loops, the
  indeterminate value of \<open>steps\<close>, how addresses are printed and the address of the variable \<open>sol\<close>.
\<close>

record env =
  ev_new :: "u32 allocator"
  ev_fuel :: nat
  ev_steps :: u32
  ev_fmt :: "uptr \<Rightarrow> string"
  ev_sol :: uptr

text \<open>\<open>{ solist_accessor<uint32_t> sol(size); body }\<close>\<close>

definition with_list :: "env \<Rightarrow> u32 \<Rightarrow> (u32 accessor \<Rightarrow> streams \<Rightarrow> (u32 accessor \<times> streams) res) \<Rightarrow>
    u32 heap \<times> streams \<Rightarrow> (u32 heap \<times> streams) res" where
  "with_list e sz body hio =
     (case hio of (h, io) \<Rightarrow>
        bind_r (accessor_new (ev_new e) (ev_steps e) sz default_bucket_length h) (\<lambda>s.
        bind_r (body s io) (\<lambda>(s, io).
        bind_r (solist_dtor (ev_fuel e) s) (\<lambda>s. Inr (heap.truncate s, io)))))"

text \<open>The dumps and the check, written to the standard error stream.\<close>

definition show_items :: "env \<Rightarrow> u32 accessor \<Rightarrow> streams \<Rightarrow> streams res" where
  "show_items e s io = bind_r (dump_solist_items (ev_fuel e) fmt_u (ev_fmt e) (ev_sol e) s) (\<lambda>x. Inr (cerr x io))"

definition show_list :: "env \<Rightarrow> u32 accessor \<Rightarrow> streams \<Rightarrow> streams res" where
  "show_list e s io = bind_r (dump_solist (ev_fuel e) fmt_u (ev_fmt e) (ev_sol e) s) (\<lambda>x. Inr (cerr x io))"

definition show_buckets :: "env \<Rightarrow> u32 accessor \<Rightarrow> streams \<Rightarrow> streams res" where
  "show_buckets e s io = bind_r (dump_solist_buckets (ev_fmt e) (ev_sol e) s) (\<lambda>x. Inr (cerr x io))"

definition show_check :: "env \<Rightarrow> u32 accessor \<Rightarrow> streams \<Rightarrow> streams res" where
  "show_check e s io = bind_r (check_solist (ev_fuel e) (ev_fmt e) (ev_sol e) s) (\<lambda>x. Inr (cerr x io))"

section \<open>test1.cpp\<close>

fun init_buckets :: "env \<Rightarrow> u32 list \<Rightarrow> u32 accessor \<Rightarrow> u32 accessor res" where
  "init_buckets e [] s = Inr s"
| "init_buckets e (b # bs) s = bind_r (initialise_bucket (ev_new e) (ev_fuel e) b s) (init_buckets e bs)"

definition test0_1 :: "env \<Rightarrow> u32 list \<Rightarrow> u32 heap \<times> streams \<Rightarrow> (u32 heap \<times> streams) res" where
  "test0_1 e h = with_list e 4 (\<lambda>s io.
     bind_r (init_buckets e h s) (\<lambda>s.
     bind_r (show_list e s io) (\<lambda>io.
     bind_r (show_check e s io) (\<lambda>io. Inr (s, io)))))"

definition test0_part :: "env \<Rightarrow> u32 list \<Rightarrow> u32 heap \<times> streams \<Rightarrow> (u32 heap \<times> streams) res" where
  "test0_part e t hio = bind_r (test0_1 e t hio) (\<lambda>(h, io). Inr (h, cout (''----------'' @ endl) io))"

definition test0 :: "env \<Rightarrow> u32 heap \<times> streams \<Rightarrow> (u32 heap \<times> streams) res" where
  "test0 e hio =
     bind_r (test0_part e [1, 2, 3] hio) (\<lambda>hio.
     bind_r (test0_part e [3, 2, 1] hio) (\<lambda>hio.
     bind_r (test0_part e [2, 3, 1] hio) (\<lambda>hio.
     bind_r (test0_part e [1, 3, 2] hio) (\<lambda>(h, io).
       Inr (h, cout (''=========================='' @ endl) io)))))"

definition test1 :: "env \<Rightarrow> u32 heap \<times> streams \<Rightarrow> (u32 heap \<times> streams) res" where
  "test1 e = with_list e 4 (\<lambda>s io.
     bind_r (init_buckets e [2, 3, 1, 0] s) (\<lambda>s.
     let io = cout (''----------'' @ endl) io in
     bind_r (insert_node (ev_new e) (ev_fuel e) 2 2 s) (\<lambda>(_, s).
     bind_r (insert_node (ev_new e) (ev_fuel e) 1 1 s) (\<lambda>(_, s).
     bind_r (show_list e s io) (\<lambda>io. Inr (s, io))))))"

text \<open>
  The loops of \<open>test2\<close>: insert up to 33 hashes below 32 chosen at random, in fewer than 128 turns,
  then those that are missing; then search all of them.
\<close>

definition insert_marked :: "env \<Rightarrow> u32 \<Rightarrow> bool list \<times> u32 accessor \<times> streams \<Rightarrow> (bool list \<times> u32 accessor \<times> streams) res" where
  "insert_marked e v st =
     (case st of (marked, s, io) \<Rightarrow>
        let io = cerr (fmt_u v @ '' '') io in
        bind_r (insert_node (ev_new e) (ev_fuel e) v v s) (\<lambda>(_, s).
        bind_r (arr_set marked (unat v) True) (\<lambda>marked. Inr (marked, s, io))))"

fun random_loop :: "nat \<Rightarrow> env \<Rightarrow> (nat \<Rightarrow> u32) \<Rightarrow> nat \<Rightarrow> nat \<Rightarrow> bool list \<times> u32 accessor \<times> streams \<Rightarrow>
    (bool list \<times> u32 accessor \<times> streams) res" where
  "random_loop 0 e rnd n_gen iters st = Inl NoFuel"
| "random_loop (Suc k) e rnd n_gen iters st =
     (if n_gen \<le> 32 \<and> Suc iters < 32 * 4
      then let v = rnd iters mod 32 in
        bind_r (arr_get (fst st) (unat v)) (\<lambda>m.
          if \<not> m then bind_r (insert_marked e v st) (random_loop k e rnd (Suc n_gen) (Suc iters))
          else random_loop k e rnd n_gen (Suc iters) st)
      else Inr st)"

fun missing_loop :: "env \<Rightarrow> u32 list \<Rightarrow> bool list \<times> u32 accessor \<times> streams \<Rightarrow> (bool list \<times> u32 accessor \<times> streams) res" where
  "missing_loop e [] st = Inr st"
| "missing_loop e (v # vs) st =
     bind_r (arr_get (fst st) (unat v)) (\<lambda>m.
       bind_r (if \<not> m then insert_marked e v st else Inr st) (missing_loop e vs))"

fun find_loop :: "env \<Rightarrow> u32 list \<Rightarrow> u32 accessor \<times> streams \<Rightarrow> (u32 accessor \<times> streams) res" where
  "find_loop e [] st = Inr st"
| "find_loop e (x # xs) (s, io) =
     bind_r (find_item_node (ev_new e) (ev_fuel e) x s) (\<lambda>(p, s).
       find_loop e xs (s, if nullptr = p then cout (''Failed! could not find item with hash '' @ fmt_u x @ endl) io else io))"

definition below_32 :: "u32 list" where
  "below_32 = map word_of_nat [0..<32]"

definition show_all :: "env \<Rightarrow> u32 accessor \<Rightarrow> streams \<Rightarrow> streams res" where
  "show_all e s io = bind_r (show_items e s io) (\<lambda>io. bind_r (show_list e s io) (show_check e s))"

text \<open>The second half of \<open>test2\<close>: show the list, search all hashes, delete three, show it again.\<close>

definition test2_checks :: "env \<Rightarrow> u32 accessor \<Rightarrow> streams \<Rightarrow> (u32 accessor \<times> streams) res" where
  "test2_checks e s io =
     bind_r (show_all e s io) (\<lambda>io.
     let io = cout (endl @ ''-- Checking find'' @ endl @ endl) io in
     bind_r (find_loop e below_32 (s, io)) (\<lambda>(s, io).
     let io = cout (''-- Deleting 30, 0 and 31'' @ endl @ endl) io in
     bind_r (delete_node (ev_new e) (ev_fuel e) 30 s) (\<lambda>(_, s).
     bind_r (delete_node (ev_new e) (ev_fuel e) 0 s) (\<lambda>(_, s).
     bind_r (delete_node (ev_new e) (ev_fuel e) 31 s) (\<lambda>(_, s).
     bind_r (show_all e s io) (\<lambda>io. Inr (s, io)))))))"

definition test2 :: "env \<Rightarrow> (nat \<Rightarrow> u32) \<Rightarrow> u32 heap \<times> streams \<Rightarrow> (u32 heap \<times> streams) res" where
  "test2 e rnd = with_list e 2 (\<lambda>s io.
     bind_r (random_loop 128 e rnd 0 0 (replicate 32 False, s, io)) (\<lambda>st.
     bind_r (missing_loop e below_32 st) (\<lambda>(_, s, io). test2_checks e s (cerr endl io))))"

text \<open>\<open>test3\<close> may call \<open>rand\<close> any number of times: its loop has fuel of its own.\<close>

fun find_insert_loop :: "nat \<Rightarrow> env \<Rightarrow> (nat \<Rightarrow> u32) \<Rightarrow> nat \<Rightarrow> nat \<Rightarrow> u32 accessor \<times> streams \<Rightarrow> (u32 accessor \<times> streams) res" where
  "find_insert_loop 0 e rnd n_gen calls st = Inl NoFuel"
| "find_insert_loop (Suc k) e rnd n_gen calls (s, io) =
     (if n_gen \<le> 32
      then let v = rnd calls; io = cerr (fmt_u v @ '' '') io in
        bind_r (find_item_node (ev_new e) (ev_fuel e) v s) (\<lambda>(p, s).
          if p = nullptr
          then bind_r (insert_node (ev_new e) (ev_fuel e) v v s) (\<lambda>(_, s). find_insert_loop k e rnd (Suc n_gen) (Suc calls) (s, io))
          else find_insert_loop k e rnd n_gen (Suc calls) (s, io))
      else Inr (s, io))"

definition test3 :: "nat \<Rightarrow> env \<Rightarrow> (nat \<Rightarrow> u32) \<Rightarrow> u32 heap \<times> streams \<Rightarrow> (u32 heap \<times> streams) res" where
  "test3 k e rnd = with_list e 2 (\<lambda>s io.
     bind_r (find_insert_loop k e rnd 0 0 (s, io)) (\<lambda>(s, io).
     let io = cerr endl io in
     bind_r (show_all e s io) (\<lambda>io. Inr (s, io))))"

text \<open>
  \<open>testx\<close> prints the keys and slots of the buckets below bucket 5 of 8, with the step of
  \<open>get_parent\<close>. \<open>%x\<close> prints no leading zeros.
\<close>

fun hex_number :: "nat \<Rightarrow> string" where
  "hex_number n = (if n < 16 then [hex_digit n] else hex_number (n div 16) @ [hex_digit (n mod 16)])"

declare hex_number.simps [simp del]

definition fmt_x :: "u32 \<Rightarrow> string" where
  "fmt_x w = hex_number (unat w)"

fun testx_loop :: "nat \<Rightarrow> u32 \<Rightarrow> u32 \<Rightarrow> string res" where
  "testx_loop 0 key_step k = Inl NoFuel"
| "testx_loop (Suc f) key_step k =
     (let k = k - key_step; l = ''key='' @ fmt_x k @ '' slot_from_key='' @ fmt_d (reverse_hasht_bits k) @ endl in
      if k \<noteq> 0 then bind_r (testx_loop f key_step k) (\<lambda>r. Inr (l @ r)) else Inr l)"

definition testx :: "nat \<Rightarrow> streams \<Rightarrow> streams res" where
  "testx f io =
     bind_r (sol_bucket_key 8) (\<lambda>key_n_buckets.
     bind_r (sol_bucket_key (8 div 2)) (\<lambda>key_step.
     bind_r (sol_bucket_key 5) (\<lambda>k.
     bind_r (testx_loop f key_step k) (\<lambda>r.
       Inr (cout (''key='' @ fmt_x k @ '' bucket_from_key='' @ fmt_d (reverse_hasht_bits k) @ '' bucket_from_n_buckets='' @
         fmt_x key_n_buckets @ '' key_step='' @ fmt_x key_step @ endl @ r) io)))))"

text \<open>
  \<open>main\<close>, after the locale and the seed of \<open>rand\<close> are set: the first character of the first argument
  chooses the test.
\<close>

definition test1_main :: "nat \<Rightarrow> env \<Rightarrow> (nat \<Rightarrow> u32) \<Rightarrow> string option \<Rightarrow> u32 heap \<times> streams \<Rightarrow> (u32 heap \<times> streams) res" where
  "test1_main k e rnd arg hio =
     (let c = (case arg of None \<Rightarrow> CHR ''3'' | Some [] \<Rightarrow> CHR ''3'' | Some (c # _) \<Rightarrow> c) in
      bind_r (if c = CHR ''0'' then test0 e hio else if c = CHR ''1'' then test1 e hio else if c = CHR ''2'' then test2 e rnd hio
        else if c = CHR ''x'' then bind_r (testx k (snd hio)) (\<lambda>io. Inr (fst hio, io)) else test3 k e rnd hio)
      (\<lambda>(h, io). Inr (h, cout (''All Done. '' @ endl) io)))"

section \<open>test_expansion.cpp\<close>





section \<open>The operations in the tests\<close>

definition test_env :: "env \<Rightarrow> bool" where
  "test_env e \<longleftrightarrow> bounded_new (ev_new e) \<and> 2 ^ 33 \<le> ev_fuel e"

abbreviation oom :: "env \<Rightarrow> bool" where
  "oom e \<equiv> scarce (ev_new e)"

lemma test_envD:
  assumes "test_env e"
  shows "operator_new (ev_new e)" "2 ^ 33 \<le> ev_fuel e" "new_arr (ev_new e) n \<Longrightarrow> n < 0x80000000"
  using assms by (auto simp: test_env_def bounded_new_def bounded_new_axioms_def)

lemma keeps_rel:
  "sol_wf {} s' xs' \<Longrightarrow> keeps {} s xs s' xs' \<Longrightarrow> sol_rel s' (map_of (items (cells s) xs))"
  by (rule sol_relI) (auto simp: keeps_def)

lemma t_insert:
  assumes e: "test_env e" and r: "dict_rel s m" and h: "h < 0x80000000"
  shows "returns_or_oom (oom e) (insert_node (ev_new e) (ev_fuel e) h v s)
    (\<lambda>(ok, s'). dict_rel s' (if m h = None then m(h \<mapsto> v) else m))"
proof -
  from r have n: "n_buckets s < 0x80000000" and s: "sol_rel s m" by (simp_all add: dict_rel_def)
  show ?thesis
  proof (rule oom_mono [OF sol_insert [OF test_envD(1) [OF e] s test_envD(2) [OF e] h n]], clarify)
    fix s' :: "u32 accessor"
    assume "sol_rel s' (if m h = None then m(h \<mapsto> v) else m)"
      "n_buckets s' \<noteq> n_buckets s \<longrightarrow> n_buckets s' = n_buckets s * 2 \<and> new_arr (ev_new e) (n_buckets s * 2)"
    then show "dict_rel s' (if m h = None then m(h \<mapsto> v) else m)"
      using n test_envD(3) [OF e, of "n_buckets s * 2"] unfolding dict_rel_def by metis
  qed
qed

lemma t_find:
  assumes e: "test_env e" and r: "dict_rel s m" and h: "h < 0x80000000"
  shows "returns_or_oom (oom e) (find_item_node (ev_new e) (ev_fuel e) h s) (\<lambda>(p, s'). (p = nullptr \<longleftrightarrow> m h = None) \<and> dict_rel s' m)"
proof -
  from r obtain xs where wf: "sol_wf {} s xs" and m: "m = map_of (items (cells s) xs)" and n: "n_buckets s < 0x80000000"
    by (auto simp: dict_rel_def elim: sol_relE)
  show ?thesis
    by (rule oom_mono [OF find_item_node_correct [OF test_envD(1) [OF e] wf fuel_enough(2,4) [OF wf test_envD(2) [OF e]]]])
      (use n in \<open>auto simp: m dict_rel_def take_bit_31_id [OF h] dest: keeps_rel split: option.split_asm\<close>)
qed

lemma t_delete:
  assumes e: "test_env e" and r: "dict_rel s m" and h: "h < 0x80000000"
  shows "returns_or_oom (oom e) (delete_node (ev_new e) (ev_fuel e) h s) (\<lambda>(ok, s'). dict_rel s' (m(h := None)))"
  by (rule oom_mono [OF sol_delete [OF test_envD(1) [OF e] _ test_envD(2) [OF e]]])
    (use r in \<open>auto simp: dict_rel_def take_bit_31_id [OF h]\<close>)

lemma t_init:
  assumes e: "test_env e" and r: "dict_rel s m" and b: "b < n_buckets s"
  shows "returns_or_oom (oom e) (initialise_bucket (ev_new e) (ev_fuel e) b s) (\<lambda>s'. dict_rel s' m \<and> n_buckets s' = n_buckets s)"
proof -
  from r obtain xs where wf: "sol_wf {} s xs" and m: "m = map_of (items (cells s) xs)" and n: "n_buckets s < 0x80000000"
    by (auto simp: dict_rel_def elim: sol_relE)
  show ?thesis
    by (rule oom_mono [OF initialise_bucket_correct [OF test_envD(1) [OF e] wf b fuel_enough(2,5) [OF wf test_envD(2) [OF e]] no_detached]])
      (use n in \<open>auto simp: m dict_rel_def dest: keeps_rel\<close>)
qed

lemma t_inits:
  assumes e: "test_env e"
  shows "dict_rel s m \<Longrightarrow> \<forall>b\<in>set bs. b < n_buckets s \<Longrightarrow>
    returns_or_oom (oom e) (init_buckets e bs s) (\<lambda>s'. dict_rel s' m \<and> n_buckets s' = n_buckets s)"
proof (induction bs arbitrary: s)
  case (Cons b bs)
  then have "returns_or_oom (oom e) (initialise_bucket (ev_new e) (ev_fuel e) b s) (\<lambda>s'. dict_rel s' m \<and> n_buckets s' = n_buckets s)"
    by (intro t_init [OF e]) auto
  then show ?case unfolding init_buckets.simps
  proof (rule oom_bind)
    fix s' assume "dict_rel s' m \<and> n_buckets s' = n_buckets s"
    with Cons show "returns_or_oom (oom e) (init_buckets e bs s') (\<lambda>s'. dict_rel s' m \<and> n_buckets s' = n_buckets s)"
      by (intro oom_mono [OF Cons.IH]) auto
  qed
qed simp

text \<open>
  A list with the invariant is dumped and checked, with no report, in text that does not depend on
  what was written before.
\<close>

definition list_text :: "env \<Rightarrow> u32 accessor \<Rightarrow> string" where
  "list_text e s = (case dump_solist (ev_fuel e) fmt_u (ev_fmt e) (ev_sol e) s of Inl _ \<Rightarrow> [] | Inr x \<Rightarrow> x)"

definition item_list_text :: "env \<Rightarrow> u32 accessor \<Rightarrow> string" where
  "item_list_text e s = (case dump_solist_items (ev_fuel e) fmt_u (ev_fmt e) (ev_sol e) s of Inl _ \<Rightarrow> [] | Inr x \<Rightarrow> x)"

definition silent_check :: "env \<Rightarrow> string" where
  "silent_check e = check_header (ev_fmt e) (ev_sol e) @ ''===)'' @ endl"

lemma t_show:
  assumes e: "test_env e" and r: "dict_rel s m"
  shows "show_list e s io = Inr (cerr (list_text e s) io)" "show_items e s io = Inr (cerr (item_list_text e s) io)"
    "show_check e s io = Inr (cerr (silent_check e) io)" "\<exists>x. show_buckets e s io = Inr (cerr x io)"
proof -
  from r obtain xs where wf: "sol_wf {} s xs" by (auto simp: dict_rel_def elim: sol_relE)
  note w = wf_first [OF wf] walks_wf [OF wf test_envD(2) [OF e]]
  show "show_list e s io = Inr (cerr (list_text e s) io)" "show_items e s io = Inr (cerr (item_list_text e s) io)"
    using w by (simp_all add: show_list_def list_text_def dump_solist_def show_items_def item_list_text_def dump_solist_items_def)
  from w(3) obtain x ys where xs: "xs = x # ys" by (cases xs) auto
  have l: "links (cells s) (x # ys) nullptr" and srt: "sorted_wrt (<) (key_of (cells s) x # map (key_of (cells s)) ys)"
    using wf by (simp_all add: sol_wf_def list_ok_def xs)
  have none: "reports (ev_fmt e) (cells s) (key_of (cells s) x) ys = []" using srt reports_none by metis
  have "length ys < ev_fuel e" using fuel_enough(4) [OF wf test_envD(2) [OF e]] by (simp add: xs)
  then have "check_loop (ev_fuel e) (ev_fmt e) (key_of (cells s) x) (nx ys nullptr) s = Inr []"
    using check_loop_chain [of s ys "ev_fuel e" "ev_fmt e" "key_of (cells s) x"] l none by simp
  moreover have "next_of x s = Inr (nx ys nullptr)" using next_of_chain [of s "[]" x ys] l by simp
  moreover have "deref x s = Inr (at (cells s) x)" using l by auto
  ultimately show "show_check e s io = Inr (cerr (silent_check e) io)"
    using w(1) by (simp add: show_check_def check_solist_def silent_check_def xs)
  have "length (buckets s) = unat (n_buckets s)" using wf by (simp add: sol_wf_def table_ok_def)
  then show "\<exists>x. show_buckets e s io = Inr (cerr x io)"
    using bucket_lines_wf [OF wf, of 0 "unat (n_buckets s)"] by (auto simp: show_buckets_def dump_solist_buckets_def)
qed

lemma streams_simps [simp]:
  "sout (cerr x io) = sout io" "serr (cerr x io) = serr io @ x" "sout (cout x io) = sout io @ x" "serr (cout x io) = serr io"
  by (simp_all add: cout_def cerr_def)

text \<open>The scope of an accessor: what holds of the map and the streams at its end, and that nothing is leaked.\<close>

lemma with_list_ok:
  assumes e: "test_env e" and k: "k < 31" and h: "cells h = Map.empty"
    and body: "\<And>s :: u32 accessor. dict_rel s Map.empty \<Longrightarrow> n_buckets s = 2 ^ k \<Longrightarrow>
      returns_or_oom (oom e) (body s io) (\<lambda>(s', io'). \<exists>m. dict_rel s' m \<and> Q m io')"
  shows "returns_or_oom (oom e) (with_list e (2 ^ k) body (h, io)) (\<lambda>(h', io'). cells h' = Map.empty \<and> (\<exists>m. Q m io'))"
proof -
  have k32: "k < 32" using k by simp
  have "returns_or_oom (oom e) (accessor_new (ev_new e) (ev_steps e) (2 ^ k) default_bucket_length h)
      (\<lambda>s. dict_rel s Map.empty \<and> n_buckets s = 2 ^ k)"
    unfolding accessor_new_def
  proof (rule oom_bind [OF solist_ctor_correct [OF test_envD(1) [OF e] k32 h]], clarify)
    fix b assume b: "b \<noteq> nullptr" "aligned_ptr b"
    let ?s = "accessor_over (ev_steps e) (fresh_solist b (2 ^ k) default_bucket_length (Suc (allocs h)) :: u32 solist)"
    from fresh_wf [OF b k32] have "sol_wf {} ?s [b]" "items (cells ?s) [b] = []"
      by (simp_all add: accessor_over_def hazp_acquire_def sol_wf_def solist.defs fresh_solist_def)
    then have "sol_rel ?s Map.empty" by (intro sol_relI) (simp_all del: items_simps)
    moreover have "(2::nat) ^ k < 2 ^ 31" using k by (intro power_strict_increasing) simp_all
    then have "(2::u32) ^ k < 0x80000000" using k by (intro pow2_le_limit [of 31]) (simp_all add: unat_pow2)
    ultimately show "returns_or_oom (oom e) (Inr ?s) (\<lambda>s. dict_rel s Map.empty \<and> n_buckets s = 2 ^ k)"
      by (simp add: dict_rel_def accessor_over_def hazp_acquire_def fresh_solist_def solist.defs)
  qed
  then show ?thesis unfolding with_list_def prod.case
  proof (rule oom_bind, elim conjE)
    fix s :: "u32 accessor" assume "dict_rel s Map.empty" "n_buckets s = 2 ^ k"
    note b = body [OF this]
    show "returns_or_oom (oom e) (bind_r (body s io) (\<lambda>(s, io). bind_r (solist_dtor (ev_fuel e) s) (\<lambda>s. Inr (heap.truncate s, io))))
      (\<lambda>(h', io'). cells h' = Map.empty \<and> (\<exists>m. Q m io'))"
    proof (rule oom_bind [OF b], clarify)
      fix s' io' m assume r: "dict_rel s' m" "Q m io'"
      from r(1) obtain xs where wf: "sol_wf {} s' xs" by (auto simp: dict_rel_def elim: sol_relE)
      have "solist_dtor (ev_fuel e) s' = Inr (s'\<lparr>cells := Map.empty\<rparr>)"
        by (rule solist_dtor_correct [OF wf fuel_enough(4) [OF wf test_envD(2) [OF e]]])
      with r(2) show "returns_or_oom (oom e) (bind_r (solist_dtor (ev_fuel e) s') (\<lambda>s. Inr (heap.truncate s, io')))
        (\<lambda>(h', io'). cells h' = Map.empty \<and> (\<exists>m. Q m io'))"
        by (auto simp: heap.defs)
    qed
  qed
qed

section \<open>The tests with fixed inputs\<close>

definition ids :: "u32 list \<Rightarrow> u32 \<rightharpoonup> u32" where
  "ids vs h = (if h \<in> set vs then Some h else None)"

lemma ids_simps [simp]: "ids [] = Map.empty" "(if ids vs h = None then (ids vs)(h \<mapsto> h) else ids vs) = ids (vs @ [h])"
  by (auto simp: ids_def fun_eq_iff)

lemma t_insert_ids:
  assumes e: "test_env e" and r: "dict_rel s (ids us)" and h: "h < 0x80000000"
  shows "returns_or_oom (oom e) (insert_node (ev_new e) (ev_fuel e) h h s) (\<lambda>(ok, s'). dict_rel s' (ids (us @ [h])))"
  using t_insert [OF e r h, of h] by simp

lemma test0_part_ok:
  assumes e: "test_env e" and h: "cells h = Map.empty" and t: "\<forall>b\<in>set t. b < 4"
  shows "returns_or_oom (oom e) (test0_part e t (h, io)) (\<lambda>(h', io'). cells h' = Map.empty \<and>
    sout io' = sout io @ ''----------'' @ endl \<and> (\<exists>s. dict_rel s Map.empty \<and> serr io' = serr io @ list_text e s @ silent_check e))"
  unfolding test0_part_def test0_1_def
proof (rule oom_bind)
  let ?Q = "\<lambda>m io'. sout io' = sout io \<and> (\<exists>s :: u32 accessor. dict_rel s Map.empty \<and> serr io' = serr io @ list_text e s @ silent_check e)"
  show "returns_or_oom (oom e) (with_list e 4 (\<lambda>s io. bind_r (init_buckets e t s) (\<lambda>s.
      bind_r (show_list e s io) (\<lambda>io. bind_r (show_check e s io) (\<lambda>io. Inr (s, io))))) (h, io))
    (\<lambda>(h', io'). cells h' = Map.empty \<and> (\<exists>m :: u32 \<rightharpoonup> u32. ?Q m io'))"
  proof (rule with_list_ok [OF e, of 2, simplified])
    fix s :: "u32 accessor" assume s: "dict_rel s Map.empty" "n_buckets s = 4"
    show "returns_or_oom (oom e) (bind_r (init_buckets e t s) (\<lambda>s.
      bind_r (show_list e s io) (\<lambda>io. bind_r (show_check e s io) (\<lambda>io. Inr (s, io)))))
      (\<lambda>(s', io'). \<exists>m. dict_rel s' m \<and> ?Q m io')"
    proof (rule oom_bind [OF t_inits [OF e s(1)]])
      show "\<forall>b\<in>set t. b < n_buckets s" using t s(2) by simp
      fix s' :: "u32 accessor" assume "dict_rel s' Map.empty \<and> n_buckets s' = n_buckets s"
      then have r: "dict_rel s' Map.empty" by simp
      then show "returns_or_oom (oom e) (bind_r (show_list e s' io) (\<lambda>io. bind_r (show_check e s' io) (\<lambda>io. Inr (s', io))))
        (\<lambda>(s', io'). \<exists>m. dict_rel s' m \<and> ?Q m io')"
        by (auto simp: t_show [OF e r])
    qed
  qed (use h in simp_all)
qed (auto simp: split_beta)


lemma test0_ok:
  assumes e: "test_env e" and h: "cells h = Map.empty"
  shows "returns_or_oom (oom e) (test0 e (h, io)) (\<lambda>(h', io'). cells h' = Map.empty \<and>
    sout io' = sout io @ concat (replicate 4 (''----------'' @ endl)) @ ''=========================='' @ endl \<and>
    (\<exists>ss. length ss = 4 \<and> (\<forall>s\<in>set ss. dict_rel s Map.empty) \<and>
      serr io' = serr io @ concat (map (\<lambda>s. list_text e s @ silent_check e) ss)))"
proof -
  let ?line = "''----------'' @ endl"
  define shown where "shown n hio' \<longleftrightarrow> (case hio' of (h', io') \<Rightarrow> cells h' = Map.empty \<and> sout io' = sout io @ concat (replicate n ?line) \<and>
    (\<exists>ss. length ss = n \<and> (\<forall>s\<in>set ss. dict_rel s Map.empty) \<and>
      serr io' = serr io @ concat (map (\<lambda>s. list_text e s @ silent_check e) ss)))" for n and hio' :: "u32 heap \<times> streams"
  have part: "returns_or_oom (oom e) (test0_part e t hio) (shown (Suc n))" if "shown n hio" "\<forall>b\<in>set t. b < 4" for t n hio
  proof -
    obtain h1 io1 where eq: "hio = (h1, io1)" by (cases hio)
    note sh = that(1) [unfolded shown_def eq prod.case]
    then have hio: "hio = (h1, io1)" "cells h1 = Map.empty" "sout io1 = sout io @ concat (replicate n ?line)" using eq by simp_all
    from sh obtain ss where ss: "length ss = n" "\<forall>s\<in>set ss. dict_rel s Map.empty" "serr io1 = serr io @ concat (map (\<lambda>s. list_text e s @ silent_check e) ss)"
      by (elim conjE exE)
    have rep: "concat (replicate (Suc n) ?line) = concat (replicate n ?line) @ ?line"
      by (simp add: replicate_append_same [symmetric] del: append.simps)
    show ?thesis unfolding hio(1)
    proof (rule oom_mono [OF test0_part_ok [OF e hio(2) that(2)]], clarify)
      fix h' :: "u32 heap" and io' :: streams and s :: "u32 accessor"
      assume "cells h' = Map.empty" "sout io' = sout io1 @ ?line" "dict_rel s Map.empty"
        "serr io' = serr io1 @ list_text e s @ silent_check e"
      then show "shown (Suc n) (h', io')"
        using hio ss rep by (simp only: shown_def prod.case append_assoc) (intro conjI refl exI [of _ "ss @ [s]"], auto)
    qed
  qed
  have s0: "shown 0 (h, io)" using h by (simp add: shown_def)
  have t: "\<forall>b\<in>set [1, 2, 3]. (b::u32) < 4" by (simp add: word_less_nat_alt)
  have "returns_or_oom (oom e) (test0 e (h, io)) (\<lambda>(h', io'). \<exists>io1. shown (Suc (Suc (Suc (Suc 0)))) (h', io1) \<and>
      io' = cout (''=========================='' @ endl) io1)"
    unfolding test0_def
    by (rule oom_bind [OF part [OF s0]], use t in simp, rule oom_bind [OF part], assumption, use t in simp,
      rule oom_bind [OF part], assumption, use t in simp, rule oom_bind [OF part], assumption, use t in simp) auto
  then show ?thesis
    by (rule oom_mono) (auto simp: shown_def eval_nat_numeral)
qed

lemma test1_ok:
  assumes e: "test_env e" and h: "cells h = Map.empty"
  shows "returns_or_oom (oom e) (test1 e (h, io)) (\<lambda>(h', io'). cells h' = Map.empty \<and>
    sout io' = sout io @ ''----------'' @ endl \<and> (\<exists>s. dict_rel s [1 \<mapsto> 1, 2 \<mapsto> 2] \<and> serr io' = serr io @ list_text e s))"
proof -
  let ?Q = "\<lambda>m io'. sout io' = sout io @ ''----------'' @ endl \<and> (\<exists>s :: u32 accessor. dict_rel s m \<and> serr io' = serr io @ list_text e s \<and> m = [1 \<mapsto> 1, 2 \<mapsto> 2])"
  have "returns_or_oom (oom e) (test1 e (h, io)) (\<lambda>(h', io'). cells h' = Map.empty \<and> (\<exists>m. ?Q m io'))"
    unfolding test1_def
  proof (rule with_list_ok [OF e, of 2, simplified])
    fix s :: "u32 accessor" assume s: "dict_rel s Map.empty" "n_buckets s = 4"
    have t: "\<forall>b\<in>set [2, 3, 1, 0]. b < n_buckets s" using s(2) by (simp add: word_less_nat_alt)
    show "returns_or_oom (oom e) (bind_r (init_buckets e [2, 3, 1, 0] s) (\<lambda>s. let io = cout (''----------'' @ endl) io in
       bind_r (insert_node (ev_new e) (ev_fuel e) 2 2 s) (\<lambda>(_, s). bind_r (insert_node (ev_new e) (ev_fuel e) 1 1 s) (\<lambda>(_, s).
       bind_r (show_list e s io) (\<lambda>io. Inr (s, io)))))) (\<lambda>(s', io'). \<exists>m. dict_rel s' m \<and> ?Q m io')"
      unfolding Let_def
    proof (rule oom_bind [OF t_inits [OF e s(1) [folded ids_simps(1)] t]], elim conjE, rule oom_bind [OF t_insert_ids [OF e]], assumption, simp,
        clarify, rule oom_bind [OF t_insert_ids [OF e]], assumption, simp, clarify)
      fix s3 :: "u32 accessor"
      assume "dict_rel s3 (ids (([] @ [2]) @ [1]))"
      moreover have "ids (([] @ [2]) @ [1]) = [1 \<mapsto> 1, 2 \<mapsto> 2]" by (auto simp: ids_def fun_eq_iff)
      ultimately have "dict_rel s3 [1 \<mapsto> 1, 2 \<mapsto> 2]" by (simp only:)
      then show "returns_or_oom (oom e) (bind_r (show_list e s3 (cout (''----------'' @ endl) io)) (\<lambda>io. Inr (s3, io)))
        (\<lambda>(s', io'). \<exists>m. dict_rel s' m \<and> ?Q m io')"
        by (auto simp: t_show(1) [OF e])
    qed
  qed (use h in simp_all)
  then show ?thesis by (rule oom_mono) auto
qed



section \<open>The tests with random inputs\<close>

text \<open>
  The state of \<open>test2\<close> while it inserts: the hashes inserted so far, in their order, are those that are
  marked, those in the list and those that were printed.
\<close>

definition picked :: "streams \<Rightarrow> u32 list \<Rightarrow> bool list \<times> u32 accessor \<times> streams \<Rightarrow> bool" where
  "picked io0 vs st =
     (case st of (marked, s, io) \<Rightarrow> dict_rel s (ids vs) \<and> distinct vs \<and> set vs \<subseteq> {v. v < 32} \<and> length marked = 32 \<and>
        (\<forall>v<32. marked ! unat v \<longleftrightarrow> v \<in> set vs) \<and> sout io = sout io0 \<and>
        serr io = serr io0 @ concat (map (\<lambda>v. fmt_u v @ '' '') vs))"

lemma less_32_unat: "(v::u32) < 32 \<Longrightarrow> unat v < 32"
  by (simp add: word_less_nat_alt)

lemma less_32_hash: "(v::u32) < 32 \<Longrightarrow> v < 0x80000000"
  by (simp add: word_less_nat_alt)

lemma picked_mark:
  assumes "picked io0 vs st" "v < 32"
  shows "arr_get (fst st) (unat v) = Inr (v \<in> set vs)"
  using assms less_32_unat [OF assms(2)] by (auto simp: picked_def)

lemma insert_marked_ok:
  assumes e: "test_env e" and p: "picked io0 vs st" and v: "v < 32" "v \<notin> set vs"
  shows "returns_or_oom (oom e) (insert_marked e v st) (picked io0 (vs @ [v]))"
proof -
  obtain marked s io where st: "st = (marked, s, io)" by (cases st) auto
  note p = p [unfolded picked_def st prod.case]
  from p have r: "dict_rel s (ids vs)" by simp
  show ?thesis unfolding insert_marked_def st prod.case Let_def
  proof (rule oom_bind [OF t_insert_ids [OF e r less_32_hash [OF v(1)]]], clarify)
    fix s' :: "u32 accessor" assume r': "dict_rel s' (ids (vs @ [v]))"
    have inj: "unat w = unat v \<longleftrightarrow> w = v" for w by (metis unsigned_word_eqI)
    have "marked[unat v := True] ! unat w \<longleftrightarrow> w \<in> set (vs @ [v])" if "w < 32" for w
      using p that less_32_unat [OF that] inj [of w] by (cases "w = v") (auto simp: nth_list_update)
    then show "returns_or_oom (oom e) (bind_r (arr_set marked (unat v) True) (\<lambda>marked. Inr (marked, s', cerr (fmt_u v @ '' '') io)))
      (picked io0 (vs @ [v]))"
      using p r' v less_32_unat [OF v(1)] by (simp add: picked_def)
  qed
qed

lemma random_loop_ok:
  assumes e: "test_env e"
  shows "picked io0 vs st \<Longrightarrow> 128 \<le> k + iters \<Longrightarrow> iters < 128 \<Longrightarrow>
    returns_or_oom (oom e) (random_loop k e rnd n_gen iters st) (\<lambda>st'. \<exists>vs'. picked io0 vs' st')"
proof (induction k arbitrary: vs st n_gen iters)
  case (Suc k)
  show ?case
  proof (cases "n_gen \<le> 32 \<and> Suc iters < 32 * 4")
    case True
    let ?v = "rnd iters mod 32"
    have v: "?v < 32" by (simp add: word_less_nat_alt unat_mod)
    have next': "128 \<le> k + Suc iters" "Suc iters < 128" using True Suc.prems by simp_all
    show ?thesis
    proof (cases "?v \<in> set vs")
      case False
      have "returns_or_oom (oom e) (bind_r (insert_marked e ?v st) (random_loop k e rnd (Suc n_gen) (Suc iters)))
          (\<lambda>st'. \<exists>vs'. picked io0 vs' st')"
        by (rule oom_bind [OF insert_marked_ok [OF e Suc.prems(1) v False]]) (rule Suc.IH [OF _ next'])
      with True False picked_mark [OF Suc.prems(1) v] show ?thesis by (simp add: Let_def)
    next
      case inn: True
      with True picked_mark [OF Suc.prems(1) v] Suc.IH [OF Suc.prems(1) next'] show ?thesis by (simp add: Let_def)
    qed
  next
    case False
    with Suc.prems(1) show ?thesis by auto
  qed
qed simp

lemma missing_loop_ok:
  assumes e: "test_env e"
  shows "picked io0 vs st \<Longrightarrow> \<forall>w\<in>set ws. w < 32 \<Longrightarrow>
    returns_or_oom (oom e) (missing_loop e ws st) (\<lambda>st'. \<exists>vs'. picked io0 vs' st' \<and> set vs' = set vs \<union> set ws)"
proof (induction ws arbitrary: vs st)
  case (Cons w ws)
  have w: "w < 32" using Cons.prems by simp
  have "returns_or_oom (oom e) (if w \<notin> set vs then insert_marked e w st else Inr st)
      (\<lambda>st'. \<exists>vs'. picked io0 vs' st' \<and> set vs' = insert w (set vs))"
  proof (cases "w \<in> set vs")
    case False
    then show ?thesis by simp (rule oom_mono [OF insert_marked_ok [OF e Cons.prems(1) w False]], auto)
  qed (use Cons.prems(1) in auto)
  then have "returns_or_oom (oom e) (bind_r (if w \<notin> set vs then insert_marked e w st else Inr st) (missing_loop e ws))
      (\<lambda>st'. \<exists>vs'. picked io0 vs' st' \<and> set vs' = set vs \<union> set (w # ws))"
  proof (rule oom_bind, elim exE conjE)
    fix st' vs' assume "picked io0 vs' st'" "set vs' = insert w (set vs)"
    then show "returns_or_oom (oom e) (missing_loop e ws st') (\<lambda>st'. \<exists>vs'. picked io0 vs' st' \<and> set vs' = set vs \<union> set (w # ws))"
      using Cons.prems(2) by (intro oom_mono [OF Cons.IH]) auto
  qed
  then show ?case using picked_mark [OF Cons.prems(1) w] by simp
qed auto

lemma find_loop_ok:
  assumes e: "test_env e"
  shows "dict_rel s m \<Longrightarrow> \<forall>x\<in>set xs. x < 0x80000000 \<and> m x \<noteq> None \<Longrightarrow>
    returns_or_oom (oom e) (find_loop e xs (s, io)) (\<lambda>(s', io'). dict_rel s' m \<and> io' = io)"
proof (induction xs arbitrary: s)
  case (Cons x xs)
  then have x: "x < 0x80000000" "m x \<noteq> None" by simp_all
  show ?case unfolding find_loop.simps
    by (rule oom_bind [OF t_find [OF e Cons.prems(1) x(1)]]) (use x(2) Cons in auto)
qed simp

lemma set_below_32: "set below_32 = {v. v < 32}"
proof -
  have "v \<in> word_of_nat ` {0..<32}" if "v < 32" for v :: u32
    using that less_32_unat [OF that] by (intro image_eqI [of _ _ "unat v"]) simp_all
  moreover have "word_of_nat i < (32::u32)" if "i < 32" for i
    using that by (simp add: word_less_nat_alt unat_of_nat)
  ultimately show ?thesis by (auto simp: below_32_def)
qed

definition show_all_text :: "env \<Rightarrow> u32 accessor \<Rightarrow> string" where
  "show_all_text e s = item_list_text e s @ list_text e s @ silent_check e"

lemma t_show_all:
  assumes "test_env e" "dict_rel s m"
  shows "show_all e s io = Inr (cerr (show_all_text e s) io)"
  using assms by (simp add: show_all_def show_all_text_def t_show [of e s m] cerr_def)

definition test2_map :: "u32 \<rightharpoonup> u32" where
  "test2_map v = (if v < 32 \<and> v \<notin> {0, 30, 31} then Some v else None)"

lemma t_delete_ids:
  assumes "test_env e" "dict_rel s m" "h < 0x80000000" "m' = m(h := None)"
  shows "returns_or_oom (oom e) (delete_node (ev_new e) (ev_fuel e) h s) (\<lambda>(ok, s'). dict_rel s' m')"
  using t_delete [OF assms(1-3)] assms(4) by simp

lemma test2_checks_ok:
  assumes e: "test_env e" and r: "dict_rel s (ids vs)" and vs: "set vs = {v. v < 32}"
  shows "returns_or_oom (oom e) (test2_checks e s io) (\<lambda>(s', io'). dict_rel s' test2_map \<and>
    sout io' = sout io @ endl @ ''-- Checking find'' @ endl @ endl @ ''-- Deleting 30, 0 and 31'' @ endl @ endl \<and>
    serr io' = serr io @ show_all_text e s @ show_all_text e s')"
proof -
  have f: "\<forall>x\<in>set below_32. x < 0x80000000 \<and> ids vs x \<noteq> None"
    using less_32_hash by (auto simp: set_below_32 ids_def vs)
  let ?m1 = "(ids vs)(30 := None)" let ?m2 = "?m1(0 := None)" let ?m3 = "?m2(31 := None)"
  have m: "?m3 = test2_map" by (auto simp: fun_eq_iff test2_map_def ids_def vs)
  show ?thesis unfolding test2_checks_def t_show_all [OF e r] bind_r_simps Let_def
  proof (rule oom_bind [OF find_loop_ok [OF e r f]], clarify)
    fix s1 :: "u32 accessor" assume r1: "dict_rel s1 (ids vs)"
    let ?io = "cout (''-- Deleting 30, 0 and 31'' @ endl @ endl) (cout (endl @ ''-- Checking find'' @ endl @ endl) (cerr (show_all_text e s) io))"
    show "returns_or_oom (oom e) (bind_r (delete_node (ev_new e) (ev_fuel e) 30 s1) (\<lambda>(_, s).
        bind_r (delete_node (ev_new e) (ev_fuel e) 0 s) (\<lambda>(_, s). bind_r (delete_node (ev_new e) (ev_fuel e) 31 s) (\<lambda>(_, s).
        bind_r (show_all e s ?io) (\<lambda>io. Inr (s, io))))))
      (\<lambda>(s', io'). dict_rel s' test2_map \<and>
        sout io' = sout io @ endl @ ''-- Checking find'' @ endl @ endl @ ''-- Deleting 30, 0 and 31'' @ endl @ endl \<and>
        serr io' = serr io @ show_all_text e s @ show_all_text e s')"
    proof (rule oom_bind [OF t_delete_ids [OF e r1 _ refl]], simp, clarify, rule oom_bind [OF t_delete_ids [OF e _ _ refl]], assumption, simp,
        clarify, rule oom_bind [OF t_delete_ids [OF e _ _ m [symmetric]]], assumption, simp, clarify)
      fix s4 :: "u32 accessor" assume r4: "dict_rel s4 test2_map"
      then show "returns_or_oom (oom e) (bind_r (show_all e s4 ?io) (\<lambda>io. Inr (s4, io)))
        (\<lambda>(s', io'). dict_rel s' test2_map \<and>
          sout io' = sout io @ endl @ ''-- Checking find'' @ endl @ endl @ ''-- Deleting 30, 0 and 31'' @ endl @ endl \<and>
          serr io' = serr io @ show_all_text e s @ show_all_text e s')"
        by (simp add: t_show_all [OF e r4])
    qed
  qed
qed

lemma test2_ok:
  assumes "test_env e" "cells h = Map.empty"
  shows "returns_or_oom (oom e) (test2 e rnd (h, io)) (\<lambda>(h', io'). cells h' = Map.empty \<and>
    sout io' = sout io @ endl @ ''-- Checking find'' @ endl @ endl @ ''-- Deleting 30, 0 and 31'' @ endl @ endl \<and>
    (\<exists>vs s1 s2. distinct vs \<and> set vs = {v. v < 32} \<and> dict_rel s1 (ids vs) \<and> dict_rel s2 test2_map \<and>
      serr io' = serr io @ concat (map (\<lambda>v. fmt_u v @ '' '') vs) @ endl @ show_all_text e s1 @ show_all_text e s2))"
proof -
  note e = assms(1)
  let ?Q = "\<lambda>m io'. sout io' = sout io @ endl @ ''-- Checking find'' @ endl @ endl @ ''-- Deleting 30, 0 and 31'' @ endl @ endl \<and>
    (\<exists>vs s1 s2. distinct vs \<and> set vs = {v. v < 32} \<and> dict_rel s1 (ids vs) \<and> dict_rel s2 test2_map \<and>
      serr io' = serr io @ concat (map (\<lambda>v. fmt_u v @ '' '') vs) @ endl @ show_all_text e s1 @ show_all_text e s2)"
  have "returns_or_oom (oom e) (test2 e rnd (h, io)) (\<lambda>(h', io'). cells h' = Map.empty \<and> (\<exists>m :: u32 \<rightharpoonup> u32. ?Q m io'))"
    unfolding test2_def
  proof (rule with_list_ok [OF e, of 1, simplified])
    fix s :: "u32 accessor" assume "dict_rel s Map.empty" "n_buckets s = 2"
    then have p: "picked io [] (replicate 32 False, s, io)"
      by (auto simp: picked_def less_32_unat)
    have w: "\<forall>w\<in>set below_32. w < 32" by (simp add: set_below_32)
    show "returns_or_oom (oom e) (bind_r (random_loop 128 e rnd 0 0 (replicate 32 False, s, io)) (\<lambda>st.
       bind_r (missing_loop e below_32 st) (\<lambda>(_, s, io). test2_checks e s (cerr endl io)))) (\<lambda>(s', io'). \<exists>m. dict_rel s' m \<and> ?Q m io')"
    proof (rule oom_bind [OF random_loop_ok [OF e p]], simp, simp, elim exE, rule oom_bind [OF missing_loop_ok [OF e _ w]], assumption, clarify)
      fix us vs marked io1 and s1 :: "u32 accessor"
      assume "picked io vs (marked, s1, io1)" and vs: "set vs = set us \<union> set below_32"
      then have k: "dict_rel s1 (ids vs)" "distinct vs" "set vs = {v. v < 32}" "sout io1 = sout io"
        "serr io1 = serr io @ concat (map (\<lambda>v. fmt_u v @ '' '') vs)" by (auto simp: picked_def set_below_32)
      show "returns_or_oom (oom e) (test2_checks e s1 (cerr endl io1)) (\<lambda>(s', io'). \<exists>m. dict_rel s' m \<and> ?Q m io')"
      proof (rule oom_mono [OF test2_checks_ok [OF e k(1,3)]], clarify)
        fix s' io' assume r: "dict_rel s' test2_map"
          and o: "sout io' = sout (cerr endl io1) @ endl @ ''-- Checking find'' @ endl @ endl @ ''-- Deleting 30, 0 and 31'' @ endl @ endl"
          "serr io' = serr (cerr endl io1) @ show_all_text e s1 @ show_all_text e s'"
        show "\<exists>m. dict_rel s' m \<and> ?Q m io'"
          using r o k by (intro exI [of _ test2_map] conjI exI [of _ vs] exI [of _ s1] exI [of _ s']) simp_all
      qed
    qed
  qed (use assms in simp_all)
  then show ?thesis by (rule oom_mono) auto
qed

text \<open>
  \<open>test3\<close> ends when \<open>rand\<close> gave 33 different values. The values it inserted are those of the first
  calls, each once.
\<close>

lemma find_insert_loop_ok:
  assumes e: "test_env e" and rnd: "\<And>i. rnd i < 0x80000000"
  shows "dict_rel s (ids vs) \<Longrightarrow> distinct vs \<Longrightarrow> set vs = rnd ` {..<calls} \<Longrightarrow> length vs \<le> 33 \<Longrightarrow>
    33 \<le> card (rnd ` {..<N}) \<Longrightarrow> N < k + calls \<Longrightarrow> calls \<le> N \<Longrightarrow>
    returns_or_oom (oom e) (find_insert_loop k e rnd (length vs) calls (s, io))
      (\<lambda>(s', io'). \<exists>vs' n. dict_rel s' (ids vs') \<and> distinct vs' \<and> length vs' = 33 \<and> set vs' = rnd ` {..<n} \<and> n \<le> N \<and>
         sout io' = sout io \<and> (\<exists>x. serr io' = serr io @ x))"
proof (induction k arbitrary: s vs calls io)
  case (Suc k)
  let ?v = "rnd calls"
  let ?R = "\<lambda>io (s', io'). \<exists>vs' n. dict_rel s' (ids vs') \<and> distinct vs' \<and> length vs' = 33 \<and> set vs' = rnd ` {..<n} \<and> n \<le> N \<and>
         sout io' = sout io \<and> (\<exists>x. serr io' = serr io @ x)"
  show ?case
  proof (cases "length vs \<le> 32")
    case False
    then have "length vs = 33" using Suc.prems by simp
    then show ?thesis using Suc.prems False by (auto intro!: exI [of _ vs] exI [of _ calls])
  next
    case True
    have "calls \<noteq> N"
    proof
      assume "calls = N"
      then have "33 \<le> length vs" using Suc.prems(2,3,5) by (metis distinct_card)
      with True show False by simp
    qed
    then have less: "calls < N" "N < k + Suc calls" "Suc calls \<le> N" using Suc.prems by simp_all
    have img: "rnd ` {..<Suc calls} = insert ?v (set vs)" using Suc.prems(3) by (simp add: lessThan_Suc)
    let ?io = "cerr (fmt_u ?v @ '' '') io"
    have out: "?R ?io r \<Longrightarrow> ?R io r" for r by (cases r) fastforce
    have "returns_or_oom (oom e) (bind_r (find_item_node (ev_new e) (ev_fuel e) ?v s) (\<lambda>(p, s).
        if p = nullptr then bind_r (insert_node (ev_new e) (ev_fuel e) ?v ?v s) (\<lambda>(_, s). find_insert_loop k e rnd (Suc (length vs)) (Suc calls) (s, ?io))
        else find_insert_loop k e rnd (length vs) (Suc calls) (s, ?io))) (?R io)"
    proof (rule oom_bind [OF t_find [OF e Suc.prems(1) rnd]], clarify)
      fix p and s1 :: "u32 accessor" assume p: "(p = nullptr) = (ids vs ?v = None)" and r: "dict_rel s1 (ids vs)"
      show "returns_or_oom (oom e) (if p = nullptr then bind_r (insert_node (ev_new e) (ev_fuel e) ?v ?v s1)
          (\<lambda>(_, s). find_insert_loop k e rnd (Suc (length vs)) (Suc calls) (s, ?io))
        else find_insert_loop k e rnd (length vs) (Suc calls) (s1, ?io)) (?R io)"
      proof (cases "?v \<in> set vs")
        case inn: True
        then have "p \<noteq> nullptr" "set vs = rnd ` {..<Suc calls}" using p img by (auto simp: ids_def)
        then show ?thesis
          using oom_mono [OF Suc.IH [OF r Suc.prems(2) _ Suc.prems(4,5) less(2,3), of ?io] out] by simp
      next
        case new: False
        then have "p = nullptr" using p by (simp add: ids_def)
        moreover have "returns_or_oom (oom e) (bind_r (insert_node (ev_new e) (ev_fuel e) ?v ?v s1)
            (\<lambda>(_, s). find_insert_loop k e rnd (Suc (length vs)) (Suc calls) (s, ?io))) (?R io)"
        proof (rule oom_bind [OF t_insert_ids [OF e r rnd]], clarify)
          fix s2 :: "u32 accessor" assume r2: "dict_rel s2 (ids (vs @ [?v]))"
          have "returns_or_oom (oom e) (find_insert_loop k e rnd (length (vs @ [?v])) (Suc calls) (s2, ?io)) (?R ?io)"
            by (rule Suc.IH [OF r2 _ _ _ Suc.prems(5) less(2,3)]) (use Suc.prems(2) new img True in auto)
          from oom_mono [OF this out]
          show "returns_or_oom (oom e) (find_insert_loop k e rnd (Suc (length vs)) (Suc calls) (s2, ?io)) (?R io)" by simp
        qed
        ultimately show ?thesis by simp
      qed
    qed
    then show ?thesis using True by (simp add: Let_def)
  qed
qed simp

lemma test3_ok:
  assumes "test_env e" "cells h = Map.empty" "\<forall>i. rnd i < 0x80000000" "33 \<le> card (rnd ` {..<N})" "N < k"
  shows "returns_or_oom (oom e) (test3 k e rnd (h, io)) (\<lambda>(h', io'). cells h' = Map.empty \<and> sout io' = sout io \<and>
    (\<exists>vs n x s. dict_rel s (ids vs) \<and> distinct vs \<and> length vs = 33 \<and> set vs = rnd ` {..<n} \<and> n \<le> N \<and>
      serr io' = serr io @ x @ endl @ show_all_text e s))"
proof -
  note e = assms(1)
  let ?Q = "\<lambda>m io'. sout io' = sout io \<and> (\<exists>vs n x s. dict_rel s (ids vs) \<and> distinct vs \<and> length vs = 33 \<and> set vs = rnd ` {..<n} \<and> n \<le> N \<and>
      serr io' = serr io @ x @ endl @ show_all_text e s)"
  have "returns_or_oom (oom e) (test3 k e rnd (h, io)) (\<lambda>(h', io'). cells h' = Map.empty \<and> (\<exists>m :: u32 \<rightharpoonup> u32. ?Q m io'))"
    unfolding test3_def
  proof (rule with_list_ok [OF e, of 1, simplified])
    fix s :: "u32 accessor" assume "dict_rel s Map.empty" "n_buckets s = 2"
    then have r: "dict_rel s (ids [])" by simp
    have "returns_or_oom (oom e) (find_insert_loop k e rnd (length ([] :: u32 list)) 0 (s, io))
      (\<lambda>(s', io'). \<exists>vs' n. dict_rel s' (ids vs') \<and> distinct vs' \<and> length vs' = 33 \<and> set vs' = rnd ` {..<n} \<and> n \<le> N \<and>
         sout io' = sout io \<and> (\<exists>x. serr io' = serr io @ x))"
      by (rule find_insert_loop_ok [OF e _ r]) (use assms in auto)
    then show "returns_or_oom (oom e) (bind_r (find_insert_loop k e rnd 0 0 (s, io)) (\<lambda>(s, io). let io = cerr endl io in
       bind_r (show_all e s io) (\<lambda>io. Inr (s, io)))) (\<lambda>(s', io'). \<exists>m. dict_rel s' m \<and> ?Q m io')"
    proof (simp only: list.size, elim oom_bind, clarify)
      fix s' :: "u32 accessor" and io' :: streams and vs n x
      assume k: "dict_rel s' (ids vs)" "distinct vs" "length vs = 33" "set vs = rnd ` {..<n}" "n \<le> N"
        "sout io' = sout io" "serr io' = serr io @ x"
      then show "returns_or_oom (oom e) (let io = cerr endl io' in bind_r (show_all e s' io) (\<lambda>io. Inr (s', io)))
        (\<lambda>(s', io'). \<exists>m. dict_rel s' m \<and> ?Q m io')"
        by (simp add: Let_def t_show_all [OF e k(1)]) blast
    qed
  qed (use assms in simp_all)
  then show ?thesis by (rule oom_mono) auto
qed

text \<open>
  If \<open>rand\<close> gives fewer than 33 different values, the loop of \<open>test3\<close> has no end: no fuel is enough.
\<close>

lemma find_insert_loop_endless:
  assumes e: "test_env e" and rnd: "\<And>i. rnd i < 0x80000000" and few: "\<And>n. card (rnd ` {..<n}) \<le> 32" and mem: "\<not> oom e"
  shows "dict_rel s (ids vs) \<Longrightarrow> distinct vs \<Longrightarrow> set vs = rnd ` {..<calls} \<Longrightarrow>
    find_insert_loop k e rnd (length vs) calls (s, io) = Inl NoFuel"
proof (induction k arbitrary: s vs calls io)
  case (Suc k)
  let ?v = "rnd calls"
  have len: "length vs \<le> 32" using few [of calls] Suc.prems(2,3) by (simp add: distinct_card [symmetric])
  have img: "rnd ` {..<Suc calls} = insert ?v (set vs)" using Suc.prems(3) by (simp add: lessThan_Suc)
  obtain p s1 where f: "find_item_node (ev_new e) (ev_fuel e) ?v s = Inr (p, s1)"
    and p: "(p = nullptr) = (ids vs ?v = None)" and r: "dict_rel s1 (ids vs)"
    using t_find [OF e Suc.prems(1) rnd, of calls] mem by (auto simp: returns_or_oom_def split: sum.splits)
  show ?case
  proof (cases "?v \<in> set vs")
    case True
    then have "p \<noteq> nullptr" "set vs = rnd ` {..<Suc calls}" using p img by (auto simp: ids_def)
    then show ?thesis using len f Suc.IH [OF r Suc.prems(2)] by (simp add: Let_def)
  next
    case False
    then have "p = nullptr" using p by (simp add: ids_def)
    moreover obtain ok s2 where "insert_node (ev_new e) (ev_fuel e) ?v ?v s1 = Inr (ok, s2)" "dict_rel s2 (ids (vs @ [?v]))"
      using t_insert_ids [OF e r rnd, of calls] mem by (auto simp: returns_or_oom_def split: sum.splits)
    moreover note Suc.IH [of s2 "vs @ [?v]" "Suc calls"]
    ultimately show ?thesis using len f False Suc.prems(2) img by (simp add: Let_def)
  qed
qed simp

text \<open>
  \<open>testx\<close> ends: the key of bucket 5 is a multiple of neither the step nor zero, but the keys below it
  are passed one by one until 0.
\<close>

lemma testx_keys:
  "sol_bucket_key 8 = Inr 0x10000000" "sol_bucket_key 4 = Inr 0x20000000" "sol_bucket_key 5 = Inr 0xA0000000"
  "reverse_hasht_bits 0xA0000000 = 5" "reverse_hasht_bits 0x80000000 = 1" "reverse_hasht_bits 0x60000000 = 6"
  "reverse_hasht_bits 0x40000000 = 2" "reverse_hasht_bits 0x20000000 = 4" "reverse_hasht_bits 0 = 0"
  by code_simp+

lemma testx_prints:
  assumes "5 \<le> f"
  shows "testx f io = Inr (cout (
     ''key=a0000000 bucket_from_key=5 bucket_from_n_buckets=10000000 key_step=20000000'' @ endl @
     ''key=80000000 slot_from_key=1'' @ endl @ ''key=60000000 slot_from_key=6'' @ endl @
     ''key=40000000 slot_from_key=2'' @ endl @ ''key=20000000 slot_from_key=4'' @ endl @
     ''key=0 slot_from_key=0'' @ endl) io)"
proof -
  obtain d where f: "f = Suc (Suc (Suc (Suc (Suc d))))" using le_Suc_ex [OF assms] by auto
  show ?thesis unfolding f testx_def
    by (simp add: testx_keys testx_loop.simps Let_def fmt_x_def fmt_d_def hex_number.simps hex_digit_def dec_digits.simps)
qed

text \<open>
  \<open>main\<close> returns whatever its argument is, after its last line of output, and nothing is left in the heap.
\<close>

lemma main_ends:
  assumes e: "test_env e" and h: "cells h = Map.empty" and rnd: "\<forall>i. rnd i < 0x80000000" "33 \<le> card (rnd ` {..<N})" "N < k" "5 \<le> k"
  shows "returns_or_oom (oom e) (test1_main k e rnd arg (h, io))
    (\<lambda>(h', io'). cells h' = Map.empty \<and> (\<exists>x. sout io' = sout io @ x @ ''All Done. '' @ endl))"
proof -
  let ?Q = "\<lambda>(h', io'). cells h' = Map.empty \<and> (\<exists>x. sout io' = sout io @ x)"
  have t: "returns_or_oom (oom e) (test0 e (h, io)) ?Q" "returns_or_oom (oom e) (test1 e (h, io)) ?Q"
    "returns_or_oom (oom e) (test2 e rnd (h, io)) ?Q" "returns_or_oom (oom e) (test3 k e rnd (h, io)) ?Q"
    by (rule oom_mono [OF test0_ok [OF e h]] oom_mono [OF test1_ok [OF e h]] oom_mono [OF test2_ok [OF e h]]
        oom_mono [OF test3_ok [OF e h rnd(1-3)]], fastforce)+
  from testx_prints [OF rnd(4), of io] have tx: "returns_or_oom (oom e) (bind_r (testx k (snd (h, io))) (\<lambda>io. Inr (fst (h, io), io))) ?Q" using h by simp
  show ?thesis unfolding test1_main_def Let_def
    by (rule oom_bind [of _ _ ?Q]) (use t tx in auto)
qed

section \<open>The claims\<close>

text \<open>An environment to apply the theorems to.\<close>

definition demo_env :: env where
  "demo_env = \<lparr>ev_new = bump_new 0x80000000, ev_fuel = 2 ^ 33, ev_steps = 0, ev_fmt = (\<lambda>_. ''p''), ev_sol = 16\<rparr>"

definition empty_heap :: "u32 heap" where
  "empty_heap = \<lparr>cells = Map.empty, allocs = 0\<rparr>"

lemma demo_env: "test_env demo_env" "cells empty_heap = Map.empty"
  by (simp_all add: test_env_def demo_env_def empty_heap_def bump_b.bounded_new_axioms)





text \<open>\<open>test3\<close> returns once \<open>rand\<close>, whose results are below \<open>2^31\<close>, has given 33 different values, and not
  32 as its comment says: the list it shows holds 33 items, the different values of the first
  calls, and the check that ends the test reports nothing.\<close>

theorem test3_adds_33:
  assumes "test_env e" "cells h = Map.empty" "\<forall>i. rnd i < 0x80000000" "33 \<le> card (rnd ` {..<N})" "N < k"
  shows "returns_or_oom (oom e) (test3 k e rnd (h, io)) (\<lambda>(h', io'). cells h' = Map.empty \<and> sout io' = sout io \<and>
    (\<exists>vs n x s. dict_rel s (ids vs) \<and> distinct vs \<and> length vs = 33 \<and> set vs = rnd ` {..<n} \<and> n \<le> N \<and>
      serr io' = serr io @ x @ endl @ show_all_text e s))"
  using assms by (rule test3_ok)

lemma test3_adds_33_witness:
  "returns_or_oom (oom demo_env) (test3 34 demo_env (\<lambda>i. word_of_nat (i mod 33)) (empty_heap, \<lparr>sout = [], serr = []\<rparr>))
     (\<lambda>(h', io'). cells h' = Map.empty \<and> sout io' = [])"
proof (rule oom_mono [OF test3_adds_33 [OF demo_env, of _ 33]])
  show "\<forall>i. word_of_nat (i mod 33) < (0x80000000 :: u32)"
    by (auto simp: word_less_nat_alt unat_of_nat take_bit_nat_eq_self)
  have "inj_on (\<lambda>i. word_of_nat (i mod 33) :: u32) {..<33}"
    by (auto simp: inj_on_def of_nat_inverse word_unat_eq_iff unat_of_nat take_bit_nat_eq_self)
  from card_image [OF this] show "33 \<le> card ((\<lambda>i. word_of_nat (i mod 33) :: u32) ` {..<33})"
    by (simp only: card_lessThan)
qed auto

end
