(* ===== verification/SolConc.thy ===== *)
theory SolConc
  imports SolSpec
begin

text \<open>
  The split-ordered list under concurrency: any number of threads, each with an accessor of its own
  over one shared \<open>solist\<close>, run \<open>insert_node\<close>, \<open>delete_node\<close>, \<open>find_item_node\<close> and
  \<open>initialise_bucket\<close>. A step of a thread is one access to the shared memory with the local
  statements around it, and the steps of the threads interleave in every possible way. The table is
  one value of the shared state: that \<open>expand\<close> deletes the array it replaces is not modelled.
\<close>

section \<open>The steps of the operations\<close>

datatype 'a lop = OInsert u32 'a | ODelete u32 | OFind u32 | OInit u32

fun op_hash :: "'a lop \<Rightarrow> u32" where
  "op_hash (OInsert h v) = h"
| "op_hash (ODelete h) = h"
| "op_hash (OFind h) = h"
| "op_hash (OInit slot) = slot"

text \<open>
  Where a thread is, named after the statement it runs next: those of \<open>insert_node\<close>,
  \<open>delete_node\<close> and \<open>find_node\<close> (\<open>L\<close>), of the expansion policy of \<open>insert_node\<close> and of \<open>expand\<close> (\<open>G\<close>), and
  of \<open>initialise_bucket\<close> and \<open>get_parent\<close> (\<open>B\<close>).
\<close>

datatype lpc =
    LNew | LBucket | LStart | LNext | LTest | LAdv | LFound
  | LLink | LCas | LInc | LReload | LWalk | LWAdv | LGrow | LFree
  | GFull | GLoad u32 | GSplit | GCheck | GSize | GLoop u32 | GCopy u32 | GZero | GSwap | GPub
  | LMark | LUnlink | LDec | LDelete
  | BCheck | BNew | BParent | BStep u32 u32 | BStart u32 | BNext | BTest | BAdv | BSet | BCond | BKey | BCas
  | BPub | BNode | BStore | BOther | BSame | BFree | BEnd
  | LDone bool

text \<open>
  A thread: its operation, the cursor of its accessor, and the local variables \<open>nbuckets\<close>,
  \<open>dnode\<close>, \<open>slot\<close>, \<open>node\<close> and \<open>key\<close> of \<open>initialise_bucket\<close>, \<open>new_buckets\<close> and \<open>new_size\<close> of
  \<open>expand\<close>, and where its call of \<open>initialise_bucket\<close> returns to.
\<close>

record 'a lthread =
  lop :: "'a lop"
  lpc :: lpc
  lcur :: uptr
  lnxt :: uptr
  lprv :: uptr
  lsteps :: u32
  lnb :: u32
  lnode :: uptr
  lslot :: u32
  lbkt :: uptr
  lbkey :: u32
  lnew :: "uptr list"
  lnsz :: u32
  lret :: lpc

text \<open>Where \<open>find_node\<close> returns to.\<close>

definition after_find :: "bool \<Rightarrow> 'a lthread \<Rightarrow> lpc" where
  "after_find found th =
     (case lop th of
        OInsert h v \<Rightarrow> if found then LFree else LLink
      | ODelete h \<Rightarrow> if found then LMark else LDone False
      | OFind h \<Rightarrow> LDone found
      | OInit b \<Rightarrow> LDone found)"

definition find_step :: "'a solist \<Rightarrow> 'a lthread \<Rightarrow> 'a lthread res" where
  "find_step l th =
     (case lpc th of
        LBucket \<Rightarrow>
          if n_buckets l = 0 then Inl DivByZero
          else let slot = op_hash (lop th) mod n_buckets l in
            bind_r (arr_get (buckets l) (unat slot)) (\<lambda>b.
              Inr (th\<lparr>lslot := slot, lpc := (if b = nullptr then BCheck else LStart)\<rparr>))
      | LStart \<Rightarrow> bind_r (arr_get (buckets l) (unat (lslot th))) (\<lambda>b. Inr (th\<lparr>lprv := b, lcur := b, lpc := LNext\<rparr>))
      | LNext \<Rightarrow> bind_r (next_of (lcur th) l) (\<lambda>n. Inr (th\<lparr>lnxt := n, lsteps := 0, lpc := LTest\<rparr>))
      | LTest \<Rightarrow>
          if lnxt th = nullptr then Inr (th\<lparr>lpc := LFound\<rparr>)
          else bind_r (deref (lnxt th) l) (\<lambda>nd.
            if key nd \<le> sol_node_key (op_hash (lop th))
            then Inr (th\<lparr>lprv := lcur th, lcur := lnxt th, lpc := LAdv\<rparr>)
            else Inr (th\<lparr>lpc := LFound\<rparr>))
      | LAdv \<Rightarrow> bind_r (next_of (lcur th) l) (\<lambda>n. Inr (th\<lparr>lnxt := n, lsteps := lsteps th + 1, lpc := LTest\<rparr>))
      | LFound \<Rightarrow>
          if lcur th = nullptr then Inr (th\<lparr>lpc := after_find False th\<rparr>)
          else bind_r (deref (lcur th) l) (\<lambda>c.
            Inr (th\<lparr>lpc := after_find (key c = sol_node_key (op_hash (lop th))) th\<rparr>))
      | _ \<Rightarrow> Inr th)"

definition insert_step :: "'a allocator \<Rightarrow> 'a solist \<Rightarrow> 'a lthread \<Rightarrow> ('a lthread \<times> 'a solist) res" where
  "insert_step A l th =
     (case lpc th of
        LNew \<Rightarrow>
          (case lop th of
             OInsert h v \<Rightarrow> bind_r (new_cell A (solist_node_ctor v h) l) (\<lambda>(a, l).
               Inr (th\<lparr>lnb := n_buckets l, lnode := a, lpc := LBucket\<rparr>, l))
           | _ \<Rightarrow> Inr (th\<lparr>lpc := LBucket\<rparr>, l))
      | LLink \<Rightarrow> bind_r (set_next (lnode th) (lnxt th) l) (\<lambda>l. Inr (th\<lparr>lpc := LCas\<rparr>, l))
      | LCas \<Rightarrow> bind_r (cas_next (lcur th) (lnxt th) (lnode th) l) (\<lambda>(ok, l).
          Inr (th\<lparr>lpc := (if ok then LInc else LBucket)\<rparr>, l))
      | LInc \<Rightarrow> Inr (th\<lparr>lpc := LReload\<rparr>, inc_item_count l)
      | LReload \<Rightarrow> bind_r (next_of (lcur th) l) (\<lambda>n. Inr (th\<lparr>lnxt := n, lpc := LWalk\<rparr>, l))
      | LWalk \<Rightarrow>
          if lnxt th = nullptr then Inr (th\<lparr>lpc := LGrow\<rparr>, l)
          else bind_r (deref (lnxt th) l) (\<lambda>nd.
            if is_node nd then Inr (th\<lparr>lprv := lcur th, lcur := lnxt th, lpc := LWAdv\<rparr>, l)
            else Inr (th\<lparr>lpc := LGrow\<rparr>, l))
      | LWAdv \<Rightarrow> bind_r (next_of (lcur th) l) (\<lambda>n. Inr (th\<lparr>lnxt := n, lsteps := lsteps th + 1, lpc := LWalk\<rparr>, l))
      | LFree \<Rightarrow> bind_r (delete_cell (lnode th) l) (\<lambda>l. Inr (th\<lparr>lpc := LDone False\<rparr>, l))
      | _ \<Rightarrow> Inr (th, l))"

text \<open>
  The expansion policy. \<open>expand\<close> reads \<open>n_buckets\<close> anew for each test of its copying loop; its second
  loop works on its own array only.
\<close>

definition into_bucket :: "u32 \<Rightarrow> 'a lthread \<Rightarrow> 'a lthread" where
  "into_bucket slot th = th\<lparr>lslot := slot, lret := LDone True, lpc := BCheck\<rparr>"

definition expand_step :: "'a allocator \<Rightarrow> 'a solist \<Rightarrow> 'a lthread \<Rightarrow> ('a lthread \<times> 'a solist) res" where
  "expand_step A l th =
     (case lpc th of
        GCheck \<Rightarrow> Inr (if lnb th < n_buckets l then into_bucket (lslot th + lnb th) th else th\<lparr>lpc := GSize\<rparr>, l)
      | GSize \<Rightarrow>
          let new_size = n_buckets l * 2 in
          if \<not> new_arr A new_size then Inl BadAlloc
          else Inr (th\<lparr>lnsz := new_size, lnew := replicate (unat new_size) nullptr, lpc := GLoop 0\<rparr>, l)
      | GLoop x \<Rightarrow> Inr (th\<lparr>lpc := (if x < n_buckets l then GCopy x else GZero)\<rparr>, l)
      | GCopy x \<Rightarrow> bind_r (arr_get (buckets l) (unat x)) (\<lambda>v. bind_r (arr_set (lnew th) (unat x) v) (\<lambda>nb.
          Inr (th\<lparr>lnew := nb, lpc := GLoop (x + 1)\<rparr>, l)))
      | GZero \<Rightarrow> bind_r (clear_slots (unat (lnsz th) - unat (n_buckets l)) (unat (n_buckets l)) (lnew th)) (\<lambda>nb.
          Inr (th\<lparr>lnew := nb, lpc := GSwap\<rparr>, l))
      | GSwap \<Rightarrow> Inr (th\<lparr>lpc := GPub\<rparr>, l\<lparr>buckets := lnew th\<rparr>)
      | GPub \<Rightarrow> Inr (into_bucket (lslot th + lnb th) th, l\<lparr>n_buckets := lnsz th\<rparr>)
      | _ \<Rightarrow> Inr (th, l))"

definition grow_step :: "'a allocator \<Rightarrow> 'a solist \<Rightarrow> 'a lthread \<Rightarrow> ('a lthread \<times> 'a solist) res" where
  "grow_step A l th =
     (case lpc th of
        LGrow \<Rightarrow>
          if lsteps th > max_bucket_length l
          then if n_buckets l = 0 then Inl DivByZero
            else Inr (th\<lparr>lslot := op_hash (lop th) mod n_buckets l, lpc := GFull\<rparr>, l)
          else Inr (th\<lparr>lpc := LDone True\<rparr>, l)
      | GFull \<Rightarrow> Inr (th\<lparr>lpc := (if lsteps th \<ge> max_bucket_length l * 2 then GCheck else GLoad (n_items l))\<rparr>, l)
      | GLoad i \<Rightarrow> Inr (th\<lparr>lpc := (if i \<ge> max_bucket_length l * n_buckets l then GCheck else GSplit)\<rparr>, l)
      | GSplit \<Rightarrow>
          let ib_slot = lslot th + lnb th div 2 in
          Inr (if ib_slot < n_buckets l then into_bucket ib_slot th else th\<lparr>lpc := LDone True\<rparr>, l)
      | _ \<Rightarrow> expand_step A l th)"

definition delete_step :: "'a solist \<Rightarrow> 'a lthread \<Rightarrow> ('a lthread \<times> 'a solist) res" where
  "delete_step l th =
     (case lpc th of
        LMark \<Rightarrow> bind_r (cas_next_mark (lcur th) (lnxt th) (lnxt th) True l) (\<lambda>(ok, l).
          Inr (th\<lparr>lpc := (if ok then LUnlink else LBucket)\<rparr>, l))
      | LUnlink \<Rightarrow> bind_r (cas_next (lprv th) (lcur th) (lnxt th) l) (\<lambda>(ok, l).
          Inr (th\<lparr>lpc := (if ok then LDec else LBucket)\<rparr>, l))
      | LDec \<Rightarrow> Inr (th\<lparr>lpc := LDelete\<rparr>, dec_item_count l)
      | LDelete \<Rightarrow> bind_r (delete_cell (lcur th) l) (\<lambda>l. Inr (th\<lparr>lpc := LDone True\<rparr>, l))
      | _ \<Rightarrow> Inr (th, l))"

definition parent_step :: "'a solist \<Rightarrow> 'a lthread \<Rightarrow> 'a lthread res" where
  "parent_step l th =
     (case lpc th of
        BParent \<Rightarrow> bind_r (sol_bucket_key (n_buckets l div 2)) (\<lambda>key_step. Inr (th\<lparr>lpc := BStep key_step (lbkey th)\<rparr>))
      | BStep key_step k \<Rightarrow>
          let pb_key = k - key_step; pb_slot = reverse_hasht_bits pb_key in
          bind_r (arr_get (buckets l) (unat pb_slot)) (\<lambda>b.
            Inr (th\<lparr>lpc := (if b \<noteq> nullptr then BStart pb_slot else if 0 \<noteq> pb_key then BStep key_step pb_key else BStart pb_slot)\<rparr>))
      | BStart pb_slot \<Rightarrow> bind_r (arr_get (buckets l) (unat pb_slot)) (\<lambda>b. Inr (th\<lparr>lprv := b, lcur := b, lpc := BNext\<rparr>))
      | BNext \<Rightarrow> bind_r (next_of (lcur th) l) (\<lambda>n. Inr (th\<lparr>lnxt := n, lpc := BTest\<rparr>))
      | BTest \<Rightarrow>
          if lnxt th = nullptr then Inr (th\<lparr>lpc := BSet\<rparr>)
          else bind_r (deref (lnxt th) l) (\<lambda>nd.
            if key nd < lbkey th then Inr (th\<lparr>lprv := lcur th, lcur := lnxt th, lpc := BAdv\<rparr>)
            else Inr (th\<lparr>lpc := BSet\<rparr>))
      | BAdv \<Rightarrow> bind_r (next_of (lcur th) l) (\<lambda>n. Inr (th\<lparr>lnxt := n, lpc := BTest\<rparr>))
      | _ \<Rightarrow> Inr th)"

definition init_step :: "'a allocator \<Rightarrow> 'a solist \<Rightarrow> 'a lthread \<Rightarrow> ('a lthread \<times> 'a solist) res" where
  "init_step A l th =
     (case lpc th of
        BCheck \<Rightarrow>
          if \<not> lslot th < n_buckets l then Inl AssertFail
          else bind_r (arr_get (buckets l) (unat (lslot th))) (\<lambda>b.
            Inr (th\<lparr>lpc := (if b \<noteq> nullptr then lret th else BNew)\<rparr>, l))
      | BNew \<Rightarrow> bind_r (new_cell A (solist_bucket_ctor (lslot th)) l) (\<lambda>(a, l).
          bind_r (deref a l) (\<lambda>nd. Inr (th\<lparr>lbkt := a, lbkey := key nd, lpc := BParent\<rparr>, l)))
      | BSet \<Rightarrow> bind_r (set_next (lbkt th) (lnxt th) l) (\<lambda>l. Inr (th\<lparr>lpc := BCond\<rparr>, l))
      | BCond \<Rightarrow> bind_r (arr_get (buckets l) (unat (lslot th))) (\<lambda>b. Inr (th\<lparr>lpc := (if nullptr = b then BKey else BPub)\<rparr>, l))
      | BKey \<Rightarrow>
          if nullptr = lnxt th then Inr (th\<lparr>lpc := BCas\<rparr>, l)
          else bind_r (deref (lnxt th) l) (\<lambda>n. Inr (th\<lparr>lpc := (if key n \<noteq> lbkey th then BCas else BPub)\<rparr>, l))
      | BCas \<Rightarrow> bind_r (cas_next (lcur th) (lnxt th) (lbkt th) l) (\<lambda>(ok, l).
          Inr (th\<lparr>lpc := (if ok then BPub else BParent)\<rparr>, l))
      | BPub \<Rightarrow> bind_r (arr_get (buckets l) (unat (lslot th))) (\<lambda>b. Inr (th\<lparr>lpc := (if b = nullptr then BNode else BFree)\<rparr>, l))
      | BNode \<Rightarrow> bind_r (next_of (lcur th) l) (\<lambda>n. Inr (th\<lparr>lpc := (if n = lbkt th then BStore else BOther)\<rparr>, l))
      | BStore \<Rightarrow> bind_r (arr_set (buckets l) (unat (lslot th)) (lbkt th)) (\<lambda>bs.
          Inr (th\<lparr>lnxt := lbkt th, lpc := BEnd\<rparr>, l\<lparr>buckets := bs\<rparr>))
      | BOther \<Rightarrow> bind_r (arr_set (buckets l) (unat (lslot th)) (lnxt th)) (\<lambda>bs. Inr (th\<lparr>lpc := BSame\<rparr>, l\<lparr>buckets := bs\<rparr>))
      | BSame \<Rightarrow> bind_r (arr_get (buckets l) (unat (lslot th))) (\<lambda>b. bind_r (deref b l) (\<lambda>nd.
          if key nd \<noteq> lbkey th then Inl AssertFail else Inr (th\<lparr>lpc := BFree\<rparr>, l)))
      | BFree \<Rightarrow> bind_r (delete_cell (lbkt th) l) (\<lambda>l. Inr (th\<lparr>lpc := BEnd\<rparr>, l))
      | BEnd \<Rightarrow> bind_r (arr_get (buckets l) (unat (lslot th))) (\<lambda>b.
          if nullptr = b then Inl AssertFail
          else bind_r (deref b l) (\<lambda>nd.
            if key nd \<noteq> lbkey th then Inl AssertFail else Inr (th\<lparr>lpc := lret th\<rparr>, l)))
      | _ \<Rightarrow> Inr (th, l))"

text \<open>The step of a thread, whichever function it is in.\<close>

definition in_find :: "lpc \<Rightarrow> bool" where
  "in_find pc \<longleftrightarrow> pc \<in> {LBucket, LStart, LNext, LTest, LAdv, LFound}"

definition in_delete :: "lpc \<Rightarrow> bool" where
  "in_delete pc \<longleftrightarrow> pc \<in> {LMark, LUnlink, LDec, LDelete}"

definition in_insert :: "lpc \<Rightarrow> bool" where
  "in_insert pc \<longleftrightarrow> pc \<in> {LNew, LLink, LCas, LInc, LReload, LWalk, LWAdv, LFree}"

definition in_grow :: "lpc \<Rightarrow> bool" where
  "in_grow pc = (case pc of GLoad _ \<Rightarrow> True | GLoop _ \<Rightarrow> True | GCopy _ \<Rightarrow> True
     | _ \<Rightarrow> pc \<in> {LGrow, GFull, GSplit, GCheck, GSize, GZero, GSwap, GPub})"

definition in_parent :: "lpc \<Rightarrow> bool" where
  "in_parent pc = (case pc of BStep _ _ \<Rightarrow> True | BStart _ \<Rightarrow> True | _ \<Rightarrow> pc \<in> {BParent, BNext, BTest, BAdv})"

definition list_step :: "'a allocator \<Rightarrow> 'a solist \<Rightarrow> 'a lthread \<Rightarrow> ('a lthread \<times> 'a solist) res" where
  "list_step A l th =
     (if in_find (lpc th) then bind_r (find_step l th) (\<lambda>th. Inr (th, l))
      else if in_insert (lpc th) then insert_step A l th
      else if in_grow (lpc th) then grow_step A l th
      else if in_delete (lpc th) then delete_step l th
      else if in_parent (lpc th) then bind_r (parent_step l th) (\<lambda>th. Inr (th, l))
      else init_step A l th)"

record 'a lsys =
  lst :: "'a solist"
  lthreads :: "'a lthread list"

definition conc_step :: "'a allocator \<Rightarrow> nat \<Rightarrow> 'a lsys \<Rightarrow> 'a lsys res" where
  "conc_step A t s =
     bind_r (list_step A (lst s) (lthreads s ! t)) (\<lambda>(th, l).
       Inr (s\<lparr>lst := l, lthreads := (lthreads s)[t := th]\<rparr>))"

text \<open>A thread about to call its operation, and the state in which all threads are.\<close>

definition call :: "'a lop \<Rightarrow> 'a lthread" where
  "call p = \<lparr>lop = p, lpc = (case p of OInit b \<Rightarrow> BCheck | _ \<Rightarrow> LNew), lcur = nullptr, lnxt = nullptr, lprv = nullptr,
     lsteps = 0, lnb = 0, lnode = nullptr, lslot = (case p of OInit b \<Rightarrow> b | _ \<Rightarrow> 0), lbkt = nullptr, lbkey = 0,
     lnew = [], lnsz = 0, lret = (case p of OInit b \<Rightarrow> LDone True | _ \<Rightarrow> LStart)\<rparr>"

definition calls :: "'a solist \<Rightarrow> 'a lop list \<Rightarrow> 'a lsys" where
  "calls l ps = \<lparr>lst = l, lthreads = map call ps\<rparr>"

inductive lreach :: "'a allocator \<Rightarrow> 'a lsys \<Rightarrow> 'a lsys \<Rightarrow> bool" for A s0 where
  init: "lreach A s0 s0"
| step: "lreach A s0 s \<Longrightarrow> t < length (lthreads s) \<Longrightarrow> conc_step A t s = Inr s' \<Longrightarrow> lreach A s0 s'"

text \<open>A schedule: the threads whose turn it is, one after the other.\<close>

fun schedule :: "'a allocator \<Rightarrow> nat list \<Rightarrow> 'a lsys \<Rightarrow> 'a lsys res" where
  "schedule A [] s = Inr s"
| "schedule A (t # ts) s = bind_r (conc_step A t s) (schedule A ts)"

end
