(* ===== verification/LockFree.thy ===== *)
theory LockFree
  imports MarkPtr "HOL-Library.Multiset"
begin

text \<open>
  The lock-free push at the head of a linked list, which the program uses three times: for the
  delete nodes (\<open>hazptr_domain::push_delete_node\<close>) and the pools (\<open>hazptr_domain::pools_new\<close>) of
  a hazard pointer domain, and for the nodes of \<open>castest.cpp\<close>. The push is a loop of three atomic
  steps, between which other threads run: read the head, write it to the node, compare and
  exchange the head. What it needs of the word that holds the head is the contract
  \<open>atomic_word\<close>, which a plain pointer and a \<open>mark_ptr_type\<close> both keep.
\<close>

section \<open>Sums over the threads\<close>

lemma sum_list_set:
  "t < length ys \<Longrightarrow> sum_list (map f (ys[t := y])) + f (ys ! t) = sum_list (map f ys) + (f y :: 'b::comm_monoid_add)"
proof (induction ys arbitrary: t)
  case (Cons a ys)
  then show ?case by (cases t) (auto simp: ac_simps)
qed simp

lemma in_sum_list: "x \<in># (\<Sum>y\<leftarrow>ys. f y) \<longleftrightarrow> (\<exists>y\<in>set ys. x \<in># f y)"
  by (induction ys) auto

section \<open>The steps of a push\<close>

record 'w pmem =
  top :: 'w
  link :: "uptr \<Rightarrow> 'w"

text \<open>Where a thread is in the loop: before the load, holding the head it read, before the exchange.\<close>

datatype push_pc = PLoad | PLink uptr | PCas

text \<open>
  The next step of the thread that pushes the node \<open>x\<close>; the loop has ended when no place is
  left. The exchange gets the word of the head, the word of the node with the expected value, and
  the pointer to store; it returns what becomes of the two words.
\<close>

fun push_step :: "('w \<Rightarrow> uptr) \<Rightarrow> ('w \<Rightarrow> uptr \<Rightarrow> 'w) \<Rightarrow> ('w \<Rightarrow> 'w \<Rightarrow> uptr \<Rightarrow> bool \<times> 'w \<times> 'w) \<Rightarrow>
    uptr \<Rightarrow> push_pc \<Rightarrow> 'w pmem \<Rightarrow> push_pc option \<times> 'w pmem" where
  "push_step load assign cas x PLoad m = (Some (PLink (load (top m))), m)"
| "push_step load assign cas x (PLink h) m = (Some PCas, m\<lparr>link := (link m)(x := assign (link m x) h)\<rparr>)"
| "push_step load assign cas x PCas m =
     (case cas (top m) (link m x) x of (ok, w, l) \<Rightarrow>
        (if ok then None else Some PLoad, m\<lparr>top := w, link := (link m)(x := l)\<rparr>))"

section \<open>The list behind the head\<close>

primrec chain :: "('w \<Rightarrow> uptr) \<Rightarrow> (uptr \<Rightarrow> 'w) \<Rightarrow> uptr \<Rightarrow> uptr list \<Rightarrow> bool" where
  "chain load lk h [] \<longleftrightarrow> h = nullptr"
| "chain load lk h (x # xs) \<longleftrightarrow> h = x \<and> x \<noteq> nullptr \<and> chain load lk (load (lk x)) xs"

lemma chain_frame: "x \<notin> set xs \<Longrightarrow> chain load (lk(x := w)) h xs = chain load lk h xs"
  by (induction xs arbitrary: h) auto

lemma chain_null: "chain load lk nullptr xs \<longleftrightarrow> xs = []"
  by (cases xs) auto

lemma chain_nonnull: "chain load lk h xs \<Longrightarrow> nullptr \<notin> set xs"
  by (induction xs arbitrary: h) auto

lemma chain_unique: "chain load lk h xs \<Longrightarrow> chain load lk h ys \<Longrightarrow> xs = ys"
proof (induction xs arbitrary: h ys)
  case Nil
  then show ?case by (cases ys) auto
next
  case (Cons x xs)
  then show ?case by (cases ys) auto
qed

lemma chain_append: "chain load lk h (xs @ y # ys) \<Longrightarrow> chain load lk y (y # ys)"
  by (induction xs arbitrary: h) auto

section \<open>The contract of the head\<close>

locale atomic_word =
  fixes load :: "'w \<Rightarrow> uptr"
    and assign :: "'w \<Rightarrow> uptr \<Rightarrow> 'w"
    and cas :: "'w \<Rightarrow> 'w \<Rightarrow> uptr \<Rightarrow> bool \<times> 'w \<times> 'w"
    and good :: "'w \<Rightarrow> bool"
    and valid :: "uptr \<Rightarrow> bool"
  assumes load_valid: "good w \<Longrightarrow> valid (load w)"
    and assign_ok: "good w \<Longrightarrow> valid p \<Longrightarrow> good (assign w p) \<and> load (assign w p) = p"
    and cas_hit: "good w \<Longrightarrow> good l \<Longrightarrow> valid d \<Longrightarrow> load w = load l \<Longrightarrow>
      \<exists>w'. cas w l d = (True, w', l) \<and> good w' \<and> load w' = d"
    and cas_miss: "good w \<Longrightarrow> good l \<Longrightarrow> load w \<noteq> load l \<Longrightarrow> \<exists>l'. cas w l d = (False, w, l') \<and> good l'"
begin

definition pc_ok :: "push_pc \<Rightarrow> bool" where
  "pc_ok pc = (case pc of PLink h \<Rightarrow> valid h | _ \<Rightarrow> True)"

definition mem_ok :: "'w pmem \<Rightarrow> bool" where
  "mem_ok m \<longleftrightarrow> good (top m) \<and> (\<forall>y. good (link m y))"

text \<open>
  Whatever the thread read before, and whatever the others did since: a step changes no node but
  \<open>x\<close>, and leaves the list alone or puts \<open>x\<close> in front of it. In particular it does not matter
  that the head may have changed and come back between the load and the exchange.
\<close>

lemma push_step_ok:
  assumes m: "mem_ok m" "chain load (link m) (load (top m)) xs"
    and x: "x \<notin> set xs" "x \<noteq> nullptr" "valid x" and pc: "pc_ok pc"
    and st: "push_step load assign cas x pc m = (r, m')"
  shows "mem_ok m'" "\<And>y. y \<noteq> x \<Longrightarrow> link m' y = link m y"
    "r = Some pc' \<Longrightarrow> pc_ok pc' \<and> top m' = top m \<and> chain load (link m') (load (top m')) xs"
    "r = None \<Longrightarrow> chain load (link m') (load (top m')) (x # xs)"
proof -
  have g: "good (top m)" "good (link m y)" for y using m(1) by (simp_all add: mem_ok_def)
  have "mem_ok m' \<and> (\<forall>y. y \<noteq> x \<longrightarrow> link m' y = link m y) \<and>
    (\<forall>pc'. r = Some pc' \<longrightarrow> pc_ok pc' \<and> top m' = top m \<and> chain load (link m') (load (top m')) xs) \<and>
    (r = None \<longrightarrow> chain load (link m') (load (top m')) (x # xs))"
  proof (cases pc)
    case PLoad
    then show ?thesis using st m load_valid [OF g(1)] by (auto simp: pc_ok_def)
  next
    case (PLink h)
    then have "good (assign (link m x) h)" using pc assign_ok [OF g(2)] by (simp add: pc_ok_def)
    then show ?thesis using PLink st m g x(1) by (auto simp: pc_ok_def mem_ok_def chain_frame)
  next
    case PCas
    show ?thesis
    proof (cases "load (top m) = load (link m x)")
      case True
      from cas_hit [OF g x(3) True] obtain w' where "cas (top m) (link m x) x = (True, w', link m x)" "good w'" "load w' = x"
        by blast
      then show ?thesis using PCas st m x True g by (auto simp: mem_ok_def)
    next
      case False
      from cas_miss [OF g False, of x] obtain l' where "cas (top m) (link m x) x = (False, top m, l')" "good l'"
        by blast
      then show ?thesis using PCas st m x g by (auto simp: mem_ok_def pc_ok_def chain_frame)
    qed
  qed
  then show "mem_ok m'" "\<And>y. y \<noteq> x \<Longrightarrow> link m' y = link m y"
    "r = Some pc' \<Longrightarrow> pc_ok pc' \<and> top m' = top m \<and> chain load (link m') (load (top m')) xs"
    "r = None \<Longrightarrow> chain load (link m') (load (top m')) (x # xs)" by blast+
qed

text \<open>A push that nobody interrupts ends after one round.\<close>

lemma push_alone:
  assumes "mem_ok m" "valid x"
  shows "\<exists>m1 m2 m3. push_step load assign cas x PLoad m = (Some (PLink (load (top m))), m1) \<and>
    push_step load assign cas x (PLink (load (top m))) m1 = (Some PCas, m2) \<and>
    push_step load assign cas x PCas m2 = (None, m3) \<and> load (top m3) = x \<and> load (link m3 x) = load (top m)"
proof -
  let ?l = "assign (link m x) (load (top m))"
  have l: "good ?l" "load ?l = load (top m)" "good (top m)"
    using assms(1) assign_ok load_valid by (auto simp: mem_ok_def)
  from cas_hit [OF l(3,1) assms(2)] l(2) obtain w' where "cas (top m) ?l x = (True, w', ?l)" "load w' = x" by auto
  then show ?thesis using l(2) by simp
qed

end

section \<open>The two words of the program\<close>

text \<open>A plain pointer with \<open>__atomic_compare_exchange(&head, &node->next, &node)\<close>.\<close>

interpretation raw: atomic_word "\<lambda>w. w" "\<lambda>w p. p" atomic_compare_exchange "\<lambda>_. True" "\<lambda>_. True"
  by unfold_locales (auto simp: atomic_compare_exchange_def)

text \<open>A \<open>mark_ptr_type\<close> without a mark: \<open>head.next.CAS(node.next(), node)\<close>.\<close>

definition mp_head_CAS :: "uptr \<Rightarrow> uptr \<Rightarrow> uptr \<Rightarrow> bool \<times> uptr \<times> uptr" where
  "mp_head_CAS w l d = (case mp_CAS w (mp_load l) d of (ok, w') \<Rightarrow> (ok, w', l))"

interpretation mp: atomic_word mp_load mp_assign mp_head_CAS aligned_ptr aligned_ptr
proof unfold_locales
  fix w p :: uptr
  assume wp: "aligned_ptr w" "aligned_ptr p"
  have "mp_assign w p = p" using wp by (simp add: mp_assign_def aligned_ptr_def)
  then show "aligned_ptr (mp_assign w p) \<and> mp_load (mp_assign w p) = p" using wp by simp
next
  fix w l d :: uptr
  assume "aligned_ptr w" "aligned_ptr l" "aligned_ptr d" "mp_load w = mp_load l"
  then show "\<exists>w'. mp_head_CAS w l d = (True, w', l) \<and> aligned_ptr w' \<and> mp_load w' = d"
    by (simp add: mp_head_CAS_def mp_CAS_def atomic_compare_exchange_def)
next
  fix w l d :: uptr
  assume "aligned_ptr w" "aligned_ptr l" "mp_load w \<noteq> mp_load l"
  then show "\<exists>l'. mp_head_CAS w l d = (False, w, l') \<and> aligned_ptr l'"
    by (simp add: mp_head_CAS_def mp_CAS_def atomic_compare_exchange_def)
qed simp

end
