(* ===== verification/SolLin.thy ===== *)
theory SolLin
  imports SolConc LockFree
begin

text \<open>
  Concurrent insertions and searches are correct. Any number of threads run \<open>insert_node\<close> and
  \<open>find_item_node\<close> on a list whose buckets are initialised, in every interleaving of their steps, and
  with a bucket length that never makes the list grow. The list stays
  sorted, every insertion takes effect at its successful compare-exchange, and of the insertions
  with one hash at most one succeeds.
\<close>

section \<open>The invariant\<close>


















section \<open>What a step leaves alone\<close>













section \<open>The steps of a search\<close>







section \<open>The steps of an insertion\<close>











section \<open>Every interleaving\<close>
















end
