(* ===== verification/SolRace.thy ===== *)
theory SolRace
  imports SolConc
begin

text \<open>
  Schedules under which the operations of the split-ordered list fail each other: a bucket
  that is initialised while a node is inserted in front of it, a search that meets a node another
  thread deletes, a node that is marked but never unlinked, and threads that expand the table at once.
\<close>

definition race_new :: "string allocator" where
  "race_new = bump_new 0x80000000"

text \<open>A list of four buckets of which the first is initialised, empty or with the item of hash 7.\<close>

definition race_empty :: "string solist" where
  "race_empty = \<lparr>cells = [16 \<mapsto> \<lparr>hashv = 0, key = 0, next_ref = 0, payload = None\<rparr>], allocs = 1,
     n_buckets = 4, max_bucket_length = 4, n_items = 0, buckets = [16, 0, 0, 0]\<rparr>"

definition race_seven :: "string solist" where
  "race_seven = \<lparr>cells = [16 \<mapsto> \<lparr>hashv = 0, key = 0, next_ref = 32, payload = None\<rparr>,
       32 \<mapsto> \<lparr>hashv = 7, key = 0xE0000001, next_ref = 0, payload = Some ''seven''\<rparr>], allocs = 2,
     n_buckets = 4, max_bucket_length = 4, n_items = 1, buckets = [16, 0, 0, 0]\<rparr>"

definition race_one :: "string solist" where
  "race_one = \<lparr>cells = [16 \<mapsto> \<lparr>hashv = 0, key = 0, next_ref = 32, payload = None\<rparr>,
       32 \<mapsto> \<lparr>hashv = 4, key = 0x20000001, next_ref = 0, payload = Some ''four''\<rparr>], allocs = 2,
     n_buckets = 1, max_bucket_length = 4, n_items = 1, buckets = [16]\<rparr>"


text \<open>The same with buckets of one node at most, so that an insertion makes the table grow.\<close>

definition race_crowd :: "string solist" where
  "race_crowd = race_one\<lparr>max_bucket_length := 1\<rparr>"

text \<open>
  The third schedule: thread 0 deletes the item of hash 4 and has marked its node when thread 1
  inserts a node in front of it; the unlinking then fails. \<open>stuck_list\<close> is the list it leaves, and
  \<open>stuck_at\<close> thread 0 in the round that follows, by the number of steps it did in it.
\<close>

definition stuck_list :: "string solist" where
  "stuck_list = \<lparr>cells = [16 \<mapsto> \<lparr>hashv = 0, key = 0, next_ref = 48, payload = None\<rparr>,
       32 \<mapsto> \<lparr>hashv = 4, key = 0x20000001, next_ref = 1, payload = Some ''four''\<rparr>,
       48 \<mapsto> \<lparr>hashv = 0, key = 1, next_ref = 32, payload = Some ''zero''\<rparr>], allocs = 3,
     n_buckets = 1, max_bucket_length = 4, n_items = 1, buckets = [16]\<rparr>"

definition stuck :: "lpc \<Rightarrow> uptr \<Rightarrow> uptr \<Rightarrow> uptr \<Rightarrow> u32 \<Rightarrow> string lthread" where
  "stuck pc p c n k = (call (ODelete 4))\<lparr>lpc := pc, lprv := p, lcur := c, lnxt := n, lsteps := k\<rparr>"

definition stuck_at :: "nat \<Rightarrow> string lthread" where
  "stuck_at i = [stuck LBucket 48 32 0 2, stuck LStart 48 32 0 2, stuck LNext 16 16 0 2, stuck LTest 16 16 48 0, stuck LAdv 16 48 48 0,
     stuck LTest 16 48 32 1, stuck LAdv 48 32 32 1, stuck LTest 48 32 0 2, stuck LFound 48 32 0 2, stuck LMark 48 32 0 2] ! (i mod 10)"

lemma node_keys: "sol_node_key 4 = 0x20000001" "sol_node_key 0 = 1"
proof -
  show "sol_node_key 0 = 1" by (simp add: sol_node_key_def hrev.rev_0 DATABIT_def)
  show "sol_node_key 4 = 0x20000001"
  proof (rule bit_word_eqI)
    fix n assume "n < LENGTH(32)"
    then have "n < 32" by simp
    then show "bit (sol_node_key 4) n \<longleftrightarrow> bit (0x20000001 :: u32) n"
      by (rule less_32_cases) (simp_all add: bit_sol_node_key)
  qed
qed

lemma stuck_list_simps:
  "buckets stuck_list = [16]" "n_buckets stuck_list = 1"
  "deref 16 stuck_list = Inr \<lparr>hashv = 0, key = 0, next_ref = 48, payload = None\<rparr>"
  "deref 32 stuck_list = Inr \<lparr>hashv = 4, key = 0x20000001, next_ref = 1, payload = Some ''four''\<rparr>"
  "deref 48 stuck_list = Inr \<lparr>hashv = 0, key = 1, next_ref = 32, payload = Some ''zero''\<rparr>"
  by (simp_all add: stuck_list_def)

lemma stuck_list_next: "next_of 16 stuck_list = Inr 48" "next_of 48 stuck_list = Inr 32" "next_of 32 stuck_list = Inr 0"
  by (simp_all add: next_of_def stuck_list_simps mp_load_def mark_bits_maskoff_def mark_bits_mask_def)

lemma stuck_list_mark: "cas_next_mark 32 0 0 True stuck_list = Inr (False, stuck_list)"
proof -
  have "(cells stuck_list)(32 \<mapsto> \<lparr>hashv = 4, key = 0x20000001, next_ref = 1, payload = Some ''four''\<rparr>) = cells stuck_list"
    by (rule fun_upd_idem) (simp add: stuck_list_def)
  then show ?thesis
    by (simp add: cas_next_mark_def stuck_list_simps mp_CAS_des_mark_def atomic_compare_exchange_def)
qed

lemma stuck_find:
  "list_step A stuck_list (stuck LBucket p c n k) = Inr (stuck LStart p c n k, stuck_list)"
  "list_step A stuck_list (stuck LStart p c n k) = Inr (stuck LNext 16 16 n k, stuck_list)"
  "next_of c stuck_list = Inr m \<Longrightarrow> list_step A stuck_list (stuck LNext p c n k) = Inr (stuck LTest p c m 0, stuck_list)"
  "next_of c stuck_list = Inr m \<Longrightarrow> list_step A stuck_list (stuck LAdv p c n k) = Inr (stuck LTest p c m (k + 1), stuck_list)"
  by (simp_all add: list_step_def in_find_def find_step_def stuck_def call_def stuck_list_simps)

lemma stuck_test:
  "list_step A stuck_list (stuck LTest p c 48 k) = Inr (stuck LAdv c 48 48 k, stuck_list)"
  "list_step A stuck_list (stuck LTest p c 32 k) = Inr (stuck LAdv c 32 32 k, stuck_list)"
  "list_step A stuck_list (stuck LTest p c 0 k) = Inr (stuck LFound p c 0 k, stuck_list)"
  by (simp_all add: list_step_def in_find_def find_step_def stuck_def call_def stuck_list_simps node_keys)

lemma stuck_end:
  "list_step A stuck_list (stuck LFound p 32 n k) = Inr (stuck LMark p 32 n k, stuck_list)"
  "list_step A stuck_list (stuck LMark p 32 0 k) = Inr (stuck LBucket p 32 0 k, stuck_list)"
  by (simp_all add: list_step_def in_find_def in_insert_def in_grow_def in_delete_def find_step_def delete_step_def after_find_def
      stuck_def call_def stuck_list_simps stuck_list_mark node_keys)

lemma less_10_cases:
  assumes "n < 10" "P 0" "P 1" "P 2" "P 3" "P 4" "P 5" "P 6" "P 7" "P 8" "P 9"
  shows "P (n::nat)"
proof -
  have "n \<in> set [0..<10]" using assms(1) by simp
  also have "[0..<10] = [0,1,2,3,4,5,6,7,8,9::nat]" by (simp add: upt_rec)
  finally show ?thesis using assms(2-) by auto
qed

lemma stuck_step: "list_step A stuck_list (stuck_at i) = Inr (stuck_at (Suc i), stuck_list)"
proof -
  have "list_step A stuck_list (stuck_at j) = Inr (stuck_at (Suc j), stuck_list)" if "j < 10" for j
    using that by (rule less_10_cases) (simp_all add: stuck_at_def stuck_find stuck_test stuck_end stuck_list_next)
  from this [of "i mod 10"] show ?thesis by (simp add: stuck_at_def mod_Suc_eq)
qed

lemma stuck_pc: "lpc (stuck_at i) \<noteq> LDone b"
proof -
  have "lpc (stuck_at (i mod 10)) \<noteq> LDone b"
    by (rule less_10_cases [of "i mod 10"]) (simp_all add: stuck_at_def stuck_def)
  then show ?thesis by (simp add: stuck_at_def)
qed

lemma stuck_forever:
  "lst s = stuck_list \<Longrightarrow> lthreads s = stuck_at i # ts \<Longrightarrow>
   schedule A (replicate n 0) s = Inr (s\<lparr>lthreads := stuck_at (i + n) # ts\<rparr>)"
proof (induction n arbitrary: s i)
  case (Suc n)
  then have "conc_step A 0 s = Inr (s\<lparr>lthreads := stuck_at (Suc i) # ts\<rparr>)"
    by (simp add: conc_step_def stuck_step)
  with Suc show ?case by simp
qed simp

lemma schedule_append: "schedule A (ts @ us) s = bind_r (schedule A ts s) (schedule A us)"
proof (induction ts arbitrary: s)
  case (Cons t ts)
  then have "schedule A (ts @ us) = (\<lambda>s. bind_r (schedule A ts s) (schedule A us))" by (intro ext)
  then show ?case by (simp add: bind_r_assoc)
qed simp

definition marked_list :: "string solist" where
  "marked_list = \<lparr>cells = [16 \<mapsto> \<lparr>hashv = 0, key = 0, next_ref = 32, payload = None\<rparr>,
       32 \<mapsto> \<lparr>hashv = 4, key = 0x20000001, next_ref = 1, payload = Some ''four''\<rparr>], allocs = 2,
     n_buckets = 1, max_bucket_length = 4, n_items = 1, buckets = [16]\<rparr>"

lemmas race_steps = calls_def conc_step_def list_step_def in_find_def in_insert_def in_grow_def in_delete_def find_step_def
  insert_step_def delete_step_def call_def stuck_def deref_def next_of_def mp_load_def mark_bits_maskoff_def mark_bits_mask_def
  node_keys after_find_def atomic_compare_exchange_def

lemma race_marked: "schedule race_new [0, 0, 0, 0, 0, 0, 0, 0, 0] (calls race_one [ODelete 4, OInsert 0 ''zero'']) =
   Inr \<lparr>lst = marked_list, lthreads = [stuck LUnlink 16 32 0 1, call (OInsert 0 ''zero'')]\<rparr>"
  by (simp add: race_steps race_one_def cas_next_mark_def mp_CAS_des_mark_def marked_list_def cong: bind_weak_cong)

lemma race_inserted: "\<exists>th. schedule race_new [1, 1, 1, 1, 1, 1, 1, 1] \<lparr>lst = marked_list, lthreads = [th0, call (OInsert 0 ''zero'')]\<rparr> =
   Inr \<lparr>lst = stuck_list, lthreads = [th0, th]\<rparr>"
proof -
  have "solist_node_ctor ''zero'' 0 = Inr \<lparr>hashv = 0, key = 1, next_ref = 0, payload = Some ''zero''\<rparr>"
    using solist_node_ctor_eq [of 0 "''zero''"] by (simp add: node_keys mp_init_def)
  moreover have "\<not> (0x20000001 :: u32) \<le> 1" by (simp add: word_le_nat_alt)
  ultimately show ?thesis
    by (simp add: race_steps marked_list_def stuck_list_def new_cell_def race_new_def bump_new_def aligned_ptr_iff
        set_next_def cas_next_def mp_assign_def mp_CAS_def cong: bind_weak_cong)
      (simp add: fun_eq_iff)
qed

lemma race_retry: "schedule A [0, 0, 0, 0] \<lparr>lst = stuck_list, lthreads = [stuck LUnlink 16 32 0 1, th]\<rparr> =
   Inr \<lparr>lst = stuck_list, lthreads = [stuck_at 3, th]\<rparr>"
proof -
  have "(cells stuck_list)(16 \<mapsto> \<lparr>hashv = 0, key = 0, next_ref = 48, payload = None\<rparr>) = cells stuck_list"
    by (rule fun_upd_idem) (simp add: stuck_list_def)
  then have "cas_next 16 32 0 stuck_list = Inr (False, stuck_list)"
    by (simp add: cas_next_def stuck_list_simps mp_CAS_def atomic_compare_exchange_def)
  then have "list_step A stuck_list (stuck LUnlink 16 32 0 1) = Inr (stuck LBucket 16 32 0 1, stuck_list)"
    by (simp add: list_step_def in_find_def in_insert_def in_grow_def in_delete_def delete_step_def stuck_def call_def)
  then show ?thesis
    by (simp add: conc_step_def stuck_find stuck_list_next stuck_at_def cong: bind_weak_cong)
qed

lemma race_states:
  "sol_rel race_empty Map.empty" "sol_rel race_seven [7 \<mapsto> ''seven'']" "sol_rel race_one [4 \<mapsto> ''four'']"
  "sol_rel race_crowd [4 \<mapsto> ''four'']"
proof -
  have al: "aligned_ptr 16" "aligned_ptr 32" by (simp_all add: aligned_ptr_iff)
  have four: "4 = (2 :: u32) ^ 2" and one: "1 = (2 :: u32) ^ 0" by simp_all
  have seven: "sol_node_key 7 = 0xE0000001"
  proof (rule bit_word_eqI)
    fix n assume "n < LENGTH(32)"
    then have "n < 32" by simp
    then show "bit (sol_node_key 7) n \<longleftrightarrow> bit (0xE0000001 :: u32) n"
      by (rule less_32_cases) (simp_all add: bit_sol_node_key)
  qed
  show "sol_rel race_empty Map.empty"
    by (rule sol_relI [of _ "[16]"])
      (auto simp: sol_wf_def list_ok_def table_ok_def node_ok_def race_empty_def al hrev.rev_0 nth_Cons' items_def
        intro: exI [of _ 2] split: if_splits)
  show "sol_rel race_seven [7 \<mapsto> ''seven'']"
    by (rule sol_relI [of _ "[16, 32]"])
      (auto simp: sol_wf_def list_ok_def table_ok_def node_ok_def race_seven_def al hrev.rev_0 nth_Cons' items_def seven
        intro: exI [of _ 2] split: if_splits)
  show one_item: "sol_rel race_one [4 \<mapsto> ''four'']"
    by (rule sol_relI [of _ "[16, 32]"])
      (auto simp: sol_wf_def list_ok_def table_ok_def node_ok_def race_one_def al hrev.rev_0 nth_Cons' items_def node_keys
        intro: exI [of _ 0] split: if_splits)
  then show "sol_rel race_crowd [4 \<mapsto> ''four'']" by (simp add: race_crowd_def sol_rel_def sol_wf_def)
qed

section \<open>The races\<close>


text \<open>C30: deleting is not safe beside the other operations, which hold no hazard pointers. A search that
  read a pointer to a node reads the node after another thread deleted it. And when
  a node is inserted between \<open>prev\<close> and a node that was just marked, the unlinking fails, the mark
  keeps every later attempt from succeeding, and \<open>delete_node\<close> never returns, although
  no other thread runs any more.\<close>

theorem delete_races:
  "sol_rel race_one [4 \<mapsto> ''four''] \<and>
   schedule race_new (replicate 4 0 @ replicate 13 1 @ [0]) (calls race_one [OFind 4, ODelete 4]) = Inl BadAccess \<and>
   (\<exists>s. schedule race_new (replicate 9 0 @ replicate 8 1 @ replicate 4 0) (calls race_one [ODelete 4, OInsert 0 ''zero'']) = Inr s \<and>
     (\<forall>n. \<exists>s'. schedule race_new (replicate n 0) s = Inr s' \<and> (\<forall>b. lpc (lthreads s' ! 0) \<noteq> LDone b)))"
proof (intro conjI race_states)
  show "schedule race_new (replicate 4 0 @ replicate 13 1 @ [0]) (calls race_one [OFind 4, ODelete 4]) = Inl BadAccess"
    by code_simp
  have r: "replicate 9 (0::nat) = [0, 0, 0, 0, 0, 0, 0, 0, 0]" "replicate 8 (1::nat) = [1, 1, 1, 1, 1, 1, 1, 1]"
    "replicate 4 (0::nat) = [0, 0, 0, 0]" by (simp_all add: eval_nat_numeral)
  obtain th where th: "schedule race_new [1, 1, 1, 1, 1, 1, 1, 1] \<lparr>lst = marked_list, lthreads = [stuck LUnlink 16 32 0 1, call (OInsert 0 ''zero'')]\<rparr> =
     Inr \<lparr>lst = stuck_list, lthreads = [stuck LUnlink 16 32 0 1, th]\<rparr>" using race_inserted by blast
  let ?s = "\<lparr>lst = stuck_list, lthreads = [stuck_at 3, th]\<rparr>"
  have "schedule race_new (replicate 9 0 @ replicate 8 1 @ replicate 4 0) (calls race_one [ODelete 4, OInsert 0 ''zero'']) = Inr ?s"
    unfolding schedule_append r race_marked bind_r_simps th by (rule race_retry)
  moreover have "schedule race_new (replicate n 0) ?s = Inr (?s\<lparr>lthreads := [stuck_at (3 + n), th]\<rparr>)" for n
    by (rule stuck_forever) simp_all
  ultimately show "\<exists>s. schedule race_new (replicate 9 0 @ replicate 8 1 @ replicate 4 0) (calls race_one [ODelete 4, OInsert 0 ''zero'']) = Inr s \<and>
     (\<forall>n. \<exists>s'. schedule race_new (replicate n 0) s = Inr s' \<and> (\<forall>b. lpc (lthreads s' ! 0) \<noteq> LDone b))"
    by (auto simp: stuck_pc)
qed


end
