(* ===== verification/SolSolo.thy ===== *)
theory SolSolo
  imports SolConc
begin

text \<open>
  What a thread does when no other thread runs: the steps of \<open>SolConc\<close> from a call to its return
  amount to the operation of \<open>Solist\<close>, result and failure alike. It follows that an operation that is
  not disturbed returns, with the answer of a finite map.
\<close>

section \<open>A thread alone\<close>

type_synonym 'a conf = "'a lthread \<times> 'a solist"

text \<open>
  \<open>leads A Q c r\<close>: from \<open>c\<close> on, the thread alone reaches the failure \<open>r\<close>, or a place that \<open>Q\<close>
  admits for the value \<open>r\<close>. Nothing is said when \<open>r\<close> ran out of fuel, which the steps do not need.
\<close>

inductive leads :: "'a allocator \<Rightarrow> ('x \<Rightarrow> 'a conf \<Rightarrow> bool) \<Rightarrow> 'a conf \<Rightarrow> 'x res \<Rightarrow> bool" for A Q where
  here: "Q x c \<Longrightarrow> leads A Q c (Inr x)"
| fuel: "leads A Q c (Inl NoFuel)"
| fails: "list_step A l th = Inl e \<Longrightarrow> leads A Q (th, l) (Inl e)"
| more: "list_step A l th = Inr c \<Longrightarrow> leads A Q c r \<Longrightarrow> leads A Q (th, l) r"

lemma leads_bind:
  assumes "leads A Q c r" and "\<And>x c'. Q x c' \<Longrightarrow> leads A R c' (K x)"
  shows "leads A R c (bind_r r K)"
  using assms(1) by induction (auto intro: leads.intros assms(2))

lemma leads_mono: "leads A Q c r \<Longrightarrow> (\<And>x c'. Q x c' \<Longrightarrow> R x c') \<Longrightarrow> leads A R c r"
  by (induction rule: leads.induct) (auto intro: leads.intros)

lemma leads_step:
  assumes "\<And>e. q = Inl e \<Longrightarrow> list_step A l th = Inl e" and "\<And>x. q = Inr x \<Longrightarrow> list_step A l th = Inr (k x)"
    and "\<And>x. q = Inr x \<Longrightarrow> leads A Q (k x) (K x)"
  shows "leads A Q (th, l) (bind_r q K)"
  using assms by (cases q) (auto intro: leads.intros)

lemma leads_done: "list_step A l th = Inr c \<Longrightarrow> Q x c \<Longrightarrow> leads A Q (th, l) (Inr x)"
  by (blast intro: leads.intros)

lemma leads_schedule:
  assumes "leads A Q c r" "c = (lthreads s ! t, lst s)" "t < length (lthreads s)" "r \<noteq> Inl NoFuel"
  shows "\<exists>n. case r of Inl e \<Rightarrow> schedule A (replicate n t) s = Inl e
    | Inr x \<Rightarrow> (\<exists>th l. Q x (th, l) \<and> schedule A (replicate n t) s = Inr (s\<lparr>lst := l, lthreads := (lthreads s)[t := th]\<rparr>))"
  using assms
proof (induction arbitrary: s)
  case (here x c)
  then show ?case by (intro exI [of _ 0]) (auto intro!: exI [of _ "lthreads s ! t"] exI [of _ "lst s"])
next
  case (fails l th e)
  then show ?case by (intro exI [of _ 1]) (simp add: conc_step_def)
next
  case (more l th c r)
  obtain th' l' where c: "c = (th', l')" by (cases c)
  let ?s = "s\<lparr>lst := l', lthreads := (lthreads s)[t := th']\<rparr>"
  from more c have step: "conc_step A t s = Inr ?s" by (simp add: conc_step_def)
  from more.IH [of ?s] more.prems c obtain n where
    n: "case r of Inl e \<Rightarrow> schedule A (replicate n t) ?s = Inl e
      | Inr x \<Rightarrow> (\<exists>th l. Q x (th, l) \<and> schedule A (replicate n t) ?s = Inr (?s\<lparr>lst := l, lthreads := (lthreads ?s)[t := th]\<rparr>))"
    by auto
  show ?case using n by (intro exI [of _ "Suc n"]) (auto simp: step split: sum.split_asm)
qed simp

section \<open>Where a thread stands\<close>

text \<open>The thread is at \<open>pc\<close>, its cursor and the list are those of \<open>s\<close>; its call is that of \<open>th\<close>.\<close>

definition stands :: "lpc \<Rightarrow> 'a lthread \<Rightarrow> 'a accessor \<Rightarrow> 'a conf \<Rightarrow> bool" where
  "stands pc th s c \<longleftrightarrow> lpc (fst c) = pc \<and> lcur (fst c) = cur s \<and> lnxt (fst c) = nxt s \<and> lprv (fst c) = prv s \<and>
     lsteps (fst c) = steps s \<and> snd c = solist.truncate s \<and>
     lop (fst c) = lop th \<and> lnb (fst c) = lnb th \<and> lnode (fst c) = lnode th \<and> lret (fst c) = lret th"

text \<open>The same inside \<open>initialise_bucket\<close>, with its slot, its node and its key.\<close>

definition inside :: "lpc \<Rightarrow> 'a lthread \<Rightarrow> u32 \<Rightarrow> uptr \<Rightarrow> u32 \<Rightarrow> 'a accessor \<Rightarrow> 'a conf \<Rightarrow> bool" where
  "inside pc th slot node k s c \<longleftrightarrow> stands pc th s c \<and> lslot (fst c) = slot \<and> lbkt (fst c) = node \<and> lbkey (fst c) = k"

lemma stands_at [simp]:
  "stands pc th s (th', l) \<longleftrightarrow> lpc th' = pc \<and> lcur th' = cur s \<and> lnxt th' = nxt s \<and> lprv th' = prv s \<and> lsteps th' = steps s \<and>
     l = solist.truncate s \<and> lop th' = lop th \<and> lnb th' = lnb th \<and> lnode th' = lnode th \<and> lret th' = lret th"
  by (simp add: stands_def)

lemma inside_at [simp]:
  "inside pc th slot node k s (th', l) \<longleftrightarrow> stands pc th s (th', l) \<and> lslot th' = slot \<and> lbkt th' = node \<and> lbkey th' = k"
  by (simp add: inside_def)

lemmas which_step = list_step_def in_find_def in_insert_def in_grow_def in_delete_def in_parent_def

lemma trunc_simps [simp]:
  "cells (solist.truncate s) = cells s" "allocs (solist.truncate s) = allocs s" "n_buckets (solist.truncate s) = n_buckets s"
  "max_bucket_length (solist.truncate s) = max_bucket_length s" "n_items (solist.truncate s) = n_items s"
  "buckets (solist.truncate s) = buckets s"
  by (simp_all add: solist.defs)

lemma trunc_upd:
  "(solist.truncate s)\<lparr>cells := c\<rparr> = solist.truncate (s\<lparr>cells := c\<rparr>)"
  "(solist.truncate s)\<lparr>allocs := n\<rparr> = solist.truncate (s\<lparr>allocs := n\<rparr>)"
  "(solist.truncate s)\<lparr>buckets := b\<rparr> = solist.truncate (s\<lparr>buckets := b\<rparr>)"
  "(solist.truncate s)\<lparr>n_buckets := k\<rparr> = solist.truncate (s\<lparr>n_buckets := k\<rparr>)"
  "(solist.truncate s)\<lparr>n_items := k\<rparr> = solist.truncate (s\<lparr>n_items := k\<rparr>)"
  by (simp_all add: solist.defs)

lemma deref_trunc [simp]: "deref p (solist.truncate s) = deref p s" "next_of p (solist.truncate s) = next_of p s"
  by (simp_all add: deref_def next_of_def)

lemma deref_cursor [simp]:
  fixes s :: "'a accessor"
  shows "deref p (s\<lparr>cur := a\<rparr>) = deref p s" "deref p (s\<lparr>nxt := a\<rparr>) = deref p s" "deref p (s\<lparr>prv := a\<rparr>) = deref p s"
    "deref p (s\<lparr>steps := n\<rparr>) = deref p s" "next_of p (s\<lparr>cur := a\<rparr>) = next_of p s" "next_of p (s\<lparr>nxt := a\<rparr>) = next_of p s"
    "next_of p (s\<lparr>prv := a\<rparr>) = next_of p s" "next_of p (s\<lparr>steps := n\<rparr>) = next_of p s"
  by (simp_all add: deref_def next_of_def)

lemma trunc_cursor [simp]:
  fixes s :: "'a accessor"
  shows "solist.truncate (s\<lparr>cur := a\<rparr>) = solist.truncate s" "solist.truncate (s\<lparr>nxt := a\<rparr>) = solist.truncate s"
    "solist.truncate (s\<lparr>prv := a\<rparr>) = solist.truncate s" "solist.truncate (s\<lparr>steps := n\<rparr>) = solist.truncate s"
  by (simp_all add: solist.defs)

section \<open>The walks\<close>

lemma scan_step:
  "nxt s \<noteq> nullptr \<Longrightarrow> scan (Suc f) P cnt s = bind_r (deref (nxt s) s) (\<lambda>nd.
     if P nd then bind_r (next_of (nxt s) s) (\<lambda>n.
       scan f P cnt (s\<lparr>prv := cur s, cur := nxt s, nxt := n, steps := steps s + (if cnt then 1 else 0)\<rparr>))
     else Inr (True, s))"
  by (cases "deref (nxt s) s"; cases "next_of (nxt s) s") (simp_all add: advance_def)

lemma walk_leads:
  assumes T: "\<And>th' l. lpc th' = pT \<Longrightarrow> lop th' = lop th \<Longrightarrow> lbkey th' = k \<Longrightarrow> list_step A l th' =
      (if lnxt th' = nullptr then Inr (th'\<lparr>lpc := pF\<rparr>, l) else bind_r (deref (lnxt th') l) (\<lambda>nd.
         Inr (if P nd then th'\<lparr>lprv := lcur th', lcur := lnxt th', lpc := pA\<rparr> else th'\<lparr>lpc := pF\<rparr>, l)))"
    and N: "\<And>th' l. lpc th' = pA \<Longrightarrow> list_step A l th' = bind_r (next_of (lcur th') l) (\<lambda>n.
         Inr (if cnt then th'\<lparr>lnxt := n, lsteps := lsteps th' + 1, lpc := pT\<rparr> else th'\<lparr>lnxt := n, lpc := pT\<rparr>, l))"
  shows "inside pT th slot node k s c \<Longrightarrow> leads A (\<lambda>(ok, s') c'. ok \<and> inside pF th slot node k s' c') c (scan f P cnt s)"
proof (induction f arbitrary: s c)
  case 0
  show ?case by (simp add: leads.fuel)
next
  case (Suc f)
  obtain th' l where c: "c = (th', l)" by (cases c)
  note st = Suc.prems [unfolded c, simplified]
  have T': "list_step A l th' = (if lnxt th' = nullptr then Inr (th'\<lparr>lpc := pF\<rparr>, l) else bind_r (deref (lnxt th') l) (\<lambda>nd.
         Inr (if P nd then th'\<lparr>lprv := lcur th', lcur := lnxt th', lpc := pA\<rparr> else th'\<lparr>lpc := pF\<rparr>, l)))"
    using st by (intro T) simp_all
  show ?case
  proof (cases "nxt s = nullptr")
    case True
    show ?thesis unfolding c scan.simps if_P [OF True]
      by (rule leads_done [where c = "(th'\<lparr>lpc := pF\<rparr>, l)"]) (use st True T' in \<open>auto\<close>)
  next
    case False
    let ?th = "th'\<lparr>lprv := lcur th', lcur := lnxt th', lpc := pA\<rparr>"
    let ?s = "\<lambda>n. s\<lparr>prv := cur s, cur := nxt s, nxt := n, steps := steps s + (if cnt then 1 else 0)\<rparr>"
    have go: "leads A (\<lambda>(ok, s') c'. ok \<and> inside pF th slot node k s' c') (?th, l) (bind_r (next_of (nxt s) s) (\<lambda>n. scan f P cnt (?s n)))"
    proof (rule leads_step [where k = "\<lambda>n. (if cnt then ?th\<lparr>lnxt := n, lsteps := lsteps ?th + 1, lpc := pT\<rparr> else ?th\<lparr>lnxt := n, lpc := pT\<rparr>, l)"])
      show "leads A (\<lambda>(ok, s') c'. ok \<and> inside pF th slot node k s' c')
        (if cnt then ?th\<lparr>lnxt := n, lsteps := lsteps ?th + 1, lpc := pT\<rparr> else ?th\<lparr>lnxt := n, lpc := pT\<rparr>, l) (scan f P cnt (?s n))" for n
        by (rule Suc.IH) (use st in simp)
    qed (use st N [of ?th l] in simp_all)
    show ?thesis unfolding c scan_step [OF False]
      by (rule leads_step [where k = "\<lambda>nd. (if P nd then ?th else th'\<lparr>lpc := pF\<rparr>, l)"])
        (use st T' False go in \<open>auto intro: leads.here\<close>)
  qed
qed

lemma find_scan:
  assumes "inside LTest th slot node k s c" "h = op_hash (lop th)"
  shows "leads A (\<lambda>(ok, s') c'. ok \<and> inside LFound th slot node k s' c') c (scan f (\<lambda>nd. key nd \<le> sol_node_key h) True s)"
proof (rule walk_leads [OF _ _ assms(1), where pA = LAdv])
  fix th' :: "'a lthread" and l :: "'a solist"
  show "lpc th' = LTest \<Longrightarrow> lop th' = lop th \<Longrightarrow> list_step A l th' =
      (if lnxt th' = nullptr then Inr (th'\<lparr>lpc := LFound\<rparr>, l) else bind_r (deref (lnxt th') l) (\<lambda>nd.
         Inr (if key nd \<le> sol_node_key h then th'\<lparr>lprv := lcur th', lcur := lnxt th', lpc := LAdv\<rparr> else th'\<lparr>lpc := LFound\<rparr>, l)))"
    by (cases "deref (lnxt th') l") (simp_all add: which_step find_step_def assms(2))
  show "lpc th' = LAdv \<Longrightarrow> list_step A l th' = bind_r (next_of (lcur th') l) (\<lambda>n.
         Inr (if True then th'\<lparr>lnxt := n, lsteps := lsteps th' + 1, lpc := LTest\<rparr> else th'\<lparr>lnxt := n, lpc := LTest\<rparr>, l))"
    by (cases "next_of (lcur th') l") (simp_all add: which_step find_step_def)
qed

lemma parent_scan:
  assumes "inside BTest th slot node k s c"
  shows "leads A (\<lambda>(ok, s') c'. ok \<and> inside BSet th slot node k s' c') c (scan f (\<lambda>nd. key nd < k) False s)"
proof (rule walk_leads [OF _ _ assms, where pA = BAdv])
  fix th' :: "'a lthread" and l :: "'a solist"
  show "lpc th' = BTest \<Longrightarrow> lbkey th' = k \<Longrightarrow> list_step A l th' =
      (if lnxt th' = nullptr then Inr (th'\<lparr>lpc := BSet\<rparr>, l) else bind_r (deref (lnxt th') l) (\<lambda>nd.
         Inr (if key nd < k then th'\<lparr>lprv := lcur th', lcur := lnxt th', lpc := BAdv\<rparr> else th'\<lparr>lpc := BSet\<rparr>, l)))"
    by (cases "deref (lnxt th') l") (simp_all add: which_step parent_step_def)
  show "lpc th' = BAdv \<Longrightarrow> list_step A l th' = bind_r (next_of (lcur th') l) (\<lambda>n.
         Inr (if False then th'\<lparr>lnxt := n, lsteps := lsteps th' + 1, lpc := BTest\<rparr> else th'\<lparr>lnxt := n, lpc := BTest\<rparr>, l))"
    by (cases "next_of (lcur th') l") (simp_all add: which_step parent_step_def)
qed

lemma insert_scan:
  assumes "inside LWalk th slot node k s c"
  shows "leads A (\<lambda>(ok, s') c'. ok \<and> inside LGrow th slot node k s' c') c (scan f is_node True s)"
proof (rule walk_leads [OF _ _ assms, where pA = LWAdv])
  fix th' :: "'a lthread" and l :: "'a solist"
  show "lpc th' = LWalk \<Longrightarrow> list_step A l th' =
      (if lnxt th' = nullptr then Inr (th'\<lparr>lpc := LGrow\<rparr>, l) else bind_r (deref (lnxt th') l) (\<lambda>nd.
         Inr (if is_node nd then th'\<lparr>lprv := lcur th', lcur := lnxt th', lpc := LWAdv\<rparr> else th'\<lparr>lpc := LGrow\<rparr>, l)))"
    by (cases "deref (lnxt th') l") (simp_all add: which_step insert_step_def)
  show "lpc th' = LWAdv \<Longrightarrow> list_step A l th' = bind_r (next_of (lcur th') l) (\<lambda>n.
         Inr (if True then th'\<lparr>lnxt := n, lsteps := lsteps th' + 1, lpc := LWalk\<rparr> else th'\<lparr>lnxt := n, lpc := LWalk\<rparr>, l))"
    by (cases "next_of (lcur th') l") (simp_all add: which_step insert_step_def)
qed

section \<open>initialise_bucket\<close>

text \<open>The accesses through a node pointer do not touch the cursor.\<close>

definition same_cursor :: "'a accessor \<Rightarrow> 'a accessor \<Rightarrow> bool" where
  "same_cursor s s' \<longleftrightarrow> cur s' = cur s \<and> nxt s' = nxt s \<and> prv s' = prv s \<and> steps s' = steps s"

lemma same_cursor_ops:
  fixes s s' :: "'a accessor"
  shows "set_next p q s = Inr s' \<Longrightarrow> same_cursor s s'" "delete_cell p s = Inr s' \<Longrightarrow> same_cursor s s'"
    "new_cell A r s = Inr (a, s') \<Longrightarrow> same_cursor s s'" "cas_next p e d s = Inr (ok, s') \<Longrightarrow> same_cursor s s'"
    "cas_next_mark p e d m s = Inr (ok, s') \<Longrightarrow> same_cursor s s'"
  by (auto simp: set_next_def delete_cell_def new_cell_def cas_next_def cas_next_mark_def same_cursor_def bind_r_Inr_iff
      case_prod_unfold split: if_splits option.splits)

lemma ops_trunc:
  "set_next p q (solist.truncate s) = bind_r (set_next p q s) (\<lambda>s'. Inr (solist.truncate s'))"
  "delete_cell p (solist.truncate s) = bind_r (delete_cell p s) (\<lambda>s'. Inr (solist.truncate s'))"
  "new_cell A r (solist.truncate s) = bind_r (new_cell A r s) (\<lambda>(a, s'). Inr (a, solist.truncate s'))"
  "cas_next p e d (solist.truncate s) = bind_r (cas_next p e d s) (\<lambda>(ok, s'). Inr (ok, solist.truncate s'))"
  "cas_next_mark p e d m (solist.truncate s) = bind_r (cas_next_mark p e d m s) (\<lambda>(ok, s'). Inr (ok, solist.truncate s'))"
proof -
  show "set_next p q (solist.truncate s) = bind_r (set_next p q s) (\<lambda>s'. Inr (solist.truncate s'))"
    by (cases "deref p s") (simp_all add: set_next_def trunc_upd)
  show "delete_cell p (solist.truncate s) = bind_r (delete_cell p s) (\<lambda>s'. Inr (solist.truncate s'))"
    by (simp add: delete_cell_def trunc_upd split: option.split)
  show "new_cell A r (solist.truncate s) = bind_r (new_cell A r s) (\<lambda>(a, s'). Inr (a, solist.truncate s'))"
    by (cases r) (simp_all add: new_cell_def trunc_upd split: option.split)
  show "cas_next p e d (solist.truncate s) = bind_r (cas_next p e d s) (\<lambda>(ok, s'). Inr (ok, solist.truncate s'))"
    by (cases "deref p s") (simp_all add: cas_next_def trunc_upd split: prod.split)
  show "cas_next_mark p e d m (solist.truncate s) = bind_r (cas_next_mark p e d m s) (\<lambda>(ok, s'). Inr (ok, solist.truncate s'))"
    by (cases "deref p s") (simp_all add: cas_next_mark_def trunc_upd split: prod.split)
qed

lemma parent_slot_leads:
  "inside (BStep key_step k') th slot node k s c \<Longrightarrow>
   leads A (\<lambda>ps c'. inside (BStart ps) th slot node k s c') c (parent_slot f k' key_step s)"
proof (induction f arbitrary: k' c)
  case 0
  show ?case by (simp add: leads.fuel)
next
  case (Suc f)
  obtain th' l where c: "c = (th', l)" by (cases c)
  note st = Suc.prems [unfolded c, simplified]
  let ?k = "k' - key_step"
  let ?slot = "reverse_hasht_bits ?k"
  show ?case unfolding c parent_slot.simps Let_def
  proof (rule leads_step [where k = "\<lambda>b. (th'\<lparr>lpc := (if b \<noteq> nullptr then BStart ?slot else if 0 \<noteq> ?k then BStep key_step ?k else BStart ?slot)\<rparr>, l)"])
    fix b assume b: "arr_get (buckets s) (unat ?slot) = Inr b"
    show "list_step A l th' = Inr (th'\<lparr>lpc := (if b \<noteq> nullptr then BStart ?slot else if 0 \<noteq> ?k then BStep key_step ?k else BStart ?slot)\<rparr>, l)"
      using st b by (simp add: which_step parent_step_def)
    show "leads A (\<lambda>ps c'. inside (BStart ps) th slot node k s c')
        (th'\<lparr>lpc := (if b \<noteq> nullptr then BStart ?slot else if 0 \<noteq> ?k then BStep key_step ?k else BStart ?slot)\<rparr>, l)
        (if b \<noteq> nullptr then Inr ?slot else if 0 \<noteq> ?k then parent_slot f ?k key_step s else Inr ?slot)"
      using st Suc.IH [of ?k "(th'\<lparr>lpc := BStep key_step ?k\<rparr>, l)"] by (simp add: leads.here)
  qed (use st in \<open>simp add: which_step parent_step_def\<close>)
qed

lemma start_leads:
  assumes "inside (BStart ps) th slot node k s c"
  shows "leads A (\<lambda>s' c'. inside BTest th slot node k s' c') c (start_at ps s)"
proof -
  obtain th' l where c: "c = (th', l)" by (cases c)
  note st = assms [unfolded c, simplified]
  show ?thesis unfolding c start_at_def Let_def
  proof (rule leads_step [where k = "\<lambda>b. (th'\<lparr>lprv := b, lcur := b, lpc := BNext\<rparr>, l)"])
    fix b
    let ?th = "th'\<lparr>lprv := b, lcur := b, lpc := BNext\<rparr>"
    show "leads A (\<lambda>s' c'. inside BTest th slot node k s' c') (?th, l)
      (bind_r (next_of (cur (s\<lparr>prv := b, cur := b\<rparr>)) (s\<lparr>prv := b, cur := b\<rparr>)) (\<lambda>n. Inr (s\<lparr>prv := b, cur := b, nxt := n\<rparr>)))"
      by (rule leads_step [where k = "\<lambda>n. (?th\<lparr>lnxt := n, lpc := BTest\<rparr>, l)"]) (use st in \<open>simp_all add: which_step parent_step_def leads.here\<close>)
  qed (use st in \<open>simp_all add: which_step parent_step_def\<close>)
qed

lemma get_parent_leads:
  assumes "inside BParent th slot node k s c"
  shows "leads A (\<lambda>s' c'. inside BSet th slot node k s' c') c (get_parent f slot k s)"
proof -
  have "leads A (\<lambda>s' c'. inside BSet th slot node k s' c') c (get_parent_try n f k s)" for n
  proof (cases n)
    case 0
    then show ?thesis by (simp add: leads.fuel)
  next
    case (Suc m)
    obtain th' l where c: "c = (th', l)" by (cases c)
    note st = assms [unfolded c, simplified]
    show ?thesis unfolding c Suc get_parent_try.simps
    proof (rule leads_step [where k = "\<lambda>ks. (th'\<lparr>lpc := BStep ks (lbkey th')\<rparr>, l)"])
      fix ks
      have "inside (BStep ks k) th slot node k s (th'\<lparr>lpc := BStep ks (lbkey th')\<rparr>, l)" using st by simp
      then show "leads A (\<lambda>s' c'. inside BSet th slot node k s' c') (th'\<lparr>lpc := BStep ks (lbkey th')\<rparr>, l)
        (bind_r (parent_slot f k ks s) (\<lambda>pb_slot. bind_r (start_at pb_slot s) (\<lambda>s. bind_r (scan f (\<lambda>nd. key nd < k) False s)
          (\<lambda>(ok, s). if ok then Inr s else get_parent_try m f k s))))"
        by (intro leads_bind [OF parent_slot_leads] leads_bind [OF start_leads] leads_bind [OF parent_scan])
          (auto split: prod.splits intro: leads.here)
    qed (use st in \<open>simp_all add: which_step parent_step_def\<close>)
  qed
  then show ?thesis by (simp add: get_parent_def)
qed

lemma differs_leads:
  assumes "inside BKey th slot node k s c"
  shows "leads A (\<lambda>absent c'. inside (if absent then BCas else BPub) th slot node k s c') c (next_differs k s)"
proof -
  obtain th' l where c: "c = (th', l)" by (cases c)
  note st = assms [unfolded c, simplified]
  show ?thesis
  proof (cases "nullptr = nxt s")
    case True
    then show ?thesis unfolding c next_differs_def
      by (simp, intro leads_done [where c = "(th'\<lparr>lpc := BCas\<rparr>, l)"]) (use st in \<open>simp_all add: which_step init_step_def\<close>)
  next
    case False
    show ?thesis unfolding c next_differs_def if_not_P [OF False]
      by (rule leads_step [where k = "\<lambda>n. (th'\<lparr>lpc := (if key n \<noteq> k then BCas else BPub)\<rparr>, l)"])
        (use st False in \<open>auto simp: which_step init_step_def intro!: leads.here\<close>)
  qed
qed

lemma link_bucket_leads:
  "inside BParent th slot node k s c \<Longrightarrow>
   leads A (\<lambda>s' c'. inside BPub th slot node k s' c') c (link_bucket n f slot k node s)"
proof (induction n arbitrary: s c)
  case 0
  show ?case by (simp add: leads.fuel)
next
  case (Suc n)
  let ?Q = "\<lambda>s' c'. inside BPub th slot node k s' c'"
  have cas: "leads A ?Q c (bind_r (cas_next (cur s) (nxt s) node s) (\<lambda>(ok, s). if ok then Inr s else link_bucket n f slot k node s))"
    if i: "inside BCas th slot node k s c" for s c
  proof -
    obtain th' l where c: "c = (th', l)" by (cases c)
    note st = i [unfolded c, simplified]
    show ?thesis unfolding c
    proof (rule leads_step [where k = "\<lambda>(ok, s'). (th'\<lparr>lpc := (if ok then BPub else BParent)\<rparr>, solist.truncate s')"])
      fix x assume x: "cas_next (cur s) (nxt s) node s = Inr x"
      obtain ok s' where [simp]: "x = (ok, s')" by (cases x)
      have sc: "same_cursor s s'" using x same_cursor_ops(4) by auto
      then have at: "inside (if ok then BPub else BParent) th slot node k s' (th'\<lparr>lpc := (if ok then BPub else BParent)\<rparr>, solist.truncate s')"
        using st by (simp add: same_cursor_def)
      show "leads A ?Q (case x of (ok, s') \<Rightarrow> (th'\<lparr>lpc := (if ok then BPub else BParent)\<rparr>, solist.truncate s'))
        (case x of (ok, s) \<Rightarrow> if ok then Inr s else link_bucket n f slot k node s)"
        using at Suc.IH by (cases ok) (auto intro: leads.here)
    qed (use st in \<open>auto simp: which_step init_step_def ops_trunc\<close>)
  qed
  have differs: "leads A ?Q c (bind_r (next_differs k s) (\<lambda>absent. if \<not> absent then Inr s
      else bind_r (cas_next (cur s) (nxt s) node s) (\<lambda>(ok, s). if ok then Inr s else link_bucket n f slot k node s)))"
    if "inside BKey th slot node k s c" for s c
  proof (rule leads_bind [OF differs_leads [OF that]])
    fix absent c' assume "inside (if absent then BCas else BPub) th slot node k s c'"
    then show "leads A ?Q c' (if \<not> absent then Inr s
      else bind_r (cas_next (cur s) (nxt s) node s) (\<lambda>(ok, s). if ok then Inr s else link_bucket n f slot k node s))"
      using cas by (cases absent) (simp_all add: leads.here)
  qed
  have cond: "leads A ?Q c (bind_r (arr_get (buckets s) (unat slot)) (\<lambda>b. if nullptr \<noteq> b then Inr s
      else bind_r (next_differs k s) (\<lambda>absent. if \<not> absent then Inr s
        else bind_r (cas_next (cur s) (nxt s) node s) (\<lambda>(ok, s). if ok then Inr s else link_bucket n f slot k node s))))"
    if i: "inside BCond th slot node k s c" for s c
  proof -
    obtain th' l where c: "c = (th', l)" by (cases c)
    note st = i [unfolded c, simplified]
    show ?thesis unfolding c
    proof (rule leads_step [where k = "\<lambda>b. (th'\<lparr>lpc := (if nullptr = b then BKey else BPub)\<rparr>, l)"])
      fix b
      have at: "inside (if nullptr = b then BKey else BPub) th slot node k s (th'\<lparr>lpc := (if nullptr = b then BKey else BPub)\<rparr>, l)"
        using st by simp
      show "leads A ?Q (th'\<lparr>lpc := (if nullptr = b then BKey else BPub)\<rparr>, l) (if nullptr \<noteq> b then Inr s
        else bind_r (next_differs k s) (\<lambda>absent. if \<not> absent then Inr s
          else bind_r (cas_next (cur s) (nxt s) node s) (\<lambda>(ok, s). if ok then Inr s else link_bucket n f slot k node s)))"
        using at differs by (cases "nullptr = b") (simp_all add: leads.here)
    qed (use st in \<open>simp_all add: which_step init_step_def\<close>)
  qed
  show ?case unfolding link_bucket.simps
  proof (rule leads_bind [OF get_parent_leads [OF Suc.prems]])
    fix s :: "'a accessor" and c assume i: "inside BSet th slot node k s c"
    obtain th' l where c: "c = (th', l)" by (cases c)
    note st = i [unfolded c, simplified]
    show "leads A ?Q c (bind_r (set_next node (nxt s) s) (\<lambda>s. bind_r (arr_get (buckets s) (unat slot)) (\<lambda>b. if nullptr \<noteq> b then Inr s
        else bind_r (next_differs k s) (\<lambda>absent. if \<not> absent then Inr s
          else bind_r (cas_next (cur s) (nxt s) node s) (\<lambda>(ok, s). if ok then Inr s else link_bucket n f slot k node s)))))"
      unfolding c
    proof (rule leads_step [where k = "\<lambda>s'. (th'\<lparr>lpc := BCond\<rparr>, solist.truncate s')"])
      fix s' assume "set_next node (nxt s) s = Inr s'"
      then have "inside BCond th slot node k s' (th'\<lparr>lpc := BCond\<rparr>, solist.truncate s')"
        using st same_cursor_ops(1) [of node "nxt s" s s'] by (simp add: same_cursor_def)
      then show "leads A ?Q (th'\<lparr>lpc := BCond\<rparr>, solist.truncate s') (bind_r (arr_get (buckets s') (unat slot)) (\<lambda>b. if nullptr \<noteq> b then Inr s'
        else bind_r (next_differs k s') (\<lambda>absent. if \<not> absent then Inr s'
          else bind_r (cas_next (cur s') (nxt s') node s') (\<lambda>(ok, s). if ok then Inr s else link_bucket n f slot k node s))))"
        by (rule cond)
    qed (use st in \<open>simp_all add: which_step init_step_def ops_trunc\<close>)
  qed
qed

lemma free_leads:
  assumes "inside BFree th slot node k s c"
  shows "leads A (\<lambda>s' c'. inside BEnd th slot node k s' c') c (delete_cell node s)"
proof -
  obtain th' l where c: "c = (th', l)" by (cases c)
  note st = assms [unfolded c, simplified]
  have "leads A (\<lambda>s' c'. inside BEnd th slot node k s' c') (th', l) (bind_r (delete_cell node s) Inr)"
    by (rule leads_step [where k = "\<lambda>s'. (th'\<lparr>lpc := BEnd\<rparr>, solist.truncate s')"])
      (use st in \<open>auto simp: which_step init_step_def ops_trunc same_cursor_def intro!: leads.here dest: same_cursor_ops(2)\<close>)
  then show ?thesis unfolding c by (cases "delete_cell node s") simp_all
qed

lemma publish_leads:
  assumes "inside BPub th slot node k s c"
  shows "leads A (\<lambda>s' c'. inside BEnd th slot node k s' c') c (publish_bucket slot k node s)"
proof -
  let ?Q = "\<lambda>s' c'. inside BEnd th slot node k s' c'"
  have own: "leads A ?Q c (bind_r (arr_set (buckets s) (unat slot) node) (\<lambda>bs. Inr (s\<lparr>buckets := bs, nxt := node\<rparr>)))"
    if i: "inside BStore th slot node k s c" for c
  proof -
    obtain th' l where c: "c = (th', l)" by (cases c)
    note st = i [unfolded c, simplified]
    show ?thesis unfolding c
      by (rule leads_step [where k = "\<lambda>bs. (th'\<lparr>lnxt := lbkt th', lpc := BEnd\<rparr>, solist.truncate (s\<lparr>buckets := bs\<rparr>))"])
        (use st in \<open>auto simp: which_step init_step_def trunc_upd intro!: leads.here\<close>)
  qed
  have other: "leads A ?Q c (bind_r (arr_set (buckets s) (unat slot) (nxt s)) (\<lambda>bs. let s = s\<lparr>buckets := bs\<rparr> in
      bind_r (deref (nxt s) s) (\<lambda>nd. if key nd \<noteq> k then Inl AssertFail else delete_cell node s)))"
    if i: "inside BOther th slot node k s c" for c
  proof -
    obtain th' l where c: "c = (th', l)" by (cases c)
    note st = i [unfolded c, simplified]
    show ?thesis unfolding c Let_def
    proof (rule leads_step [where k = "\<lambda>bs. (th'\<lparr>lpc := BSame\<rparr>, solist.truncate (s\<lparr>buckets := bs\<rparr>))"])
      fix bs assume bs: "arr_set (buckets s) (unat slot) (nxt s) = Inr bs"
      then have get: "arr_get bs (unat slot) = Inr (nxt s)" by (auto simp: arr_set_def arr_get_def split: if_splits)
      let ?s = "s\<lparr>buckets := bs\<rparr>"
      let ?th = "th'\<lparr>lpc := BSame\<rparr>"
      have at: "inside BFree th slot node k ?s (?th\<lparr>lpc := BFree\<rparr>, solist.truncate ?s)" using st by simp
      show "leads A ?Q (?th, solist.truncate ?s)
        (bind_r (deref (nxt ?s) ?s) (\<lambda>nd. if key nd \<noteq> k then Inl AssertFail else delete_cell node ?s))"
      proof (cases "deref (nxt ?s) ?s")
        case (Inl e)
        then show ?thesis using st get by (simp add: leads.fails which_step init_step_def)
      next
        case (Inr nd)
        show ?thesis
        proof (cases "key nd = k")
          case True
          have "list_step A (solist.truncate ?s) ?th = Inr (?th\<lparr>lpc := BFree\<rparr>, solist.truncate ?s)"
            using st get Inr True by (simp add: which_step init_step_def)
          from leads.more [OF this free_leads [OF at]] show ?thesis using Inr True by simp
        next
          case False
          then show ?thesis using st get Inr by (simp add: leads.fails which_step init_step_def)
        qed
      qed
    qed (use st in \<open>simp_all add: which_step init_step_def trunc_upd\<close>)
  qed
  obtain th' l where c: "c = (th', l)" by (cases c)
  note st = assms [unfolded c, simplified]
  show ?thesis unfolding c publish_bucket_def
  proof (rule leads_step [where k = "\<lambda>b. (th'\<lparr>lpc := (if b = nullptr then BNode else BFree)\<rparr>, l)"])
    fix b
    let ?th = "th'\<lparr>lpc := BNode\<rparr>"
    have node: "leads A ?Q (?th, l) (bind_r (next_of (cur s) s) (\<lambda>n.
         if n = node then bind_r (arr_set (buckets s) (unat slot) node) (\<lambda>bs. Inr (s\<lparr>buckets := bs, nxt := node\<rparr>))
         else bind_r (arr_set (buckets s) (unat slot) (nxt s)) (\<lambda>bs. let s = s\<lparr>buckets := bs\<rparr> in
           bind_r (deref (nxt s) s) (\<lambda>nd. if key nd \<noteq> k then Inl AssertFail else delete_cell node s))))"
    proof (rule leads_step [where k = "\<lambda>n. (?th\<lparr>lpc := (if n = node then BStore else BOther)\<rparr>, l)"])
      fix n
      have "inside (if n = node then BStore else BOther) th slot node k s (?th\<lparr>lpc := (if n = node then BStore else BOther)\<rparr>, l)"
        using st by simp
      then show "leads A ?Q (?th\<lparr>lpc := (if n = node then BStore else BOther)\<rparr>, l)
        (if n = node then bind_r (arr_set (buckets s) (unat slot) node) (\<lambda>bs. Inr (s\<lparr>buckets := bs, nxt := node\<rparr>))
         else bind_r (arr_set (buckets s) (unat slot) (nxt s)) (\<lambda>bs. let s = s\<lparr>buckets := bs\<rparr> in
           bind_r (deref (nxt s) s) (\<lambda>nd. if key nd \<noteq> k then Inl AssertFail else delete_cell node s)))"
        using own other by (cases "n = node") (simp_all only: if_True if_False simp_thms)
    qed (use st in \<open>simp_all add: which_step init_step_def\<close>)
    have "inside BFree th slot node k s (th'\<lparr>lpc := BFree\<rparr>, l)" using st by simp
    from node free_leads [OF this]
    show "leads A ?Q (th'\<lparr>lpc := (if b = nullptr then BNode else BFree)\<rparr>, l)
      (if b = nullptr then bind_r (next_of (cur s) s) (\<lambda>n.
         if n = node then bind_r (arr_set (buckets s) (unat slot) node) (\<lambda>bs. Inr (s\<lparr>buckets := bs, nxt := node\<rparr>))
         else bind_r (arr_set (buckets s) (unat slot) (nxt s)) (\<lambda>bs. let s = s\<lparr>buckets := bs\<rparr> in
           bind_r (deref (nxt s) s) (\<lambda>nd. if key nd \<noteq> k then Inl AssertFail else delete_cell node s)))
       else delete_cell node s)"
      by (cases "b = nullptr") (simp_all only: if_True if_False simp_thms)
  qed (use st in \<open>simp_all add: which_step init_step_def\<close>)
qed

text \<open>The final assertions.\<close>

lemma end_leads:
  assumes "inside BEnd th slot node k s c"
  shows "leads A (\<lambda>s' c'. stands (lret th) th s' c' \<and> lslot (fst c') = slot) c (bind_r (arr_get (buckets s) (unat slot)) (\<lambda>b.
    if nullptr = b then Inl AssertFail else bind_r (deref b s) (\<lambda>bn. if key bn \<noteq> k then Inl AssertFail else Inr s)))"
    (is "leads A ?Q c ?r")
proof -
  obtain th' l where c: "c = (th', l)" by (cases c)
  note st = assms [unfolded c, simplified]
  show ?thesis
  proof (cases ?r)
    case (Inl e)
    have "list_step A l th' = Inl e"
      using Inl st by (cases "arr_get (buckets s) (unat slot)") (auto simp: which_step init_step_def bind_r_def split: sum.splits if_splits)
    then show ?thesis unfolding Inl c by (rule leads.fails)
  next
    case (Inr s')
    have "s' = s" "list_step A l th' = Inr (th'\<lparr>lpc := lret th'\<rparr>, l)"
      using Inr st by (auto simp: which_step init_step_def bind_r_Inr_iff split: if_splits)
    then show ?thesis unfolding Inr c by (intro leads_done) (use st in auto)
  qed
qed

lemma initialise_leads:
  assumes "stands BCheck th s c" "lslot (fst c) = slot"
  shows "leads A (\<lambda>s' c'. stands (lret th) th s' c' \<and> lslot (fst c') = slot) c (initialise_bucket A f slot s)"
proof -
  let ?Q = "\<lambda>s' c'. stands (lret th) th s' c' \<and> lslot (fst c') = slot"
  obtain th' l where c: "c = (th', l)" by (cases c)
  note st = assms [unfolded c, simplified]
  show ?thesis
  proof (cases "slot < n_buckets s")
    case False
    then show ?thesis unfolding c using st by (simp add: initialise_bucket_def leads.fails which_step init_step_def)
  next
    case True
    let ?new = "bind_r (new_cell A (solist_bucket_ctor slot) s) (\<lambda>(node, s). bind_r (deref node s) (\<lambda>nd.
      bind_r (link_bucket f f slot (key nd) node s) (\<lambda>s. bind_r (publish_bucket slot (key nd) node s) (\<lambda>s.
      bind_r (arr_get (buckets s) (unat slot)) (\<lambda>b. if nullptr = b then Inl AssertFail
        else bind_r (deref b s) (\<lambda>bn. if key bn \<noteq> key nd then Inl AssertFail else Inr s))))))"
    have new: "leads A ?Q (th'\<lparr>lpc := BNew\<rparr>, l) ?new"
    proof (cases "new_cell A (solist_bucket_ctor slot) s")
      case (Inl e)
      then show ?thesis using st by (simp add: leads.fails which_step init_step_def ops_trunc)
    next
      case (Inr x)
      obtain node s1 where x: "x = (node, s1)" by (cases x)
      have sc: "same_cursor s s1" using same_cursor_ops(3) Inr x by metis
      show ?thesis
      proof (cases "deref node s1")
        case (Inl e)
        then show ?thesis using st Inr x by (simp add: leads.fails which_step init_step_def ops_trunc)
      next
        case nd: (Inr nd)
        let ?c = "(th'\<lparr>lbkt := node, lbkey := key nd, lpc := BParent\<rparr>, solist.truncate s1)"
        have at: "inside BParent th slot node (key nd) s1 ?c" using st sc by (simp add: same_cursor_def)
        have "list_step A l (th'\<lparr>lpc := BNew\<rparr>) = Inr ?c"
          using st Inr x nd by (simp add: which_step init_step_def ops_trunc)
        moreover have "leads A ?Q ?c (bind_r (link_bucket f f slot (key nd) node s1) (\<lambda>s. bind_r (publish_bucket slot (key nd) node s) (\<lambda>s.
            bind_r (arr_get (buckets s) (unat slot)) (\<lambda>b. if nullptr = b then Inl AssertFail
              else bind_r (deref b s) (\<lambda>bn. if key bn \<noteq> key nd then Inl AssertFail else Inr s)))))"
          by (rule leads_bind [OF link_bucket_leads [OF at]], rule leads_bind [OF publish_leads], assumption, rule end_leads, assumption)
        ultimately show ?thesis using Inr x nd by (simp add: leads.more)
      qed
    qed
    have eq: "initialise_bucket A f slot s = bind_r (arr_get (buckets s) (unat slot)) (\<lambda>b. if b \<noteq> nullptr then Inr s else ?new)"
      using True by (simp add: initialise_bucket_def)
    show ?thesis unfolding c eq
    proof (rule leads_step [where k = "\<lambda>b. (th'\<lparr>lpc := (if b \<noteq> nullptr then lret th' else BNew)\<rparr>, l)"])
      fix b
      show "leads A ?Q (th'\<lparr>lpc := (if b \<noteq> nullptr then lret th' else BNew)\<rparr>, l) (if b \<noteq> nullptr then Inr s else ?new)"
        using new st by (cases "b = nullptr") (simp_all add: leads.here)
    qed (use st True in \<open>simp_all add: which_step init_step_def\<close>)
  qed
qed

section \<open>find_node\<close>

lemma find_start_leads:
  assumes "stands LStart th s c" "lslot (fst c) = slot"
  shows "leads A (\<lambda>s' c'. stands LTest th s' c') c (bind_r (start_at slot s) (\<lambda>s. Inr (s\<lparr>steps := 0\<rparr>)))"
proof -
  obtain th' l where c: "c = (th', l)" by (cases c)
  note st = assms [unfolded c, simplified]
  have eq: "bind_r (start_at slot s) (\<lambda>s. Inr (s\<lparr>steps := 0\<rparr>)) = bind_r (arr_get (buckets s) (unat slot)) (\<lambda>b.
      bind_r (next_of b s) (\<lambda>n. Inr (s\<lparr>prv := b, cur := b, nxt := n, steps := 0\<rparr>)))"
    by (simp add: start_at_def bind_r_assoc Let_def)
  show ?thesis unfolding c eq
  proof (rule leads_step [where k = "\<lambda>b. (th'\<lparr>lprv := b, lcur := b, lpc := LNext\<rparr>, l)"])
    fix b
    let ?th = "th'\<lparr>lprv := b, lcur := b, lpc := LNext\<rparr>"
    show "leads A (\<lambda>s' c'. stands LTest th s' c') (?th, l)
      (bind_r (next_of b s) (\<lambda>n. Inr (s\<lparr>prv := b, cur := b, nxt := n, steps := 0\<rparr>)))"
      by (rule leads_step [where k = "\<lambda>n. (?th\<lparr>lnxt := n, lsteps := 0, lpc := LTest\<rparr>, l)"])
        (use st in \<open>simp_all add: which_step find_step_def leads.here\<close>)
  qed (use st in \<open>simp_all add: which_step find_step_def\<close>)
qed

lemma find_try_leads:
  assumes "stands LStart th s c" "lslot (fst c) = slot" "h = op_hash (lop th)"
  shows "leads A (\<lambda>s' c'. stands LFound th s' c') c (find_node_try n f slot (sol_node_key h) s)"
proof (cases n)
  case 0
  then show ?thesis by (simp add: leads.fuel)
next
  case (Suc m)
  have eq: "find_node_try n f slot (sol_node_key h) s = bind_r (bind_r (start_at slot s) (\<lambda>s. Inr (s\<lparr>steps := 0\<rparr>))) (\<lambda>s.
      bind_r (scan f (\<lambda>nd. key nd \<le> sol_node_key h) True s) (\<lambda>(ok, s). if ok then Inr s else find_node_try m f slot (sol_node_key h) s))"
    by (simp add: Suc bind_r_assoc)
  show ?thesis unfolding eq
  proof (rule leads_bind [OF find_start_leads [OF assms(1,2)]])
    fix s' :: "'a accessor" and c' assume "stands LTest th s' c'"
    then have "inside LTest th (lslot (fst c')) (lbkt (fst c')) (lbkey (fst c')) s' c'" by (simp add: inside_def)
    from find_scan [OF this assms(3)]
    show "leads A (stands LFound th) c' (bind_r (scan f (\<lambda>nd. key nd \<le> sol_node_key h) True s') (\<lambda>(ok, s).
        if ok then Inr s else find_node_try m f slot (sol_node_key h) s))"
      by (rule leads_bind) (auto simp: inside_def intro!: leads.here)
  qed
qed

lemma found_leads:
  assumes "stands LFound th s c" "h = op_hash (lop th)"
  shows "leads A (\<lambda>(ok, s') c'. stands (after_find ok th) th s' c') c
    (if cur s = nullptr then Inr (False, s)
     else bind_r (deref (cur s) s) (\<lambda>c. if key c \<noteq> sol_node_key h then Inr (False, s) else Inr (True, s)))"
proof -
  obtain th' l where c: "c = (th', l)" by (cases c)
  note st = assms [unfolded c, simplified]
  have af: "after_find b th' = after_find b th" for b using st by (simp add: after_find_def)
  show ?thesis
  proof (cases "cur s = nullptr")
    case True
    then show ?thesis unfolding c
      by (simp, intro leads_done [where c = "(th'\<lparr>lpc := after_find False th\<rparr>, l)"]) (use st af in \<open>simp_all add: which_step find_step_def\<close>)
  next
    case False
    show ?thesis unfolding c if_not_P [OF False]
      by (rule leads_step [where k = "\<lambda>nd. (th'\<lparr>lpc := after_find (key nd = sol_node_key h) th\<rparr>, l)"])
        (use st af False in \<open>auto simp: which_step find_step_def intro!: leads.here\<close>)
  qed
qed

lemma find_node_leads:
  assumes "stands LBucket th s c" "lret th = LStart" "h = op_hash (lop th)"
  shows "leads A (\<lambda>(ok, s') c'. stands (after_find ok th) th s' c') c (find_node A f h s)"
proof -
  let ?Q = "\<lambda>(ok, s') c'. stands (after_find ok th) th s' c'"
  let ?slot = "h mod n_buckets s"
  let ?K = "\<lambda>s. bind_r (find_node_try f f ?slot (sol_node_key h) s) (\<lambda>s.
          if cur s = nullptr then Inr (False, s)
          else bind_r (deref (cur s) s) (\<lambda>c. if key c \<noteq> sol_node_key h then Inr (False, s) else Inr (True, s)))"
  obtain th' l where c: "c = (th', l)" by (cases c)
  note st = assms [unfolded c, simplified]
  have rest: "leads A ?Q c' (?K s')" if "stands LStart th s' c'" "lslot (fst c') = ?slot" for s' c'
    by (rule leads_bind [OF find_try_leads [OF that assms(3)]], rule found_leads [OF _ assms(3)])
  show ?thesis
  proof (cases "n_buckets s = 0")
    case True
    then show ?thesis unfolding c using st by (simp add: find_node_def leads.fails which_step find_step_def)
  next
    case False
    show ?thesis unfolding c find_node_def if_not_P [OF False] Let_def
    proof (rule leads_step [where k = "\<lambda>b. (th'\<lparr>lslot := ?slot, lpc := (if b = nullptr then BCheck else LStart)\<rparr>, l)"])
      fix b
      let ?c = "(th'\<lparr>lslot := ?slot, lpc := (if b = nullptr then BCheck else LStart)\<rparr>, l)"
      have at: "stands (if b = nullptr then BCheck else LStart) th s ?c" "lslot (fst ?c) = ?slot" using st by simp_all
      have init: "leads A (\<lambda>s' c'. stands LStart th s' c' \<and> lslot (fst c') = ?slot) ?c
          (if b = nullptr then initialise_bucket A f ?slot s else Inr s)"
      proof (cases "b = nullptr")
        case True
        with at initialise_leads [of th s ?c ?slot] assms(2) show ?thesis by simp
      next
        case False
        with at show ?thesis by (simp add: leads.here)
      qed
      show "leads A ?Q ?c (bind_r (if b = nullptr then initialise_bucket A f ?slot s else Inr s) ?K)"
        by (rule leads_bind [OF init]) (rule rest; simp)
    qed (use st False in \<open>simp_all add: which_step find_step_def\<close>)
  qed
qed

section \<open>The expansion policy\<close>

definition growing :: "lpc \<Rightarrow> 'a lthread \<Rightarrow> u32 \<Rightarrow> uptr list \<Rightarrow> u32 \<Rightarrow> 'a accessor \<Rightarrow> 'a conf \<Rightarrow> bool" where
  "growing pc th slot new sz s c \<longleftrightarrow> stands pc th s c \<and> lslot (fst c) = slot \<and> lnew (fst c) = new \<and> lnsz (fst c) = sz"

lemma growing_at [simp]:
  "growing pc th slot new sz s (th', l) \<longleftrightarrow> stands pc th s (th', l) \<and> lslot th' = slot \<and> lnew th' = new \<and> lnsz th' = sz"
  by (simp add: growing_def)

lemma copy_leads:
  "growing (GLoop (word_of_nat x)) th slot dst sz s c \<Longrightarrow> x + m = unat (n_buckets s) \<Longrightarrow>
   leads A (\<lambda>nb c'. growing GZero th slot nb sz s c') c (copy_slots m x (buckets s) dst)"
proof (induction m arbitrary: x dst c)
  case 0
  obtain th' l where c: "c = (th', l)" by (cases c)
  note st = "0"(1) [unfolded c, simplified]
  have "word_of_nat x = n_buckets s" using "0"(2) by simp
  then show ?case unfolding c copy_slots.simps
    by (intro leads_done [where c = "(th'\<lparr>lpc := GZero\<rparr>, l)"]) (use st in \<open>simp_all add: which_step grow_step_def expand_step_def\<close>)
next
  case (Suc m)
  let ?Q = "\<lambda>nb c'. growing GZero th slot nb sz s c'"
  obtain th' l where c: "c = (th', l)" by (cases c)
  note st = Suc.prems(1) [unfolded c, simplified]
  have "x < unat (n_buckets s)" using Suc.prems(2) by simp
  then have x: "unat (word_of_nat x :: u32) = x" using unsigned_less [of "n_buckets s", where ?'a = nat] by (simp add: unsigned_of_nat take_bit_nat_eq_self_iff)
  have lt: "word_of_nat x < n_buckets s" using x \<open>x < unat (n_buckets s)\<close> by (simp add: word_less_nat_alt)
  let ?th = "th'\<lparr>lpc := GCopy (word_of_nat x)\<rparr>"
  have "list_step A l th' = Inr (?th, l)" using st lt by (simp add: which_step grow_step_def expand_step_def)
  moreover have "leads A ?Q (?th, l) (copy_slots (Suc m) x (buckets s) dst)"
  proof -
    let ?q = "bind_r (arr_get (buckets s) x) (\<lambda>v. arr_set dst x v)"
    have eq: "copy_slots (Suc m) x (buckets s) dst = bind_r ?q (copy_slots m (Suc x) (buckets s))" by (simp add: bind_r_assoc)
    show ?thesis unfolding eq
    proof (rule leads_step [where k = "\<lambda>nb. (?th\<lparr>lnew := nb, lpc := GLoop (word_of_nat (Suc x))\<rparr>, l)"])
      show "?q = Inl e \<Longrightarrow> list_step A l ?th = Inl e" for e
        using st x by (cases "arr_get (buckets s) x") (simp_all add: which_step grow_step_def expand_step_def)
      show "?q = Inr nb \<Longrightarrow> list_step A l ?th = Inr (?th\<lparr>lnew := nb, lpc := GLoop (word_of_nat (Suc x))\<rparr>, l)" for nb
        using st x by (cases "arr_get (buckets s) x") (simp_all add: which_step grow_step_def expand_step_def ac_simps)
      show "leads A ?Q (?th\<lparr>lnew := nb, lpc := GLoop (word_of_nat (Suc x))\<rparr>, l) (copy_slots m (Suc x) (buckets s) nb)" for nb
        by (rule Suc.IH) (use st Suc.prems(2) in simp_all)
    qed
  qed
  ultimately show ?case unfolding c by (rule leads.more)
qed

text \<open>From the first statement of \<open>expand\<close> to the call of \<open>initialise_bucket\<close> behind it.\<close>

abbreviation from_grow :: "'a lthread \<Rightarrow> 'a lthread" where
  "from_grow th \<equiv> th\<lparr>lret := LDone True\<rparr>"

lemma expand_leads:
  assumes "stands GCheck th s c" "lslot (fst c) = slot"
  shows "leads A (\<lambda>s' c'. stands BCheck (from_grow th) s' c' \<and> lslot (fst c') = slot + lnb th) c (expand A (lnb th) s)"
proof -
  let ?Q = "\<lambda>s' c'. stands BCheck (from_grow th) s' c' \<and> lslot (fst c') = slot + lnb th"
  let ?sz = "n_buckets s * 2"
  obtain th' l where c: "c = (th', l)" by (cases c)
  note st = assms [unfolded c, simplified]
  show ?thesis
  proof (cases "lnb th < n_buckets s")
    case True
    then show ?thesis unfolding c expand_def if_P [OF True]
      by (intro leads_done [where c = "(into_bucket (lslot th' + lnb th') th', l)"])
        (use st in \<open>simp_all add: which_step grow_step_def expand_step_def into_bucket_def\<close>)
  next
    case False
    let ?th = "th'\<lparr>lpc := GSize\<rparr>"
    have step: "list_step A l th' = Inr (?th, l)" using st False by (simp add: which_step grow_step_def expand_step_def)
    have "leads A ?Q (?th, l) (expand A (lnb th) s)"
    proof (cases "new_arr A ?sz")
      case no: False
      then show ?thesis using st False by (simp add: expand_def leads.fails which_step grow_step_def expand_step_def)
    next
      case True
      let ?new = "replicate (unat ?sz) nullptr"
      let ?th2 = "th'\<lparr>lnsz := ?sz, lnew := ?new, lpc := GLoop 0\<rparr>"
      have step2: "list_step A l ?th = Inr (?th2, l)" using st True by (simp add: which_step grow_step_def expand_step_def Let_def)
      have clear: "leads A ?Q c (bind_r (clear_slots (unat ?sz - unat (n_buckets s)) (unat (n_buckets s)) nb)
          (\<lambda>nb. Inr (s\<lparr>buckets := nb, n_buckets := ?sz\<rparr>)))" if g: "growing GZero th slot nb ?sz s c" for nb c
      proof -
        obtain th3 l where c: "c = (th3, l)" by (cases c)
        note st3 = g [unfolded c, simplified]
        show ?thesis unfolding c
        proof (rule leads_step [where k = "\<lambda>nb. (th3\<lparr>lnew := nb, lpc := GSwap\<rparr>, l)"])
          fix nb
          let ?a = "th3\<lparr>lnew := nb, lpc := GSwap\<rparr>"
          let ?b = "?a\<lparr>lpc := GPub\<rparr>"
          have "list_step A l ?a = Inr (?b, solist.truncate (s\<lparr>buckets := nb\<rparr>))"
            using st3 by (simp add: which_step grow_step_def expand_step_def trunc_upd)
          moreover have "list_step A (solist.truncate (s\<lparr>buckets := nb\<rparr>)) ?b =
              Inr (into_bucket (slot + lnb th) ?b, solist.truncate (s\<lparr>buckets := nb, n_buckets := ?sz\<rparr>))"
            using st3 by (simp add: which_step grow_step_def expand_step_def trunc_upd)
          ultimately show "leads A ?Q (?a, l) (Inr (s\<lparr>buckets := nb, n_buckets := ?sz\<rparr>))"
            by (elim leads.more leads_done) (use st3 in \<open>simp add: into_bucket_def\<close>)
        qed (use st3 in \<open>simp_all add: which_step grow_step_def expand_step_def\<close>)
      qed
      have "growing (GLoop (word_of_nat 0)) th slot ?new ?sz s (?th2, l)" using st by simp
      from copy_leads [OF this, of "unat (n_buckets s)"]
      have "leads A (\<lambda>nb c'. growing GZero th slot nb ?sz s c') (?th2, l) (copy_slots (unat (n_buckets s)) 0 (buckets s) ?new)" by simp
      from leads_bind [OF this, of ?Q "\<lambda>nb. bind_r (clear_slots (unat ?sz - unat (n_buckets s)) (unat (n_buckets s)) nb)
          (\<lambda>nb. Inr (s\<lparr>buckets := nb, n_buckets := ?sz\<rparr>))"] clear
      have "leads A ?Q (?th2, l) (expand A (lnb th) s)" using False True by (simp add: expand_def Let_def)
      then show ?thesis by (rule leads.more [OF step2])
    qed
    then show ?thesis unfolding c by (rule leads.more [OF step])
  qed
qed

text \<open>An insertion is over: it returned \<open>b\<close> and left the list of \<open>s\<close>.\<close>

definition over :: "bool \<Rightarrow> 'a accessor \<Rightarrow> 'a conf \<Rightarrow> bool" where
  "over b s c \<longleftrightarrow> lpc (fst c) = LDone b \<and> snd c = solist.truncate s"

lemma over_at [simp]: "over b s (th', l) \<longleftrightarrow> lpc th' = LDone b \<and> l = solist.truncate s"
  by (simp add: over_def)

lemma over_stands: "stands (LDone b) th s c \<Longrightarrow> over b s c"
  by (simp add: over_def stands_def)

lemma into_leads:
  assumes "stands BCheck (from_grow th) s c" "lslot (fst c) = slot"
  shows "leads A (over True) c (initialise_bucket A f slot s)"
  using initialise_leads [OF assms] by (rule leads_mono) (simp add: over_stands [where th = "from_grow th"])

lemma grow_leads:
  assumes "stands LGrow th s c" "h = op_hash (lop th)"
  shows "leads A (over True) c (grow A f h (lnb th) s)"
proof -
  obtain th' l where c: "c = (th', l)" by (cases c)
  note st = assms [unfolded c, simplified]
  let ?slot = "h mod n_buckets s"
  have full: "leads A (over True) c (bind_r (expand A (lnb th) s) (initialise_bucket A f (?slot + lnb th)))"
    if "stands GCheck th s c" "lslot (fst c) = ?slot" for c
    using expand_leads [OF that] by (rule leads_bind) (elim conjE, rule into_leads)
  have split: "leads A (over True) c (if ?slot + lnb th div 2 < n_buckets s then initialise_bucket A f (?slot + lnb th div 2) s else Inr s)"
    if sp: "stands GSplit th s c" "lslot (fst c) = ?slot" for c
  proof -
    obtain th' l where c: "c = (th', l)" by (cases c)
    note st = sp [unfolded c, simplified]
    show ?thesis
    proof (cases "?slot + lnb th div 2 < n_buckets s")
      case True
      let ?c = "(into_bucket (?slot + lnb th div 2) th', l)"
      have "list_step A l th' = Inr ?c" using st True by (simp add: which_step grow_step_def expand_step_def Let_def)
      moreover have "leads A (over True) ?c (initialise_bucket A f (?slot + lnb th div 2) s)"
        using st by (intro into_leads) (simp_all add: into_bucket_def)
      ultimately show ?thesis unfolding c using True by (simp add: leads.more)
    next
      case False
      then show ?thesis unfolding c using st
        by (simp, intro leads_done [where c = "(th'\<lparr>lpc := LDone True\<rparr>, l)"]) (simp_all add: which_step grow_step_def expand_step_def Let_def)
    qed
  qed
  show ?thesis
  proof (cases "steps s > max_bucket_length s")
    case False
    then show ?thesis unfolding c using st
      by (simp add: grow_def, intro leads_done [where c = "(th'\<lparr>lpc := LDone True\<rparr>, l)"]) (simp_all add: which_step grow_step_def expand_step_def)
  next
    case long: True
    show ?thesis
    proof (cases "n_buckets s = 0")
      case True
      then show ?thesis unfolding c using st long by (simp add: grow_def leads.fails which_step grow_step_def expand_step_def)
    next
      case False
      let ?th = "th'\<lparr>lslot := ?slot, lpc := GFull\<rparr>"
      have s1: "list_step A l th' = Inr (?th, l)" using st long False by (simp add: which_step grow_step_def expand_step_def)
      have "leads A (over True) (?th, l) (grow A f h (lnb th) s)"
      proof (cases "steps s \<ge> max_bucket_length s * 2")
        case True
        have "list_step A l ?th = Inr (?th\<lparr>lpc := GCheck\<rparr>, l)" using st True by (simp add: which_step grow_step_def expand_step_def)
        moreover have "leads A (over True) (?th\<lparr>lpc := GCheck\<rparr>, l) (grow A f h (lnb th) s)"
          using full [of "(?th\<lparr>lpc := GCheck\<rparr>, l)"] st True long False by (simp add: grow_def Let_def)
        ultimately show ?thesis by (rule leads.more)
      next
        case few: False
        have s2: "list_step A l ?th = Inr (?th\<lparr>lpc := GLoad (n_items s)\<rparr>, l)" using st few by (simp add: which_step grow_step_def expand_step_def)
        have "leads A (over True) (?th\<lparr>lpc := GLoad (n_items s)\<rparr>, l) (grow A f h (lnb th) s)"
        proof (cases "n_items s \<ge> max_bucket_length s * n_buckets s")
          case True
          have "list_step A l (?th\<lparr>lpc := GLoad (n_items s)\<rparr>) = Inr (?th\<lparr>lpc := GCheck\<rparr>, l)" using st True by (simp add: which_step grow_step_def expand_step_def)
          moreover have "leads A (over True) (?th\<lparr>lpc := GCheck\<rparr>, l) (grow A f h (lnb th) s)"
            using full [of "(?th\<lparr>lpc := GCheck\<rparr>, l)"] st True long False by (simp add: grow_def Let_def)
          ultimately show ?thesis by (rule leads.more)
        next
          case no: False
          have "list_step A l (?th\<lparr>lpc := GLoad (n_items s)\<rparr>) = Inr (?th\<lparr>lpc := GSplit\<rparr>, l)" using st no by (simp add: which_step grow_step_def expand_step_def)
          moreover have "leads A (over True) (?th\<lparr>lpc := GSplit\<rparr>, l) (grow A f h (lnb th) s)"
            using split [of "(?th\<lparr>lpc := GSplit\<rparr>, l)"] st no few long False by (simp add: grow_def Let_def cong: if_cong)
          ultimately show ?thesis by (rule leads.more)
        qed
        then show ?thesis by (rule leads.more [OF s2])
      qed
      then show ?thesis unfolding c by (rule leads.more [OF s1])
    qed
  qed
qed

section \<open>insert_node and delete_node\<close>

lemma insert_loop_leads:
  assumes "lop th = OInsert h v" "lret th = LStart"
  shows "stands LBucket th s c \<Longrightarrow> leads A (\<lambda>(ok, s') c'. stands (if ok then LReload else LFree) th s' c') c
    (insert_loop n A f h (lnode th) s)"
proof (induction n arbitrary: s c)
  case 0
  show ?case by (simp add: leads.fuel)
next
  case (Suc n)
  let ?Q = "\<lambda>(ok, s') c'. stands (if ok then LReload else LFree) th s' c'"
  have cas: "leads A ?Q c (bind_r (cas_next (cur s) (nxt s) (lnode th) s) (\<lambda>(ok, s).
      if ok then Inr (True, inc_item_count s) else insert_loop n A f h (lnode th) s))"
    if i: "stands LCas th s c" for s c
  proof -
    obtain th' l where c: "c = (th', l)" by (cases c)
    note st = i [unfolded c, simplified]
    show ?thesis unfolding c
    proof (rule leads_step [where k = "\<lambda>(ok, s'). (th'\<lparr>lpc := (if ok then LInc else LBucket)\<rparr>, solist.truncate s')"])
      fix x assume x: "cas_next (cur s) (nxt s) (lnode th) s = Inr x"
      obtain ok s' where x': "x = (ok, s')" by (cases x)
      have sc: "same_cursor s s'" using x x' same_cursor_ops(4) by auto
      have inc: "leads A ?Q (th'\<lparr>lpc := LInc\<rparr>, solist.truncate s') (Inr (True, inc_item_count s'))"
        by (rule leads_done [where c = "(th'\<lparr>lpc := LReload\<rparr>, solist.truncate (inc_item_count s'))"])
          (use st sc in \<open>simp_all add: which_step insert_step_def inc_item_count_def trunc_upd same_cursor_def\<close>)
      have "stands LBucket th s' (th'\<lparr>lpc := LBucket\<rparr>, solist.truncate s')" using st sc by (simp add: same_cursor_def)
      from Suc.IH [OF this] inc
      show "leads A ?Q (case x of (ok, s') \<Rightarrow> (th'\<lparr>lpc := (if ok then LInc else LBucket)\<rparr>, solist.truncate s'))
        (case x of (ok, s) \<Rightarrow> if ok then Inr (True, inc_item_count s) else insert_loop n A f h (lnode th) s)"
        by (cases ok) (simp_all add: x')
    qed (use st in \<open>auto simp: which_step insert_step_def ops_trunc\<close>)
  qed
  have link: "leads A ?Q c (bind_r (set_next (lnode th) (nxt s) s) (\<lambda>s. bind_r (cas_next (cur s) (nxt s) (lnode th) s) (\<lambda>(ok, s).
      if ok then Inr (True, inc_item_count s) else insert_loop n A f h (lnode th) s)))"
    if i: "stands LLink th s c" for s c
  proof -
    obtain th' l where c: "c = (th', l)" by (cases c)
    note st = i [unfolded c, simplified]
    show ?thesis unfolding c
    proof (rule leads_step [where k = "\<lambda>s'. (th'\<lparr>lpc := LCas\<rparr>, solist.truncate s')"])
      fix s' assume "set_next (lnode th) (nxt s) s = Inr s'"
      then have "stands LCas th s' (th'\<lparr>lpc := LCas\<rparr>, solist.truncate s')"
        using st same_cursor_ops(1) [of "lnode th" "nxt s" s s'] by (simp add: same_cursor_def)
      then show "leads A ?Q (th'\<lparr>lpc := LCas\<rparr>, solist.truncate s') (bind_r (cas_next (cur s') (nxt s') (lnode th) s') (\<lambda>(ok, s).
          if ok then Inr (True, inc_item_count s) else insert_loop n A f h (lnode th) s))" by (rule cas)
    qed (use st in \<open>simp_all add: which_step insert_step_def ops_trunc\<close>)
  qed
  show ?case unfolding insert_loop.simps
  proof (rule leads_bind [OF find_node_leads [OF Suc.prems assms(2)]])
    show "h = op_hash (lop th)" using assms(1) by simp
    fix x c' assume "(case x of (ok, s') \<Rightarrow> \<lambda>c'. stands (after_find ok th) th s' c') c'"
    then show "leads A ?Q c' (case x of (found, s) \<Rightarrow> if found then Inr (False, s)
      else bind_r (set_next (lnode th) (nxt s) s) (\<lambda>s. bind_r (cas_next (cur s) (nxt s) (lnode th) s) (\<lambda>(ok, s).
        if ok then Inr (True, inc_item_count s) else insert_loop n A f h (lnode th) s)))"
      using link by (cases "fst x") (auto simp: after_find_def assms(1) case_prod_unfold intro!: leads.here)
  qed
qed

lemma insert_node_leads:
  assumes "stands LNew th s c" "lop th = OInsert h v" "lret th = LStart"
  shows "leads A (\<lambda>(ok, s') c'. over ok s' c') c (insert_node A f h v s)"
proof -
  let ?Q = "\<lambda>(ok, s') c'. over ok s' c'"
  obtain th' l where c: "c = (th', l)" by (cases c)
  note st = assms [unfolded c, simplified]
  have free: "leads A ?Q c (bind_r (delete_cell (lnode th) s) (\<lambda>s. Inr (False, zap s)))" if i: "stands LFree th s c" for th and s :: "'a accessor" and c
  proof -
    obtain th' l where c: "c = (th', l)" by (cases c)
    note st = i [unfolded c, simplified]
    show ?thesis unfolding c
      by (rule leads_step [where k = "\<lambda>s'. (th'\<lparr>lpc := LDone False\<rparr>, solist.truncate s')"])
        (use st in \<open>auto simp: which_step insert_step_def ops_trunc zap_def intro!: leads.here\<close>)
  qed
  have walk: "leads A ?Q c (bind_r (next_of (cur s) s) (\<lambda>n. bind_r (scan f is_node True (s\<lparr>nxt := n\<rparr>)) (\<lambda>(ok, s).
      if \<not> ok then Inr (True, zap s) else bind_r (grow A f h (lnb th) s) (\<lambda>s. Inr (True, zap s)))))"
    if i: "stands LReload th s c" "op_hash (lop th) = h" for th s c
  proof -
    obtain th' l where c: "c = (th', l)" by (cases c)
    note st = i [unfolded c, simplified]
    show ?thesis unfolding c
    proof (rule leads_step [where k = "\<lambda>n. (th'\<lparr>lnxt := n, lpc := LWalk\<rparr>, l)"])
      fix n
      have "inside LWalk th (lslot th') (lbkt th') (lbkey th') (s\<lparr>nxt := n\<rparr>) (th'\<lparr>lnxt := n, lpc := LWalk\<rparr>, l)" using st by simp
      then show "leads A ?Q (th'\<lparr>lnxt := n, lpc := LWalk\<rparr>, l) (bind_r (scan f is_node True (s\<lparr>nxt := n\<rparr>)) (\<lambda>(ok, s).
          if \<not> ok then Inr (True, zap s) else bind_r (grow A f h (lnb th) s) (\<lambda>s. Inr (True, zap s))))"
      proof (rule leads_bind [OF insert_scan])
        fix x c' assume x: "(case x of (ok, s') \<Rightarrow> \<lambda>c'. ok \<and> inside LGrow th (lslot th') (lbkt th') (lbkey th') s' c') c'"
        obtain ok s1 where x': "x = (ok, s1)" by (cases x)
        have "leads A (over True) c' (grow A f h (lnb th) s1)"
          by (rule grow_leads) (use x x' i(2) in \<open>simp_all add: inside_def\<close>)
        then have "leads A ?Q c' (bind_r (grow A f h (lnb th) s1) (\<lambda>s. Inr (True, zap s)))"
          by (rule leads_bind) (auto simp: over_def zap_def intro!: leads.here)
        then show "leads A ?Q c' (case x of (ok, s) \<Rightarrow>
            if \<not> ok then Inr (True, zap s) else bind_r (grow A f h (lnb th) s) (\<lambda>s. Inr (True, zap s)))"
          using x x' by simp
      qed
    qed (use st in \<open>simp_all add: which_step insert_step_def\<close>)
  qed
  show ?thesis unfolding c insert_node_def Let_def
  proof (rule leads_step [where k = "\<lambda>(a, s'). (th'\<lparr>lnb := n_buckets s', lnode := a, lpc := LBucket\<rparr>, solist.truncate s')"])
    fix x assume x: "new_cell A (solist_node_ctor v h) s = Inr x"
    obtain a s1 where x': "x = (a, s1)" by (cases x)
    have nb: "n_buckets s1 = n_buckets s"
      using x x' by (auto simp: new_cell_def bind_r_Inr_iff split: option.splits)
    let ?th = "th\<lparr>lnb := n_buckets s, lnode := a\<rparr>"
    have "stands LBucket ?th s1 (th'\<lparr>lnb := n_buckets s1, lnode := a, lpc := LBucket\<rparr>, solist.truncate s1)"
      using st same_cursor_ops(3) [of A "solist_node_ctor v h" s a s1] x x' nb by (simp add: same_cursor_def)
    from insert_loop_leads [OF _ _ this, where h = h and v = v and n = f and f = f and A = A] assms(2,3)
    have loop: "leads A (\<lambda>(ok, s') c'. stands (if ok then LReload else LFree) ?th s' c')
      (th'\<lparr>lnb := n_buckets s1, lnode := a, lpc := LBucket\<rparr>, solist.truncate s1) (insert_loop f A f h a s1)" by simp
    show "leads A ?Q (case x of (a, s') \<Rightarrow> (th'\<lparr>lnb := n_buckets s', lnode := a, lpc := LBucket\<rparr>, solist.truncate s'))
      (case x of (dnode, s1) \<Rightarrow> bind_r (insert_loop f A f h dnode s1) (\<lambda>(result, s'). if \<not> result
        then bind_r (delete_cell dnode s') (\<lambda>s. Inr (result, zap s))
        else bind_r (next_of (cur s') s') (\<lambda>n. bind_r (scan f is_node True (s'\<lparr>nxt := n\<rparr>)) (\<lambda>(ok, s').
          if \<not> ok then Inr (result, zap s') else bind_r (grow A f h (n_buckets s) s') (\<lambda>s. Inr (result, zap s))))))"
      unfolding x' prod.case
    proof (rule leads_bind [OF loop])
      fix y c' assume y: "(case y of (ok, s') \<Rightarrow> \<lambda>c'. stands (if ok then LReload else LFree) ?th s' c') c'"
      obtain ok s2 where y': "y = (ok, s2)" by (cases y)
      show "leads A ?Q c' (case y of (result, s') \<Rightarrow> if \<not> result
        then bind_r (delete_cell a s') (\<lambda>s. Inr (result, zap s))
        else bind_r (next_of (cur s') s') (\<lambda>n. bind_r (scan f is_node True (s'\<lparr>nxt := n\<rparr>)) (\<lambda>(ok, s').
          if \<not> ok then Inr (result, zap s') else bind_r (grow A f h (n_buckets s) s') (\<lambda>s. Inr (result, zap s)))))"
        using y y' free [of ?th s2 c'] walk [of ?th s2 c'] assms(2) by (cases ok) (simp_all cong: if_cong)
    qed
  qed (use st in \<open>auto simp: which_step insert_step_def ops_trunc\<close>)
qed

lemma delete_loop_leads:
  assumes "lop th = ODelete h" "lret th = LStart"
  shows "stands LBucket th s c \<Longrightarrow> leads A (\<lambda>(ok, s') c'. over ok s' c') c (delete_loop n A f h s)"
proof (induction n arbitrary: s c)
  case 0
  show ?case by (simp add: leads.fuel)
next
  case (Suc n)
  let ?Q = "\<lambda>(ok, s') c'. over ok s' c'"
  have again: "leads A ?Q (th'\<lparr>lpc := LBucket\<rparr>, solist.truncate s') (delete_loop n A f h s')"
    if "stands pc th s (th', l)" "same_cursor s s'" for pc s s' th' l
    by (rule Suc.IH) (use that in \<open>simp add: same_cursor_def\<close>)
  have unlink: "leads A ?Q c (bind_r (cas_next (prv s) (cur s) (nxt s) s) (\<lambda>(ok, s).
      if ok then bind_r (delete_cell (cur s) (dec_item_count s)) (\<lambda>s. Inr (True, s)) else delete_loop n A f h s))"
    if i: "stands LUnlink th s c" for s c
  proof -
    obtain th' l where c: "c = (th', l)" by (cases c)
    note st = i [unfolded c, simplified]
    show ?thesis unfolding c
    proof (rule leads_step [where k = "\<lambda>(ok, s'). (th'\<lparr>lpc := (if ok then LDec else LBucket)\<rparr>, solist.truncate s')"])
      fix x assume x: "cas_next (prv s) (cur s) (nxt s) s = Inr x"
      obtain ok s' where x': "x = (ok, s')" by (cases x)
      have sc: "same_cursor s s'" using x x' same_cursor_ops(4) by auto
      let ?th = "th'\<lparr>lpc := LDelete\<rparr>"
      let ?s = "dec_item_count s'"
      have "list_step A (solist.truncate s') (th'\<lparr>lpc := LDec\<rparr>) = Inr (?th, solist.truncate ?s)"
        by (simp add: which_step delete_step_def dec_item_count_def trunc_upd)
      moreover have "leads A ?Q (?th, solist.truncate ?s) (bind_r (delete_cell (cur s') ?s) (\<lambda>s. Inr (True, s)))"
        by (rule leads_step [where k = "\<lambda>s'. (?th\<lparr>lpc := LDone True\<rparr>, solist.truncate s')"])
          (use st sc in \<open>auto simp: which_step delete_step_def ops_trunc same_cursor_def intro!: leads.here\<close>)
      ultimately have "leads A ?Q (th'\<lparr>lpc := LDec\<rparr>, solist.truncate s') (bind_r (delete_cell (cur s') ?s) (\<lambda>s. Inr (True, s)))"
        by (rule leads.more)
      with again [OF i [unfolded c] sc]
      show "leads A ?Q (case x of (ok, s') \<Rightarrow> (th'\<lparr>lpc := (if ok then LDec else LBucket)\<rparr>, solist.truncate s'))
        (case x of (ok, s) \<Rightarrow> if ok then bind_r (delete_cell (cur s) (dec_item_count s)) (\<lambda>s. Inr (True, s)) else delete_loop n A f h s)"
        using sc by (cases ok) (simp_all add: x' dec_item_count_def)
    qed (use st in \<open>auto simp: which_step delete_step_def ops_trunc\<close>)
  qed
  let ?K = "\<lambda>s. bind_r (cas_next_mark (cur s) (nxt s) (nxt s) True s) (\<lambda>(ok, s). if \<not> ok then delete_loop n A f h s
        else bind_r (cas_next (prv s) (cur s) (nxt s) s) (\<lambda>(ok, s).
          if ok then bind_r (delete_cell (cur s) (dec_item_count s)) (\<lambda>s. Inr (True, s)) else delete_loop n A f h s))"
  have mark: "leads A ?Q c (?K s)" if i: "stands LMark th s c" for s c
  proof -
    obtain th' l where c: "c = (th', l)" by (cases c)
    note st = i [unfolded c, simplified]
    show ?thesis unfolding c
    proof (rule leads_step [where k = "\<lambda>(ok, s'). (th'\<lparr>lpc := (if ok then LUnlink else LBucket)\<rparr>, solist.truncate s')"])
      fix x assume x: "cas_next_mark (cur s) (nxt s) (nxt s) True s = Inr x"
      obtain ok s' where x': "x = (ok, s')" by (cases x)
      have sc: "same_cursor s s'" using x x' same_cursor_ops(5) by auto
      have "stands LUnlink th s' (th'\<lparr>lpc := LUnlink\<rparr>, solist.truncate s')" using st sc by (simp add: same_cursor_def)
      from unlink [OF this] again [OF i [unfolded c] sc]
      show "leads A ?Q (case x of (ok, s') \<Rightarrow> (th'\<lparr>lpc := (if ok then LUnlink else LBucket)\<rparr>, solist.truncate s'))
        (case x of (ok, s) \<Rightarrow> if \<not> ok then delete_loop n A f h s else bind_r (cas_next (prv s) (cur s) (nxt s) s) (\<lambda>(ok, s).
          if ok then bind_r (delete_cell (cur s) (dec_item_count s)) (\<lambda>s. Inr (True, s)) else delete_loop n A f h s))"
        by (cases ok) (simp_all add: x')
    qed (use st in \<open>auto simp: which_step delete_step_def ops_trunc\<close>)
  qed
  show ?case unfolding delete_loop.simps
  proof (rule leads_bind [OF find_node_leads [OF Suc.prems assms(2)]])
    show "h = op_hash (lop th)" using assms(1) by simp
    fix x c' assume "(case x of (ok, s') \<Rightarrow> \<lambda>c'. stands (after_find ok th) th s' c') c'"
    then show "leads A ?Q c' (case x of (found, s) \<Rightarrow> if \<not> found then Inr (False, s) else ?K s)"
      using mark by (cases "fst x") (auto simp: after_find_def assms(1) case_prod_unfold over_stands intro!: leads.here)
  qed
qed

lemma delete_node_leads:
  assumes "stands LNew th s c" "lop th = ODelete h" "lret th = LStart"
  shows "leads A (\<lambda>(ok, s') c'. over ok s' c') c (delete_node A f h s)"
proof -
  obtain th' l where c: "c = (th', l)" by (cases c)
  note st = assms [unfolded c, simplified]
  have "stands LBucket th s (th'\<lparr>lpc := LBucket\<rparr>, l)" using st by simp
  from delete_loop_leads [OF assms(2,3) this]
  have "leads A (\<lambda>(ok, s') c'. over ok s' c') (th'\<lparr>lpc := LBucket\<rparr>, l) (delete_node A f h s)"
    unfolding delete_node_def by (rule leads_bind) (auto simp: over_def zap_def intro!: leads.here)
  moreover have "list_step A l th' = Inr (th'\<lparr>lpc := LBucket\<rparr>, l)" using st by (simp add: which_step insert_step_def)
  ultimately show ?thesis unfolding c by (rule leads.more [rotated])
qed

section \<open>From the call to the return\<close>

text \<open>The operation of \<open>Solist\<close> that a call stands for.\<close>

definition seq_op :: "'a allocator \<Rightarrow> nat \<Rightarrow> 'a lop \<Rightarrow> 'a accessor \<Rightarrow> (bool \<times> 'a accessor) res" where
  "seq_op A f p s =
     (case p of
        OInsert h v \<Rightarrow> insert_node A f h v s
      | ODelete h \<Rightarrow> delete_node A f h s
      | OFind h \<Rightarrow> find_node A f h s
      | OInit slot \<Rightarrow> bind_r (initialise_bucket A f slot s) (\<lambda>s. Inr (True, s)))"

lemma truncate_over [simp]: "solist.truncate (accessor_over st l) = l"
  by (simp add: accessor_over_def hazp_acquire_def zap_def solist.defs)

lemma alone_leads: "leads A (\<lambda>(b, s') c'. over b s' c') (call p, l) (seq_op A f p (accessor_over 0 l))"
proof -
  let ?s = "accessor_over 0 l"
  have cursor: "cur ?s = nullptr" "nxt ?s = nullptr" "prv ?s = nullptr" "steps ?s = 0"
    by (simp_all add: accessor_over_def hazp_acquire_def zap_def solist.defs)
  show ?thesis
  proof (cases p)
    case (OInsert h v)
    have "stands LNew (call p) ?s (call p, l)" "lop (call p) = OInsert h v" "lret (call p) = LStart"
      by (simp_all add: call_def cursor OInsert)
    then show ?thesis unfolding seq_op_def OInsert lop.case by (rule insert_node_leads)
  next
    case (ODelete h)
    have "stands LNew (call p) ?s (call p, l)" "lop (call p) = ODelete h" "lret (call p) = LStart"
      by (simp_all add: call_def cursor ODelete)
    then show ?thesis unfolding seq_op_def ODelete lop.case by (rule delete_node_leads)
  next
    case (OFind h)
    let ?c = "((call p)\<lparr>lpc := LBucket\<rparr>, l)"
    have "stands LBucket (call p) ?s ?c" "lret (call p) = LStart" "h = op_hash (lop (call p))"
      by (simp_all add: call_def cursor OFind)
    from find_node_leads [OF this]
    have "leads A (\<lambda>(b, s') c'. over b s' c') ?c (find_node A f h ?s)"
      by (rule leads_mono) (auto simp: after_find_def call_def OFind intro: over_stands)
    moreover have "list_step A l (call p) = Inr ?c" by (simp add: call_def OFind which_step insert_step_def)
    ultimately show ?thesis unfolding seq_op_def OFind lop.case by (simp add: leads.more)
  next
    case (OInit slot)
    have "stands BCheck (call p) ?s (call p, l)" "lslot (fst (call p, l)) = slot" by (simp_all add: call_def cursor OInit)
    from initialise_leads [OF this]
    have "leads A (over True) (call p, l) (initialise_bucket A f slot ?s)"
      by (rule leads_mono) (simp add: call_def OInit over_def stands_def)
    then show ?thesis unfolding seq_op_def OInit lop.case by (rule leads_bind) (simp add: leads.here)
  qed
qed

lemma alone_run:
  assumes "t < length (lthreads s)" "lthreads s ! t = call p" "seq_op A f p (accessor_over 0 (lst s)) \<noteq> Inl NoFuel"
  shows "\<exists>n. case seq_op A f p (accessor_over 0 (lst s)) of
      Inl e \<Rightarrow> schedule A (replicate n t) s = Inl e
    | Inr (b, s') \<Rightarrow> \<exists>th. lpc th = LDone b \<and>
        schedule A (replicate n t) s = Inr (s\<lparr>lst := solist.truncate s', lthreads := (lthreads s)[t := th]\<rparr>)"
proof -
  have "(call p, lst s) = (lthreads s ! t, lst s)" using assms(2) by simp
  from leads_schedule [OF alone_leads this assms(1,3)] obtain n where
    "case seq_op A f p (accessor_over 0 (lst s)) of Inl e \<Rightarrow> schedule A (replicate n t) s = Inl e
     | Inr x \<Rightarrow> \<exists>th l. (case x of (b, s') \<Rightarrow> \<lambda>c'. over b s' c') (th, l) \<and>
         schedule A (replicate n t) s = Inr (s\<lparr>lst := l, lthreads := (lthreads s)[t := th]\<rparr>)" by blast
  then show ?thesis by (intro exI [of _ n]) (auto split: sum.splits)
qed









text \<open>C9: the atomic steps and the sequential operations are the same program. The steps of a thread
  that runs alone from its call amount to the operation on a fresh accessor: they end with its
  result and its list, or in the failure of the operation.\<close>

theorem alone_sequential:
  assumes "t < length (lthreads s)" "lthreads s ! t = call p" "seq_op A f p (accessor_over 0 (lst s)) \<noteq> Inl NoFuel"
  shows "\<exists>n. case seq_op A f p (accessor_over 0 (lst s)) of
      Inl e \<Rightarrow> schedule A (replicate n t) s = Inl e
    | Inr (b, s') \<Rightarrow> \<exists>th. lpc th = LDone b \<and>
        schedule A (replicate n t) s = Inr (s\<lparr>lst := solist.truncate s', lthreads := (lthreads s)[t := th]\<rparr>)"
  using assms by (rule alone_run)

definition alone_list :: "string solist" where
  "alone_list = solist.truncate demo_list"

lemma alone_sequential_witness:
  "\<exists>n th l. lpc th = LDone False \<and> schedule demo_new (replicate n 1) (calls alone_list [OInsert 5 ''a'', OFind 8]) =
     Inr \<lparr>lst = l, lthreads = [call (OInsert 5 ''a''), th]\<rparr>"
proof -
  let ?r = "seq_op demo_new 9 (OFind 8) (accessor_over 0 alone_list)"
  have "case ?r of Inl _ \<Rightarrow> False | Inr (b, s') \<Rightarrow> \<not> b" by code_simp
  then obtain s' where r: "?r = Inr (False, s')" by (auto split: sum.split_asm)
  have "\<exists>n. case ?r of Inl e \<Rightarrow> schedule demo_new (replicate n 1) (calls alone_list [OInsert 5 ''a'', OFind 8]) = Inl e
    | Inr (b, s') \<Rightarrow> \<exists>th. lpc th = LDone b \<and> schedule demo_new (replicate n 1) (calls alone_list [OInsert 5 ''a'', OFind 8]) =
        Inr ((calls alone_list [OInsert 5 ''a'', OFind 8])\<lparr>lst := solist.truncate s',
          lthreads := (lthreads (calls alone_list [OInsert 5 ''a'', OFind 8]))[1 := th]\<rparr>)"
    using alone_sequential [of 1 "calls alone_list [OInsert 5 ''a'', OFind 8]" "OFind 8" demo_new 9] r
    by (simp add: calls_def)
  then show ?thesis by (auto simp: r calls_def)
qed



end
