(* ===== verification/HazPool.thy ===== *)
theory HazPool
  imports MarkPtr
begin

text \<open>
  The pools of hazard pointers (\<open>class hazptr_pool\<close> of \<open>hazard_pointer.hpp\<close> and
  \<open>hazard_pointer.cpp\<close>): 32 blocks of \<open>blk_size\<close> hazard pointers each, and a bitmap of the
  reserved blocks. A \<open>generic_hazptr_t*\<close> into the storage of a pool is a \<open>slot_ref\<close>: the identity
  of the pool's array (arrays of different pools do not overlap) and the index in it.
\<close>

section \<open>class hazptr_pool\<close>

type_synonym slot_ref = "nat \<times> nat"

record pool =
  pool_id :: nat
  haz_ptrs :: "uptr list"
  bitmap :: u32
  blk_size :: nat
  pool_count :: nat

definition HAZPTR_POOL_BLOCKS :: nat where
  "HAZPTR_POOL_BLOCKS = 32"

definition HAZPTR_POOL_BITMAP_FULL :: u32 where
  "HAZPTR_POOL_BITMAP_FULL = - 1"

definition pool_ctor :: "nat \<Rightarrow> nat \<Rightarrow> pool" where
  "pool_ctor i blocksize =
     (let n = blocksize * HAZPTR_POOL_BLOCKS in
      \<lparr>pool_id = i, haz_ptrs = replicate n nullptr, bitmap = 0, blk_size = blocksize, pool_count = n\<rparr>)"

definition has_reservations :: "pool \<Rightarrow> bool" where
  "has_reservations p \<longleftrightarrow> 0 \<noteq> bitmap p"

text \<open>The copying loop: the hazard pointers that are not null, from index \<open>ix_dst\<close> of \<open>dest\<close> on.\<close>

fun copy_nonnull :: "uptr list \<Rightarrow> uptr list \<Rightarrow> nat \<Rightarrow> (nat \<times> uptr list) res" where
  "copy_nonnull [] dest ix_dst = Inr (ix_dst, dest)"
| "copy_nonnull (p # ps) dest ix_dst =
     (if nullptr \<noteq> p
      then bind_r (arr_set dest ix_dst p) (\<lambda>dest. copy_nonnull ps dest (Suc ix_dst))
      else copy_nonnull ps dest ix_dst)"

definition copy_hazard_pointers :: "pool \<Rightarrow> uptr list \<Rightarrow> nat \<Rightarrow> nat \<Rightarrow> (nat \<times> uptr list) res" where
  "copy_hazard_pointers p dest from_ix cnt =
     (if \<not> cnt \<ge> pool_count p then Inl AssertFail
      else copy_nonnull (haz_ptrs p) dest from_ix)"

text \<open>The inner loop of \<open>reserve_impl\<close>: the first block that \<open>expected\<close> shows as free.\<close>

function free_block :: "u32 \<Rightarrow> u32 \<Rightarrow> nat \<Rightarrow> nat \<times> u32" where
  "free_block expected m ix =
     (if 0 \<noteq> expected AND m \<and> ix < HAZPTR_POOL_BLOCKS
      then free_block expected (push_bit 1 m) (Suc ix)
      else (ix, m))"
  by pat_completeness auto
termination by (relation "measure (\<lambda>(_, _, ix). HAZPTR_POOL_BLOCKS - ix)") auto

declare free_block.simps [simp del]

fun reserve_loop :: "nat \<Rightarrow> u32 \<Rightarrow> pool \<Rightarrow> (slot_ref option \<times> pool) res" where
  "reserve_loop 0 expected p = Inl NoFuel"
| "reserve_loop (Suc f) expected p =
     (if expected = HAZPTR_POOL_BITMAP_FULL then Inr (None, p)
      else case free_block expected 1 0 of (ix, m) \<Rightarrow>
        if ix < HAZPTR_POOL_BLOCKS
        then (case atomic_compare_exchange (bitmap p) expected (expected OR m) of (ok, bm, expected') \<Rightarrow>
               if ok then Inr (Some (pool_id p, ix * blk_size p), p\<lparr>bitmap := bm\<rparr>)
               else reserve_loop f expected' p)
        else reserve_loop f expected p)"

definition reserve_impl :: "nat \<Rightarrow> nat \<Rightarrow> pool \<Rightarrow> (slot_ref option \<times> pool) res" where
  "reserve_impl f len p =
     (if len \<noteq> blk_size p then Inr (None, p) else reserve_loop f (bitmap p) p)"

text \<open>The loops of \<open>release_impl\<close>: clearing the slots, then finding the block and its bit.\<close>

fun clear_block :: "nat \<Rightarrow> nat \<Rightarrow> uptr list \<Rightarrow> uptr list res" where
  "clear_block 0 i hs = Inr hs"
| "clear_block (Suc k) i hs =
     bind_r (arr_get hs i) (\<lambda>v.
     bind_r (if nullptr \<noteq> v then arr_set hs i nullptr else Inr hs) (clear_block k (Suc i)))"

fun flip_bit :: "nat \<Rightarrow> u32 \<Rightarrow> pool \<Rightarrow> pool res" where
  "flip_bit 0 m p = Inl NoFuel"
| "flip_bit (Suc f) m p =
     (let expected = bitmap p; desired = expected XOR m in
      case atomic_compare_exchange (bitmap p) expected desired of (ok, bm, _) \<Rightarrow>
        if ok then Inr (p\<lparr>bitmap := bm\<rparr>) else flip_bit f m p)"

fun release_bit :: "nat \<Rightarrow> nat \<Rightarrow> nat \<Rightarrow> u32 \<Rightarrow> nat \<Rightarrow> pool \<Rightarrow> pool res" where
  "release_bit f 0 ix m i p = Inr p"
| "release_bit f (Suc k) ix m i p =
     (if i = ix * blk_size p
      then if m = bitmap p AND m then flip_bit f m p else Inl AssertFail
      else release_bit f k (Suc ix) (push_bit 1 m) i p)"

definition release_impl :: "nat \<Rightarrow> slot_ref \<Rightarrow> pool \<Rightarrow> (bool \<times> pool) res" where
  "release_impl f r p =
     (if fst r \<noteq> pool_id p \<or> snd r \<ge> pool_count p then Inr (False, p)
      else
        bind_r (clear_block (blk_size p) (snd r) (haz_ptrs p)) (\<lambda>hs.
        bind_r (release_bit f HAZPTR_POOL_BLOCKS 0 1 (snd r) (p\<lparr>haz_ptrs := hs\<rparr>)) (\<lambda>p.
          Inr (True, p))))"

section \<open>The invariant of a pool\<close>

text \<open>
  The storage has the announced size, and the hazard pointers of the blocks that are not reserved
  are null.
\<close>

definition pool_ok :: "pool \<Rightarrow> bool" where
  "pool_ok p \<longleftrightarrow>
     length (haz_ptrs p) = pool_count p \<and> pool_count p = blk_size p * 32 \<and>
     (\<forall>ix<32. \<forall>x<blk_size p. \<not> bit (bitmap p) ix \<longrightarrow> haz_ptrs p ! (ix * blk_size p + x) = nullptr)"

lemma block_bound: "ix < 32 \<Longrightarrow> x < n \<Longrightarrow> ix * n + x < n * (32::nat)"
proof -
  assume "ix < 32" "x < n"
  then have "ix * n + x < Suc ix * n" "Suc ix * n \<le> 32 * n" by (simp, intro mult_le_mono1) simp
  then show ?thesis by linarith
qed

lemma pool_ctor_ok: "pool_ok (pool_ctor i n)" "bitmap (pool_ctor i n) = 0" "blk_size (pool_ctor i n) = n"
  "pool_id (pool_ctor i n) = i" "pool_count (pool_ctor i n) = n * 32"
  "set (haz_ptrs (pool_ctor i n)) \<subseteq> {nullptr}"
  by (auto simp: pool_ok_def pool_ctor_def Let_def HAZPTR_POOL_BLOCKS_def block_bound)

section \<open>Reservation\<close>

lemma bit_full: "bit HAZPTR_POOL_BITMAP_FULL n \<longleftrightarrow> n < 32"
  by (simp add: HAZPTR_POOL_BITMAP_FULL_def bit_simps)

lemma not_full_bit: "e \<noteq> HAZPTR_POOL_BITMAP_FULL \<longleftrightarrow> (\<exists>n<32. \<not> bit e n)"
  by (auto simp: bit_eq_iff bit_full dest: bit_imp_le_length)

lemma and_pow2_iff: "(e AND 2 ^ n :: u32) = 0 \<longleftrightarrow> \<not> bit e n"
proof -
  have "e AND 2 ^ n = (if bit e n then 2 ^ n else 0)"
    by (rule bit_word_eqI) (auto simp: bit_and_iff bit_exp_iff)
  moreover have "bit e n \<Longrightarrow> (2 ^ n :: u32) \<noteq> 0"
    using bit_imp_le_length [of e n] by (auto simp: exp_eq_zero_iff)
  ultimately show ?thesis by auto
qed

lemma free_block_finds:
  assumes "n < 32" "\<not> bit e n" "ix \<le> n"
  shows "\<exists>j\<le>n. free_block e (2 ^ ix) ix = (j, 2 ^ j) \<and> \<not> bit e j \<and> ix \<le> j \<and> (\<forall>i. ix \<le> i \<and> i < j \<longrightarrow> bit e i)"
  using assms
proof (induction "n - ix" arbitrary: ix rule: less_induct)
  case less
  show ?case
  proof (cases "bit e ix")
    case False
    then have "free_block e (2 ^ ix) ix = (ix, 2 ^ ix)" by (subst free_block.simps) (simp add: and_pow2_iff)
    then show ?thesis using less.prems False by auto
  next
    case True
    then have "ix < n" using less.prems by (cases "ix = n") auto
    then have "n - Suc ix < n - ix" "Suc ix \<le> n" by simp_all
    from less.hyps [OF this(1) less.prems(1,2) this(2)] obtain j where j: "j \<le> n"
      "free_block e (2 ^ Suc ix) (Suc ix) = (j, 2 ^ j)" "\<not> bit e j" "Suc ix \<le> j"
      "\<forall>i. Suc ix \<le> i \<and> i < j \<longrightarrow> bit e i" by blast
    have "free_block e (2 ^ ix) ix = free_block e (2 ^ Suc ix) (Suc ix)"
      using True \<open>ix < n\<close> less.prems(1)
      by (subst free_block.simps) (simp add: and_pow2_iff HAZPTR_POOL_BLOCKS_def push_bit_eq_mult mult.commute)
    moreover have "bit e i" if "ix \<le> i" "i < j" for i
      using that True j(5) by (cases "i = ix") (auto simp: Suc_le_eq)
    ultimately show ?thesis using j by (intro exI [of _ j]) auto
  qed
qed

text \<open>
  A reservation takes the lowest free block, and fails exactly when all blocks are taken; one pass
  of the loop is enough when no other thread interferes.
\<close>

lemma reserve_impl_free:
  assumes "blk_size p = len" "bitmap p \<noteq> HAZPTR_POOL_BITMAP_FULL"
  shows "\<exists>ix<32. \<not> bit (bitmap p) ix \<and> (\<forall>i<ix. bit (bitmap p) i) \<and>
    reserve_impl (Suc f) len p = Inr (Some (pool_id p, ix * len), p\<lparr>bitmap := bitmap p OR 2 ^ ix\<rparr>)"
proof -
  from assms(2) obtain n where "n < 32" "\<not> bit (bitmap p) n" by (auto simp: not_full_bit)
  from free_block_finds [OF this, of 0] obtain j where j: "j \<le> n"
    "free_block (bitmap p) 1 0 = (j, 2 ^ j)" "\<not> bit (bitmap p) j" "\<forall>i. i < j \<longrightarrow> bit (bitmap p) i" by auto
  with \<open>n < 32\<close> assms show ?thesis
    by (intro exI [of _ j]) (auto simp: reserve_impl_def atomic_compare_exchange_def HAZPTR_POOL_BLOCKS_def)
qed

lemma reserve_impl_full:
  "blk_size p \<noteq> len \<or> bitmap p = HAZPTR_POOL_BITMAP_FULL \<Longrightarrow> reserve_impl (Suc f) len p = Inr (None, p)"
  by (auto simp: reserve_impl_def)

lemma pool_ok_reserve: "pool_ok p \<Longrightarrow> pool_ok (p\<lparr>bitmap := bitmap p OR m\<rparr>)"
  by (auto simp: pool_ok_def bit_or_iff)

section \<open>Release\<close>

lemma clear_block_eq:
  "i + k \<le> length hs \<Longrightarrow> clear_block k i hs = Inr (take i hs @ replicate k nullptr @ drop (i + k) hs)"
proof (induction k arbitrary: i hs)
  case (Suc k)
  then have i: "i < length hs" by simp
  let ?hs = "hs[i := nullptr]"
  have "clear_block (Suc k) i hs = clear_block k (Suc i) ?hs"
    using i list_update_id [of hs i] by (cases "hs ! i = nullptr") simp_all
  also have "\<dots> = Inr (take (Suc i) ?hs @ replicate k nullptr @ drop (Suc i + k) ?hs)"
    using Suc.prems by (intro Suc.IH) simp
  also have "\<dots> = Inr (take i hs @ replicate (Suc k) nullptr @ drop (i + Suc k) hs)"
    using i by (simp add: take_Suc_conv_app_nth)
  finally show ?case .
qed simp

lemma release_bit_finds:
  assumes "blk_size p \<noteq> 0" "ix < 32" "bit (bitmap p) ix" "j \<le> ix"
  shows "release_bit (Suc f) (32 - j) j (2 ^ j) (ix * blk_size p) p = Inr (p\<lparr>bitmap := bitmap p XOR 2 ^ ix\<rparr>)"
  using assms
proof (induction "ix - j" arbitrary: j)
  case 0
  then have "j = ix" by simp
  obtain k where k: "32 - ix = Suc k" using 0 by (metis Suc_diff_Suc)
  have "2 ^ ix = bitmap p AND 2 ^ ix"
    using 0 by (intro bit_word_eqI) (auto simp: bit_and_iff bit_exp_iff)
  with \<open>j = ix\<close> k show ?case by (simp add: Let_def atomic_compare_exchange_def)
next
  case (Suc d)
  then have "j < ix" by simp
  obtain k where k: "32 - j = Suc k" "k = 32 - Suc j" using Suc.prems \<open>j < ix\<close> by (metis Suc_diff_Suc less_trans)
  have "release_bit (Suc f) (32 - Suc j) (Suc j) (2 ^ Suc j) (ix * blk_size p) p
      = Inr (p\<lparr>bitmap := bitmap p XOR 2 ^ ix\<rparr>)"
    using Suc.prems Suc.hyps(2) \<open>j < ix\<close> by (intro Suc.hyps(1)) auto
  with \<open>j < ix\<close> Suc.prems(1) k show ?case
    by (simp add: push_bit_eq_mult mult.commute)
qed

text \<open>Releasing the reserved block \<open>ix\<close> clears its hazard pointers and its bit.\<close>

lemma release_impl_block:
  assumes ok: "pool_ok p" and b: "blk_size p \<noteq> 0" "ix < 32" "bit (bitmap p) ix"
  shows "release_impl (Suc f) (pool_id p, ix * blk_size p) p =
    Inr (True, p\<lparr>haz_ptrs := take (ix * blk_size p) (haz_ptrs p) @ replicate (blk_size p) nullptr
                   @ drop (ix * blk_size p + blk_size p) (haz_ptrs p),
                 bitmap := bitmap p XOR 2 ^ ix\<rparr>)"
proof -
  have le: "ix * blk_size p + blk_size p \<le> length (haz_ptrs p)"
    using ok b(1,2) block_bound [of ix "blk_size p - 1" "blk_size p"] by (simp add: pool_ok_def)
  then have "ix * blk_size p < pool_count p" using ok b(1) by (simp add: pool_ok_def)
  moreover note clear_block_eq [OF le] release_bit_finds [of "p\<lparr>haz_ptrs := hs\<rparr>" ix 0 f for hs]
  ultimately show ?thesis using b by (simp add: release_impl_def HAZPTR_POOL_BLOCKS_def)
qed

lemma release_impl_foreign: "fst r \<noteq> pool_id p \<Longrightarrow> release_impl f r p = Inr (False, p)"
  by (simp add: release_impl_def)

end
