(* ===== verification/HazSnapshot.thy ===== *)
theory HazSnapshot
  imports HazPool
begin

text \<open>
  The snapshot of the hazard pointers of a domain (\<open>class hazptrs_snapshot\<close>): the pointers of all
  pools are copied, sorted, stripped of their mark and searched by binary search. The theory shows
  that the search answers exactly whether a pointer is protected.
\<close>

section \<open>class hazptrs_snapshot\<close>

record snapshot =
  ptrvalues :: "uptr list"
  begin_ix :: nat
  end_ix :: nat
  snap_size :: nat

primrec snapshot_count :: "pool list \<Rightarrow> nat" where
  "snapshot_count [] = 0"
| "snapshot_count (p # ps) = pool_count p + snapshot_count ps"

fun snapshot_copy :: "pool list \<Rightarrow> uptr list \<Rightarrow> nat \<Rightarrow> (nat \<times> uptr list) res" where
  "snapshot_copy [] dest cnt = Inr (cnt, dest)"
| "snapshot_copy (p # ps) dest cnt =
     bind_r (copy_hazard_pointers p dest cnt (pool_count p)) (\<lambda>(cnt, dest). snapshot_copy ps dest cnt)"

text \<open>
  The constructor. The array comes uninitialised from \<open>new\<close>; what it holds from \<open>end\<close> on is never
  read, so it is filled with null pointers here.
\<close>

definition take_snapshot :: "pool list \<Rightarrow> snapshot res" where
  "take_snapshot ps =
     (let sz = snapshot_count ps in
      bind_r (snapshot_copy ps (replicate sz nullptr) 0) (\<lambda>(cnt, vals).
        if \<not> cnt \<le> sz then Inl AssertFail
        else let vals = sort (take cnt vals) @ drop cnt vals;
                 vals = map (\<lambda>v. v AND mark_bits_maskoff) (take cnt vals) @ drop cnt vals
          in Inr \<lparr>ptrvalues = vals, begin_ix = 0, end_ix = cnt, snap_size = sz\<rparr>))"

definition snapshot_reset :: "snapshot \<Rightarrow> snapshot" where
  "snapshot_reset h = \<lparr>ptrvalues = [], begin_ix = 0, end_ix = 0, snap_size = 0\<rparr>"

text \<open>The move constructor: the new snapshot and what is left of the old one.\<close>

definition snapshot_move :: "snapshot \<Rightarrow> snapshot \<times> snapshot" where
  "snapshot_move h = (h, snapshot_reset h)"

text \<open>\<open>std::lower_bound\<close> and \<open>std::binary_search\<close> on the range of \<open>len\<close> elements from \<open>first\<close>.\<close>

function lower_bound :: "uptr list \<Rightarrow> uptr \<Rightarrow> nat \<Rightarrow> nat \<Rightarrow> nat res" where
  "lower_bound vals v first len =
     (if len = 0 then Inr first
      else let half = len div 2 in
        bind_r (arr_get vals (first + half)) (\<lambda>m.
          if m < v then lower_bound vals v (first + half + 1) (len - half - 1)
          else lower_bound vals v first half))"
  by pat_completeness auto
termination by (relation "measure (\<lambda>(_, _, _, len). len)") auto

declare lower_bound.simps [simp del]

definition binary_search :: "uptr list \<Rightarrow> nat \<Rightarrow> nat \<Rightarrow> uptr \<Rightarrow> bool res" where
  "binary_search vals first stop v =
     bind_r (lower_bound vals v first (stop - first)) (\<lambda>i.
       if i = stop then Inr False else bind_r (arr_get vals i) (\<lambda>x. Inr (\<not> v < x)))"

definition snapshot_search :: "snapshot \<Rightarrow> uptr \<Rightarrow> bool res" where
  "snapshot_search h p = binary_search (ptrvalues h) (begin_ix h) (end_ix h) p"

section \<open>Binary search\<close>

lemma lower_bound_finds:
  assumes "first + len \<le> length vals" "\<And>i j. i < j \<Longrightarrow> j < first + len \<Longrightarrow> first \<le> i \<Longrightarrow> vals ! i \<le> vals ! j"
  shows "\<exists>k. lower_bound vals v first len = Inr k \<and> first \<le> k \<and> k \<le> first + len \<and>
    (\<forall>i. first \<le> i \<and> i < k \<longrightarrow> vals ! i < v) \<and> (\<forall>i. k \<le> i \<and> i < first + len \<longrightarrow> v \<le> vals ! i)"
  using assms
proof (induction len arbitrary: first rule: less_induct)
  case (less len)
  show ?case
  proof (cases "len = 0")
    case True
    then show ?thesis by (subst lower_bound.simps) auto
  next
    case False
    let ?h = "len div 2"
    have h: "first + ?h < length vals" "?h < len" using False less.prems(1) by auto
    have mono: "vals ! i \<le> vals ! j" if "first \<le> i" "i \<le> j" "j < first + len" for i j
      using less.prems(2) [of i j] that by (cases "i = j") auto
    show ?thesis
    proof (cases "vals ! (first + ?h) < v")
      case True
      have "\<exists>k. lower_bound vals v (first + ?h + 1) (len - ?h - 1) = Inr k \<and> first + ?h + 1 \<le> k \<and>
        k \<le> first + ?h + 1 + (len - ?h - 1) \<and>
        (\<forall>i. first + ?h + 1 \<le> i \<and> i < k \<longrightarrow> vals ! i < v) \<and>
        (\<forall>i. k \<le> i \<and> i < first + ?h + 1 + (len - ?h - 1) \<longrightarrow> v \<le> vals ! i)"
        using h less.prems by (intro less.IH) auto
      then obtain k where k: "lower_bound vals v (first + ?h + 1) (len - ?h - 1) = Inr k"
        "first + ?h + 1 \<le> k" "k \<le> first + len" "\<forall>i. first + ?h + 1 \<le> i \<and> i < k \<longrightarrow> vals ! i < v"
        "\<forall>i. k \<le> i \<and> i < first + len \<longrightarrow> v \<le> vals ! i" using h(2) by auto
      moreover have "vals ! i < v" if "first \<le> i" "i \<le> first + ?h" for i
        using mono [of i "first + ?h"] that h(2) True by (auto intro: le_less_trans)
      moreover have "lower_bound vals v first len = lower_bound vals v (first + ?h + 1) (len - ?h - 1)"
        using False True h by (subst lower_bound.simps) (simp add: Let_def)
      ultimately show ?thesis
        by (intro exI [of _ k]) (metis Suc_eq_plus1 not_less_eq_eq order_trans le_add1)
    next
      case ge: False
      have "\<exists>k. lower_bound vals v first ?h = Inr k \<and> first \<le> k \<and> k \<le> first + ?h \<and>
        (\<forall>i. first \<le> i \<and> i < k \<longrightarrow> vals ! i < v) \<and> (\<forall>i. k \<le> i \<and> i < first + ?h \<longrightarrow> v \<le> vals ! i)"
        using h less.prems by (intro less.IH) auto
      then obtain k where k: "lower_bound vals v first ?h = Inr k" "first \<le> k" "k \<le> first + ?h"
        "\<forall>i. first \<le> i \<and> i < k \<longrightarrow> vals ! i < v" "\<forall>i. k \<le> i \<and> i < first + ?h \<longrightarrow> v \<le> vals ! i" by auto
      moreover have "v \<le> vals ! i" if "first + ?h \<le> i" "i < first + len" for i
        using mono [of "first + ?h" i] that ge by (auto simp: not_less intro: order_trans)
      moreover have "lower_bound vals v first len = lower_bound vals v first ?h"
        using False ge h by (subst lower_bound.simps) (simp add: Let_def)
      moreover have "k \<le> first + len" using k(3) h(2) by linarith
      ultimately show ?thesis by (intro exI [of _ k]) (metis not_le)
    qed
  qed
qed

lemma binary_search_correct:
  assumes "sorted vs" 
  shows "binary_search (vs @ rest) 0 (length vs) v = Inr (v \<in> set vs)"
proof -
  have nth: "(vs @ rest) ! i = vs ! i" if "i < length vs" for i using that by (simp add: nth_append)
  have "\<exists>k. lower_bound (vs @ rest) v 0 (length vs) = Inr k \<and> 0 \<le> k \<and> k \<le> 0 + length vs \<and>
    (\<forall>i. 0 \<le> i \<and> i < k \<longrightarrow> (vs @ rest) ! i < v) \<and> (\<forall>i. k \<le> i \<and> i < 0 + length vs \<longrightarrow> v \<le> (vs @ rest) ! i)"
    using assms by (intro lower_bound_finds) (auto simp: nth sorted_wrt_iff_nth_less)
  then obtain k where k: "lower_bound (vs @ rest) v 0 (length vs) = Inr k" "k \<le> length vs"
    "\<forall>i<k. vs ! i < v" "\<forall>i. k \<le> i \<and> i < length vs \<longrightarrow> v \<le> vs ! i" by (auto simp: nth)
  have "v \<in> set vs \<longleftrightarrow> k < length vs \<and> vs ! k = v"
  proof
    assume "v \<in> set vs"
    then obtain i where i: "i < length vs" "vs ! i = v" by (auto simp: in_set_conv_nth)
    then have "k \<le> i" using k(3) by (metis less_irrefl not_less)
    then have "vs ! k \<le> v" using assms i by (auto simp: sorted_iff_nth_mono)
    with k(4) i \<open>k \<le> i\<close> show "k < length vs \<and> vs ! k = v" by (auto intro: antisym)
  qed auto
  moreover have "k < length vs \<Longrightarrow> \<not> v < vs ! k \<longleftrightarrow> vs ! k = v" using k(4) by force
  ultimately show ?thesis using k(1,2) by (auto simp: binary_search_def nth_append)
qed

section \<open>What a snapshot holds\<close>

definition nonnull :: "uptr list \<Rightarrow> uptr list" where
  "nonnull hs = filter (\<lambda>v. v \<noteq> nullptr) hs"

definition hazards :: "pool list \<Rightarrow> uptr list" where
  "hazards ps = concat (map (\<lambda>p. nonnull (haz_ptrs p)) ps)"

lemma copy_nonnull_eq:
  "k + length hs \<le> length dest \<Longrightarrow> copy_nonnull hs dest k =
     Inr (k + length (nonnull hs), take k dest @ nonnull hs @ drop (k + length (nonnull hs)) dest)"
proof (induction hs arbitrary: dest k)
  case (Cons p hs)
  show ?case
  proof (cases "p = nullptr")
    case True
    then show ?thesis using Cons by (simp add: nonnull_def)
  next
    case False
    then have "copy_nonnull (p # hs) dest k = copy_nonnull hs (dest[k := p]) (Suc k)"
      using Cons.prems by simp
    also have "\<dots> = Inr (Suc k + length (nonnull hs), take (Suc k) (dest[k := p]) @ nonnull hs @
       drop (Suc k + length (nonnull hs)) (dest[k := p]))"
      using Cons.prems by (intro Cons.IH) simp
    finally show ?thesis
      using False Cons.prems by (simp add: nonnull_def take_Suc_conv_app_nth)
  qed
qed (simp add: nonnull_def)

lemma length_nonnull: "length (nonnull hs) \<le> length hs"
  by (simp add: nonnull_def)

lemma snapshot_copy_eq:
  assumes "\<forall>p\<in>set ps. length (haz_ptrs p) = pool_count p" "k + snapshot_count ps \<le> length dest"
  shows "snapshot_copy ps dest k =
    Inr (k + length (hazards ps), take k dest @ hazards ps @ drop (k + length (hazards ps)) dest)"
  using assms
proof (induction ps arbitrary: dest k)
  case (Cons p ps)
  let ?n = "nonnull (haz_ptrs p)"
  let ?d = "take k dest @ ?n @ drop (k + length ?n) dest"
  have ln: "length ?n \<le> pool_count p" using Cons.prems(1) length_nonnull [of "haz_ptrs p"] by simp
  have "copy_hazard_pointers p dest k (pool_count p) = Inr (k + length ?n, ?d)"
    using Cons.prems by (simp add: copy_hazard_pointers_def copy_nonnull_eq)
  then have "snapshot_copy (p # ps) dest k = snapshot_copy ps ?d (k + length ?n)" by simp
  also have "\<dots> = Inr (k + length ?n + length (hazards ps), take (k + length ?n) ?d @ hazards ps @
      drop (k + length ?n + length (hazards ps)) ?d)"
    using Cons.prems ln by (intro Cons.IH) auto
  also have "take (k + length ?n) ?d = take k dest @ ?n" using Cons.prems ln by simp
  also have "drop (k + length ?n + length (hazards ps)) ?d = drop (k + length (hazards (p # ps))) dest"
    using Cons.prems ln by (simp add: hazards_def ac_simps)
  finally show ?case by (simp add: hazards_def ac_simps)
qed (simp add: hazards_def)

text \<open>Clearing the mark keeps the order, so masking a sorted array leaves it sorted.\<close>

lemma maskoff_mono: "v \<le> w \<Longrightarrow> v AND mark_bits_maskoff \<le> w AND mark_bits_maskoff"
proof -
  have "mark_bits_maskoff = NOT (mask 1)" by (simp add: mark_bits_maskoff_def mark_bits_mask_def mask_eq_exp_minus_1)
  then have u: "unat (x AND mark_bits_maskoff) = unat x div 2 * 2" for x :: uptr
    using unat_clear_low [of x 1] by (simp only: power_one_right minus_mod_eq_div_mult)
  assume "v \<le> w"
  then have "unat v div 2 \<le> unat w div 2" by (intro div_le_mono) (simp add: word_le_nat_alt)
  then show ?thesis by (simp add: word_le_nat_alt u)
qed

text \<open>The objects the hazard pointers of the pools protect: their values without the mark.\<close>

definition protected :: "pool list \<Rightarrow> uptr set" where
  "protected ps = (\<lambda>v. v AND mark_bits_maskoff) ` set (hazards ps)"

lemma in_protected:
  "x \<in> protected ps \<longleftrightarrow> (\<exists>p\<in>set ps. \<exists>v\<in>set (haz_ptrs p). v \<noteq> nullptr \<and> x = v AND mark_bits_maskoff)"
  by (auto simp: protected_def hazards_def nonnull_def)

lemma length_hazards:
  "\<forall>p\<in>set ps. length (haz_ptrs p) = pool_count p \<Longrightarrow> length (hazards ps) \<le> snapshot_count ps"
proof (induction ps)
  case (Cons p ps)
  then show ?case using length_nonnull [of "haz_ptrs p"] by (simp add: hazards_def)
qed (simp add: hazards_def)

lemma sorted_mask: "sorted vs \<Longrightarrow> sorted (map (\<lambda>v. v AND mark_bits_maskoff) vs)"
  by (induction vs) (auto intro: maskoff_mono)

lemma take_snapshot_eq:
  assumes "\<forall>p\<in>set ps. length (haz_ptrs p) = pool_count p"
  shows "\<exists>rest. take_snapshot ps =
    Inr \<lparr>ptrvalues = map (\<lambda>v. v AND mark_bits_maskoff) (sort (hazards ps)) @ rest,
         begin_ix = 0, end_ix = length (hazards ps), snap_size = snapshot_count ps\<rparr>"
  using snapshot_copy_eq [OF assms, of 0 "replicate (snapshot_count ps) nullptr"] length_hazards [OF assms]
  by (simp add: take_snapshot_def Let_def)

text \<open>A snapshot can always be taken, and it answers whether an object is protected.\<close>

lemma snapshot_correct:
  assumes "\<forall>p\<in>set ps. length (haz_ptrs p) = pool_count p"
  shows "\<exists>h. take_snapshot ps = Inr h \<and> (\<forall>x. snapshot_search h x = Inr (x \<in> protected ps))"
proof -
  from take_snapshot_eq [OF assms] obtain rest where ts: "take_snapshot ps =
    Inr \<lparr>ptrvalues = map (\<lambda>v. v AND mark_bits_maskoff) (sort (hazards ps)) @ rest,
         begin_ix = 0, end_ix = length (hazards ps), snap_size = snapshot_count ps\<rparr>" ..
  have "binary_search (map (\<lambda>v. v AND mark_bits_maskoff) (sort (hazards ps)) @ rest) 0
      (length (map (\<lambda>v. v AND mark_bits_maskoff) (sort (hazards ps)))) x = Inr (x \<in> protected ps)" for x
    unfolding protected_def by (subst binary_search_correct) (auto intro: sorted_mask)
  with ts show ?thesis by (simp add: snapshot_search_def)
qed

end
