(* ===== verification/HazDomain.thy ===== *)
theory HazDomain
  imports HazSnapshot "HOL-Library.Multiset"
begin

text \<open>
  The hazard pointer domain: \<open>class hazptr_domain\<close> with its list of pools and its list of objects
  to delete, and the typed wrapper \<open>hazard_pointer_domain\<close> that reclaims them. The state also
  holds the objects of the client: \<open>objs\<close> are the live ones, \<open>reclaimed\<close> those the domain
  destroyed, the latest first. A pointer to a pool's slot is a \<open>slot_ref\<close>. The threads of a
  program run these operations one at a time here; their atomic steps are those
  of \<open>DelConc\<close>, \<open>PoolConc\<close> and \<open>NewPool\<close>. Allocations succeed.
\<close>

section \<open>The state\<close>

record domain =
  pools :: "pool list"
  hp_count :: int
  delete_list :: "uptr list"
  delete_count :: int
  next_id :: nat
  objs :: "uptr set"
  reclaimed :: "uptr list"

definition dom_make :: "uptr set \<Rightarrow> domain" where
  "dom_make live =
     \<lparr>pools = [], hp_count = 0, delete_list = [], delete_count = 0, next_id = 0, objs = live, reclaimed = []\<rparr>"

section \<open>class hazptr_domain\<close>

definition pools_new :: "nat \<Rightarrow> domain \<Rightarrow> domain" where
  "pools_new blocklen d =
     (let pool = pool_ctor (next_id d) blocklen in
      d\<lparr>pools := pool # pools d, next_id := Suc (next_id d), hp_count := hp_count d + int (pool_count pool)\<rparr>)"

text \<open>
  The loop of \<open>pools_reserve\<close> asks the pool \<open>p\<close> it starts with, and asks it again as long as it
  gets no block: the loop does not advance \<open>p\<close>.
\<close>

fun pools_reserve :: "nat \<Rightarrow> nat \<Rightarrow> nat \<Rightarrow> pool list \<Rightarrow> (slot_ref option \<times> pool list) res" where
  "pools_reserve 0 f blocklen ps = Inl NoFuel"
| "pools_reserve (Suc t) f blocklen [] = Inr (None, [])"
| "pools_reserve (Suc t) f blocklen (p # ps) =
     bind_r (reserve_impl f blocklen p) (\<lambda>(r, p).
       case r of None \<Rightarrow> pools_reserve t f blocklen (p # ps) | Some b \<Rightarrow> Inr (Some b, p # ps))"

fun pools_release :: "nat \<Rightarrow> slot_ref \<Rightarrow> pool list \<Rightarrow> (bool \<times> pool list) res" where
  "pools_release f r [] = Inr (False, [])"
| "pools_release f r (p # ps) =
     bind_r (release_impl f r p) (\<lambda>(released, p).
       if released then Inr (True, p # ps)
       else bind_r (pools_release f r ps) (\<lambda>(released, ps). Inr (released, p # ps)))"

definition dom_reserve :: "nat \<Rightarrow> nat \<Rightarrow> domain \<Rightarrow> (slot_ref \<times> domain) res" where
  "dom_reserve f blocklen d =
     bind_r (pools_reserve f f blocklen (pools d)) (\<lambda>(r, ps).
     bind_r (case r of
         None \<Rightarrow>
           (let d1 = pools_new blocklen (d\<lparr>pools := ps\<rparr>) in
            bind_r (pools_reserve f f blocklen (pools d1)) (\<lambda>(r, ps). Inr (r, d1\<lparr>pools := ps\<rparr>)))
       | Some b \<Rightarrow> Inr (r, d\<lparr>pools := ps\<rparr>)) (\<lambda>(r, d).
       case r of None \<Rightarrow> Inl AssertFail | Some b \<Rightarrow> Inr (b, d)))"

definition dom_release :: "nat \<Rightarrow> slot_ref \<Rightarrow> nat \<Rightarrow> domain \<Rightarrow> domain res" where
  "dom_release f hps blocklen d =
     bind_r (pools_release f hps (pools d)) (\<lambda>(released, ps).
       if released then Inr (d\<lparr>pools := ps\<rparr>) else Inl AssertFail)"

definition push_delete_node :: "uptr \<Rightarrow> domain \<Rightarrow> domain" where
  "push_delete_node x d = d\<lparr>delete_list := x # delete_list d, delete_count := delete_count d + 1\<rparr>"

definition dom_enqueue :: "uptr \<Rightarrow> domain \<Rightarrow> domain" where
  "dom_enqueue item_ptr d = push_delete_node item_ptr d"

text \<open>The array form: the pointers that are not null are pushed and set to null.\<close>

fun dom_enqueue_all :: "uptr list \<Rightarrow> domain \<Rightarrow> uptr list \<times> domain" where
  "dom_enqueue_all [] d = ([], d)"
| "dom_enqueue_all (x # xs) d =
     (if nullptr \<noteq> x
      then (case dom_enqueue_all xs (push_delete_node x d) of (ys, d) \<Rightarrow> (nullptr # ys, d))
      else (case dom_enqueue_all xs d of (ys, d) \<Rightarrow> (x # ys, d)))"

text \<open>\<open>reclaim_object\<close> of the typed domain: the destructor of the object and its deallocation.\<close>

definition reclaim_object :: "uptr \<Rightarrow> domain \<Rightarrow> domain res" where
  "reclaim_object item_ptr d =
     (if item_ptr = nullptr then Inl NullDeref
      else if item_ptr \<notin> objs d then Inl BadAccess
      else Inr (d\<lparr>objs := objs d - {item_ptr}, reclaimed := item_ptr # reclaimed d\<rparr>))"

text \<open>The loop of \<open>collect\<close> over the local delete list; the nodes that stay on it.\<close>

fun collect_scan :: "snapshot \<Rightarrow> uptr list \<Rightarrow> domain \<Rightarrow> (uptr list \<times> domain) res" where
  "collect_scan hps [] d = Inr ([], d)"
| "collect_scan hps (x # xs) d =
     bind_r (snapshot_search hps x) (\<lambda>found.
       if \<not> found then bind_r (reclaim_object x d) (collect_scan hps xs)
       else bind_r (collect_scan hps xs d) (\<lambda>(keep, d). Inr (x # keep, d)))"

primrec push_all :: "uptr list \<Rightarrow> domain \<Rightarrow> domain" where
  "push_all [] d = d"
| "push_all (x # xs) d = push_all xs (push_delete_node x d)"

definition collect :: "domain \<Rightarrow> domain res" where
  "collect d =
     (let local_delete = delete_list d; d = d\<lparr>delete_list := []\<rparr> in
      if local_delete = [] then Inr d
      else
        bind_r (take_snapshot (pools d)) (\<lambda>hps.
        bind_r (collect_scan hps local_delete d) (\<lambda>(keep, d).
          Inr (push_all keep d))))"

fun collect_check :: "nat \<Rightarrow> bool \<Rightarrow> domain \<Rightarrow> (bool \<times> domain) res" where
  "collect_check 0 do_collect d = Inl NoFuel"
| "collect_check (Suc f) do_collect d =
     (if delete_count d > hp_count d
      then let dc = delete_count d in
        case atomic_compare_exchange (delete_count d) dc 0 of (ok, n, _) \<Rightarrow>
          collect_check f ok (d\<lparr>delete_count := n\<rparr>)
      else Inr (do_collect, d))"

definition collect_if_required :: "nat \<Rightarrow> domain \<Rightarrow> domain res" where
  "collect_if_required f d =
     bind_r (collect_check f False d) (\<lambda>(do_collect, d). if do_collect then collect d else Inr d)"

text \<open>The destructor: the delete list has to be empty, the pools without reservations.\<close>

fun delete_pools :: "pool list \<Rightarrow> unit res" where
  "delete_pools [] = Inr ()"
| "delete_pools (p # ps) = (if has_reservations p then Inl AssertFail else delete_pools ps)"

definition dom_dtor :: "domain \<Rightarrow> domain res" where
  "dom_dtor d =
     (if delete_list d \<noteq> [] then Inl AssertFail
      else bind_r (delete_pools (pools d)) (\<lambda>_. Inr (d\<lparr>pools := []\<rparr>)))"

section \<open>class hazard_pointer and class hazard_pointer_domain\<close>

text \<open>Storing to and loading from a hazard pointer at a slot of a pool.\<close>

fun hp_store :: "slot_ref \<Rightarrow> uptr \<Rightarrow> pool list \<Rightarrow> pool list res" where
  "hp_store r v [] = Inl BadAccess"
| "hp_store r v (p # ps) =
     (if fst r = pool_id p
      then bind_r (arr_set (haz_ptrs p) (snd r) v) (\<lambda>hs. Inr (p\<lparr>haz_ptrs := hs\<rparr> # ps))
      else bind_r (hp_store r v ps) (\<lambda>ps. Inr (p # ps)))"

fun hp_load :: "slot_ref \<Rightarrow> pool list \<Rightarrow> uptr res" where
  "hp_load r [] = Inl BadAccess"
| "hp_load r (p # ps) =
     (if fst r = pool_id p then arr_get (haz_ptrs p) (snd r) else hp_load r ps)"

text \<open>
  The constructors of the \<open>hazard_pointer\<close> objects placed on a block, and their destructors: both
  store the null pointer.
\<close>

fun hp_clear :: "nat \<Rightarrow> slot_ref \<Rightarrow> pool list \<Rightarrow> pool list res" where
  "hp_clear 0 r ps = Inr ps"
| "hp_clear (Suc k) r ps = bind_r (hp_store r nullptr ps) (hp_clear k (fst r, Suc (snd r)))"

definition hpd_reserve :: "nat \<Rightarrow> nat \<Rightarrow> domain \<Rightarrow> (slot_ref \<times> domain) res" where
  "hpd_reserve f blocklen d =
     bind_r (dom_reserve f blocklen d) (\<lambda>(r, d).
     bind_r (hp_clear blocklen r (pools d)) (\<lambda>ps. Inr (r, d\<lparr>pools := ps\<rparr>)))"

definition hpd_release :: "nat \<Rightarrow> slot_ref \<Rightarrow> nat \<Rightarrow> domain \<Rightarrow> domain res" where
  "hpd_release f hps blocklen d =
     bind_r (hp_clear blocklen hps (pools d)) (\<lambda>ps. dom_release f hps blocklen (d\<lparr>pools := ps\<rparr>))"

definition hpd_enqueue :: "nat \<Rightarrow> uptr \<Rightarrow> bool \<Rightarrow> domain \<Rightarrow> domain res" where
  "hpd_enqueue f item_ptr can_collect d =
     (let d = dom_enqueue item_ptr d in if can_collect then collect_if_required f d else Inr d)"

definition hpd_enqueue_all :: "nat \<Rightarrow> uptr list \<Rightarrow> bool \<Rightarrow> domain \<Rightarrow> (uptr list \<times> domain) res" where
  "hpd_enqueue_all f items can_collect d =
     (case dom_enqueue_all items d of (items, d) \<Rightarrow>
        if can_collect then bind_r (collect_if_required f d) (\<lambda>d. Inr (items, d)) else Inr (items, d))"

text \<open>The destructor: a last \<open>collect\<close>, then the shared \<open>hazptr_domain\<close> goes with it.\<close>

definition hpd_dtor :: "domain \<Rightarrow> domain res" where
  "hpd_dtor d = bind_r (collect d) dom_dtor"

section \<open>Pools by identity\<close>

text \<open>
  The pools of a domain have different identities, so an operation on a slot changes the one pool
  it belongs to.
\<close>

definition pools_ok :: "pool list \<Rightarrow> bool" where
  "pools_ok ps \<longleftrightarrow> distinct (map pool_id ps) \<and> (\<forall>p\<in>set ps. pool_ok p)"

definition upd_pool :: "nat \<Rightarrow> (pool \<Rightarrow> pool) \<Rightarrow> pool list \<Rightarrow> pool list" where
  "upd_pool i g ps = map (\<lambda>q. if pool_id q = i then g q else q) ps"

lemma upd_pool_absent: "i \<notin> pool_id ` set ps \<Longrightarrow> upd_pool i g ps = ps"
  by (induction ps) (auto simp: upd_pool_def)

lemma upd_pool_simps [simp]: "upd_pool i g [] = []"
  "upd_pool i g (p # ps) = (if pool_id p = i then g p else p) # upd_pool i g ps"
  by (simp_all add: upd_pool_def)

lemma length_upd_pool [simp]: "length (upd_pool i g ps) = length ps"
  by (simp add: upd_pool_def)

lemma upd_pool_id: "(\<And>q. pool_id (g q) = pool_id q) \<Longrightarrow> map pool_id (upd_pool i g ps) = map pool_id ps"
  by (induction ps) auto

lemma upd_pool_twice:
  "(\<And>q. pool_id (g q) = pool_id q) \<Longrightarrow> upd_pool i h (upd_pool i g ps) = upd_pool i (h \<circ> g) ps"
  by (induction ps) auto

lemma set_upd_pool:
  assumes "distinct (map pool_id ps)" "p \<in> set ps"
  shows "set (upd_pool (pool_id p) g ps) = insert (g p) (set ps - {p})"
  using assms
proof (induction ps)
  case (Cons q ps)
  show ?case
  proof (cases "q = p")
    case True
    with Cons.prems have "pool_id p \<notin> pool_id ` set ps" by auto
    then have "upd_pool (pool_id p) g ps = ps" "p \<notin> set ps" by (auto intro: upd_pool_absent)
    with True show ?thesis by auto
  next
    case False
    with Cons.prems have "pool_id q \<noteq> pool_id p" by auto
    with Cons False show ?thesis by auto
  qed
qed simp

lemma upd_pool_ok:
  assumes "pools_ok ps" "p \<in> set ps" "\<And>q. pool_id (g q) = pool_id q" "pool_ok (g p)"
  shows "pools_ok (upd_pool (pool_id p) g ps)"
  using assms set_upd_pool [of ps p g] by (auto simp: pools_ok_def upd_pool_id)

lemma snapshot_count_upd:
  "(\<And>q. pool_count (g q) = pool_count q) \<Longrightarrow> snapshot_count (upd_pool i g ps) = snapshot_count ps"
  by (induction ps) auto

lemma hp_store_eq:
  assumes "distinct (map pool_id ps)" "p \<in> set ps" "i < length (haz_ptrs p)"
  shows "hp_store (pool_id p, i) v ps =
    Inr (upd_pool (pool_id p) (\<lambda>q. q\<lparr>haz_ptrs := (haz_ptrs q)[i := v]\<rparr>) ps)"
  using assms
proof (induction ps)
  case (Cons q ps)
  show ?case
  proof (cases "q = p")
    case True
    with Cons.prems have "upd_pool (pool_id p) (\<lambda>q. q\<lparr>haz_ptrs := (haz_ptrs q)[i := v]\<rparr>) ps = ps"
      by (intro upd_pool_absent) auto
    with True Cons.prems show ?thesis by simp
  next
    case False
    with Cons.prems have "pool_id q \<noteq> pool_id p" by auto
    with Cons False show ?thesis by simp
  qed
qed simp

lemma hp_load_eq:
  assumes "distinct (map pool_id ps)" "p \<in> set ps"
  shows "hp_load (pool_id p, i) ps = arr_get (haz_ptrs p) i"
  using assms
proof (induction ps)
  case (Cons q ps)
  show ?case
  proof (cases "q = p")
    case False
    with Cons.prems have "pool_id q \<noteq> pool_id p" by auto
    with Cons False show ?thesis by simp
  qed (use Cons in simp)
qed simp

definition blank :: "nat \<Rightarrow> nat \<Rightarrow> pool \<Rightarrow> pool" where
  "blank i k q = q\<lparr>haz_ptrs := take i (haz_ptrs q) @ replicate k nullptr @ drop (i + k) (haz_ptrs q)\<rparr>"

lemma hp_clear_eq:
  assumes "distinct (map pool_id ps)" "p \<in> set ps" "i + k \<le> length (haz_ptrs p)"
  shows "hp_clear k (pool_id p, i) ps = Inr (upd_pool (pool_id p) (blank i k) ps)"
  using assms
proof (induction k arbitrary: ps p i)
  case 0
  have "blank i 0 q = q" for q by (simp add: blank_def)
  then have "upd_pool (pool_id p) (blank i 0) ps = ps" unfolding upd_pool_def by (intro map_idI) simp
  then show ?case by simp
next
  case (Suc k)
  let ?g = "\<lambda>q. q\<lparr>haz_ptrs := (haz_ptrs q)[i := nullptr]\<rparr>"
  let ?ps = "upd_pool (pool_id p) ?g ps"
  have st: "hp_store (pool_id p, i) nullptr ps = Inr ?ps"
    using Suc.prems by (intro hp_store_eq) auto
  have "?g p \<in> set ?ps" using set_upd_pool [OF Suc.prems(1,2)] by auto
  moreover have "distinct (map pool_id ?ps)" using Suc.prems(1) by (subst upd_pool_id) auto
  ultimately have "hp_clear k (pool_id (?g p), Suc i) ?ps = Inr (upd_pool (pool_id (?g p)) (blank (Suc i) k) ?ps)"
    using Suc.prems(3) by (intro Suc.IH) auto
  also have "upd_pool (pool_id (?g p)) (blank (Suc i) k) ?ps = upd_pool (pool_id p) (blank (Suc i) k \<circ> ?g) ps"
    by (simp add: upd_pool_twice)
  also have "\<dots> = upd_pool (pool_id p) (blank i (Suc k)) ps"
  proof -
    have "q = p" if "q \<in> set ps" "pool_id q = pool_id p" for q
      using Suc.prems(1,2) that by (auto simp: distinct_map dest: inj_onD)
    moreover have "blank (Suc i) k (?g p) = blank i (Suc k) p"
      using Suc.prems(3) by (simp add: blank_def take_Suc_conv_app_nth)
    ultimately show ?thesis by (auto simp: upd_pool_def)
  qed
  finally show ?case using st by simp
qed

lemma pools_release_eq:
  assumes "distinct (map pool_id ps)" "p \<in> set ps"
    and "release_impl f (pool_id p, i) p = Inr (True, g p)"
  shows "pools_release f (pool_id p, i) ps = Inr (True, upd_pool (pool_id p) g ps)"
  using assms
proof (induction ps)
  case (Cons q ps)
  show ?case
  proof (cases "q = p")
    case True
    with Cons.prems have "upd_pool (pool_id p) g ps = ps" by (intro upd_pool_absent) auto
    with True Cons.prems show ?thesis by simp
  next
    case False
    with Cons.prems have ne: "pool_id q \<noteq> pool_id p" by auto
    then have "release_impl f (pool_id p, i) q = Inr (False, q)" by (intro release_impl_foreign) auto
    with Cons False ne show ?thesis by simp
  qed
qed simp

section \<open>Collecting\<close>

lemma push_all_eq:
  "push_all xs d = d\<lparr>delete_list := rev xs @ delete_list d, delete_count := delete_count d + int (length xs)\<rparr>"
  by (induction xs arbitrary: d) (simp_all add: push_delete_node_def)

lemma dom_enqueue_all_eq:
  "dom_enqueue_all xs d = (replicate (length xs) nullptr, push_all (nonnull xs) d)"
  by (induction xs arbitrary: d) (simp_all add: nonnull_def)

lemma collect_scan_eq:
  assumes "\<And>x. snapshot_search h x = Inr (x \<in> P)" "distinct l" "set l \<subseteq> objs d" "nullptr \<notin> set l"
  shows "collect_scan h l d = Inr (filter (\<lambda>x. x \<in> P) l,
    d\<lparr>objs := objs d - (set l - P), reclaimed := rev (filter (\<lambda>x. x \<notin> P) l) @ reclaimed d\<rparr>)"
  using assms(2-4)
proof (induction l arbitrary: d)
  case (Cons x xs)
  show ?case
  proof (cases "x \<in> P")
    case True
    have "collect_scan h xs d = Inr (filter (\<lambda>x. x \<in> P) xs,
      d\<lparr>objs := objs d - (set xs - P), reclaimed := rev (filter (\<lambda>x. x \<notin> P) xs) @ reclaimed d\<rparr>)"
      using Cons.prems by (intro Cons.IH) auto
    moreover have "set (x # xs) - P = set xs - P" using True by auto
    ultimately show ?thesis using True assms(1) by simp
  next
    case False
    let ?d = "d\<lparr>objs := objs d - {x}, reclaimed := x # reclaimed d\<rparr>"
    have "reclaim_object x d = Inr ?d" using Cons.prems by (simp add: reclaim_object_def)
    moreover have "collect_scan h xs ?d = Inr (filter (\<lambda>x. x \<in> P) xs,
      ?d\<lparr>objs := objs ?d - (set xs - P), reclaimed := rev (filter (\<lambda>x. x \<notin> P) xs) @ reclaimed ?d\<rparr>)"
      using Cons.prems by (intro Cons.IH) auto
    moreover have "objs d - {x} - (set xs - P) = objs d - (set (x # xs) - P)" using False by auto
    ultimately show ?thesis using False assms(1) by simp
  qed
qed simp

text \<open>
  What a collection does: the objects on the delete list that no hazard pointer protects are
  reclaimed, the others go back on the list.
\<close>

definition collected :: "domain \<Rightarrow> domain" where
  "collected d =
     (let P = protected (pools d); keep = filter (\<lambda>x. x \<in> P) (delete_list d) in
      d\<lparr>delete_list := rev keep, delete_count := delete_count d + int (length keep),
        objs := objs d - (set (delete_list d) - P),
        reclaimed := rev (filter (\<lambda>x. x \<notin> P) (delete_list d)) @ reclaimed d\<rparr>)"

definition pending_ok :: "uptr list \<Rightarrow> domain \<Rightarrow> bool" where
  "pending_ok l d \<longleftrightarrow> distinct l \<and> set l \<subseteq> objs d \<and> nullptr \<notin> objs d"

lemma pool_lengths: "pools_ok ps \<Longrightarrow> \<forall>p\<in>set ps. length (haz_ptrs p) = pool_count p"
  by (simp add: pools_ok_def pool_ok_def)

lemma collect_eq:
  assumes "pools_ok (pools d)" "pending_ok (delete_list d) d"
  shows "collect d = Inr (collected d)"
proof -
  from snapshot_correct [OF pool_lengths [OF assms(1)]] obtain h where
    h: "take_snapshot (pools d) = Inr h" "\<And>x. snapshot_search h x = Inr (x \<in> protected (pools d))" by blast
  from assms(2) have "distinct (delete_list d)" "set (delete_list d) \<subseteq> objs (d\<lparr>delete_list := []\<rparr>)"
    "nullptr \<notin> set (delete_list d)" by (auto simp: pending_ok_def)
  from collect_scan_eq [OF h(2) this] h(1) show ?thesis
    by (simp add: collect_def collected_def Let_def push_all_eq)
qed

lemma collect_if_required_eq:
  assumes "pools_ok (pools d)" "pending_ok (delete_list d) d" "0 \<le> hp_count d"
  shows "collect_if_required (Suc (Suc f)) d =
    Inr (if delete_count d > hp_count d then collected (d\<lparr>delete_count := 0\<rparr>) else d)"
  using assms collect_eq [of "d\<lparr>delete_count := 0\<rparr>"]
  by (simp add: collect_if_required_def atomic_compare_exchange_def Let_def pending_ok_def)

end
