(* ===== verification/HazReserve.thy ===== *)
theory HazReserve
  imports HazDomain
begin

text \<open>
  Reserving and releasing blocks of hazard pointers in a domain: what the operations do to the
  pools, which blocks are owned, which objects stay protected, and the requests that never return.
\<close>

section \<open>Blocks\<close>

definition owned :: "pool list \<Rightarrow> slot_ref set" where
  "owned ps = {r. \<exists>p\<in>set ps. \<exists>ix<32. bit (bitmap p) ix \<and> r = (pool_id p, ix * blk_size p)}"

definition block_slots :: "slot_ref \<Rightarrow> nat \<Rightarrow> slot_ref set" where
  "block_slots r len = {(fst r, snd r + x) | x. x < len}"

definition dom_ok :: "nat \<Rightarrow> domain \<Rightarrow> bool" where
  "dom_ok len d \<longleftrightarrow> pools_ok (pools d) \<and> (\<forall>p\<in>set (pools d). pool_id p < next_id d \<and> blk_size p = len) \<and>
     hp_count d = int (snapshot_count (pools d))"

lemma dom_okD:
  assumes "dom_ok len d"
  shows "pools_ok (pools d)" "distinct (map pool_id (pools d))" "0 \<le> hp_count d"
    "\<And>p. p \<in> set (pools d) \<Longrightarrow> pool_ok p \<and> blk_size p = len \<and> pool_id p < next_id d"
  using assms by (auto simp: dom_ok_def pools_ok_def)

lemma same_pool:
  "distinct (map pool_id ps) \<Longrightarrow> p \<in> set ps \<Longrightarrow> q \<in> set ps \<Longrightarrow> pool_id q = pool_id p \<Longrightarrow> q = p"
  by (auto simp: distinct_map dest: inj_onD)

lemma upd_pool_cong:
  "(\<And>q. q \<in> set ps \<Longrightarrow> pool_id q = i \<Longrightarrow> g q = h q) \<Longrightarrow> upd_pool i g ps = upd_pool i h ps"
  by (induction ps) auto

lemma upd_pool_only:
  assumes "distinct (map pool_id ps)" "p \<in> set ps" "g p = h p"
  shows "upd_pool (pool_id p) g ps = upd_pool (pool_id p) h ps"
proof (rule upd_pool_cong)
  fix q assume "q \<in> set ps" "pool_id q = pool_id p"
  with assms have "q = p" by (intro same_pool)
  with assms(3) show "g q = h q" by simp
qed

lemma block_end: "pool_ok p \<Longrightarrow> ix < 32 \<Longrightarrow> ix * blk_size p + blk_size p \<le> length (haz_ptrs p)"
  using block_bound [of ix "blk_size p - 1" "blk_size p"]
  by (cases "blk_size p") (auto simp: pool_ok_def)

lemma nth_blank:
  assumes "i + k \<le> length (haz_ptrs p)" "j < length (haz_ptrs p)"
  shows "haz_ptrs (blank i k p) ! j = (if i \<le> j \<and> j < i + k then nullptr else haz_ptrs p ! j)"
  using assms by (auto simp: blank_def nth_append)

lemma blank_simps [simp]:
  "pool_id (blank i k p) = pool_id p" "bitmap (blank i k p) = bitmap p" "blk_size (blank i k p) = blk_size p"
  "pool_count (blank i k p) = pool_count p"
  "i + k \<le> length (haz_ptrs p) \<Longrightarrow> length (haz_ptrs (blank i k p)) = length (haz_ptrs p)"
  by (simp_all add: blank_def)

lemma haz_eqI:
  "length (haz_ptrs p) = length (haz_ptrs q) \<Longrightarrow> (\<And>j. j < length (haz_ptrs q) \<Longrightarrow> haz_ptrs p ! j = haz_ptrs q ! j) \<Longrightarrow>
   p\<lparr>haz_ptrs := []\<rparr> = q\<lparr>haz_ptrs := []\<rparr> \<Longrightarrow> p = (q::pool)"
  by (cases p; cases q) (simp add: list_eq_iff_nth_eq)

lemma blank_free:
  assumes ok: "pool_ok p" and ix: "ix < 32" "\<not> bit (bitmap p) ix"
  shows "blank (ix * blk_size p) (blk_size p) p = p"
proof (rule haz_eqI)
  note e = block_end [OF ok ix(1)]
  fix j assume j: "j < length (haz_ptrs p)"
  show "haz_ptrs (blank (ix * blk_size p) (blk_size p) p) ! j = haz_ptrs p ! j"
  proof (cases "ix * blk_size p \<le> j \<and> j < ix * blk_size p + blk_size p")
    case True
    then obtain x where "x < blk_size p" "j = ix * blk_size p + x" by (auto dest: le_Suc_ex)
    with ok ix have "haz_ptrs p ! j = nullptr" by (simp add: pool_ok_def)
    with True show ?thesis by (simp only: nth_blank [OF e j] simp_thms if_True)
  qed (simp only: nth_blank [OF e j] if_False)
qed (use block_end [OF ok ix(1)] in \<open>simp_all add: blank_def\<close>)

lemma blank_blank: "i + k \<le> length (haz_ptrs p) \<Longrightarrow> blank i k (blank i k p) = blank i k p"
  by (simp add: blank_def)

lemma pool_ok_blank:
  assumes "pool_ok p" "i + k \<le> length (haz_ptrs p)"
  shows "pool_ok (blank i k p)"
proof -
  have "haz_ptrs (blank i k p) ! j = nullptr" if "j < length (haz_ptrs p)" "haz_ptrs p ! j = nullptr" for j
    using nth_blank [OF assms(2) that(1)] that(2) by simp
  moreover have "ix * blk_size p + x < length (haz_ptrs p)" if "ix < 32" "x < blk_size p" for ix x
    using assms(1) block_bound that by (simp add: pool_ok_def)
  ultimately show ?thesis using assms by (simp add: pool_ok_def)
qed

text \<open>The bit of a block goes with the block: clearing both keeps the invariant.\<close>

lemma pool_ok_release:
  assumes ok: "pool_ok p" and ix: "ix < 32" "bit (bitmap p) ix"
  shows "pool_ok ((blank (ix * blk_size p) (blk_size p) p)\<lparr>bitmap := bitmap p XOR 2 ^ ix\<rparr>)"
proof -
  note e = block_end [OF ok ix(1)]
  let ?q = "blank (ix * blk_size p) (blk_size p) p"
  have ok': "pool_ok ?q" by (rule pool_ok_blank [OF ok e])
  have "haz_ptrs ?q ! (j * blk_size p + x) = nullptr"
    if j: "j < 32" "x < blk_size p" "\<not> bit (bitmap p XOR 2 ^ ix) j" for j x
  proof (cases "j = ix")
    case True
    have "ix * blk_size p + x < length (haz_ptrs p)" using e j(2) by simp
    from nth_blank [OF e this] True j(2) show ?thesis by simp
  next
    case False
    then have "\<not> bit (bitmap ?q) j" using j by (simp add: bit_xor_iff bit_exp_iff)
    with ok' j(1,2) show ?thesis by (simp add: pool_ok_def)
  qed
  with ok' show ?thesis by (simp add: pool_ok_def)
qed

section \<open>Reserving\<close>

lemma pools_reserve_head:
  assumes "blk_size p = len" "bitmap p \<noteq> HAZPTR_POOL_BITMAP_FULL"
  shows "\<exists>ix<32. \<not> bit (bitmap p) ix \<and> pools_reserve (Suc t) (Suc f) len (p # ps) =
    Inr (Some (pool_id p, ix * len), p\<lparr>bitmap := bitmap p OR 2 ^ ix\<rparr> # ps)"
  using reserve_impl_free [OF assms, of f] by auto

text \<open>
  A request that the first pool cannot serve, because its block size differs or its blocks are
  all taken, is never answered, whatever the other pools hold.
\<close>

lemma pools_reserve_stuck:
  "blk_size p \<noteq> len \<or> bitmap p = HAZPTR_POOL_BITMAP_FULL \<Longrightarrow> pools_reserve t f len (p # ps) = Inl NoFuel"
proof (induction t)
  case (Suc t)
  then show ?case
    by (cases f) (auto simp: reserve_impl_def)
qed simp

lemma dom_reserve_stuck:
  assumes "pools d = p # ps" "blk_size p \<noteq> len \<or> bitmap p = HAZPTR_POOL_BITMAP_FULL"
  shows "dom_reserve f len d = Inl NoFuel"
  using pools_reserve_stuck [OF assms(2)] assms(1) by (simp add: dom_reserve_def)

lemma hpd_reserve_head:
  assumes ok: "dom_ok len d" and p: "pools d = p # ps" "bitmap p \<noteq> HAZPTR_POOL_BITMAP_FULL"
  shows "\<exists>ix<32. \<not> bit (bitmap p) ix \<and> hpd_reserve (Suc f) len d =
    Inr ((pool_id p, ix * len), d\<lparr>pools := p\<lparr>bitmap := bitmap p OR 2 ^ ix\<rparr> # ps\<rparr>)"
proof -
  have pk: "pool_ok p" and len: "blk_size p = len" using dom_okD(4) [OF ok] p(1) by simp_all
  from pools_reserve_head [OF len p(2)] obtain ix where ix: "ix < 32" "\<not> bit (bitmap p) ix"
    "pools_reserve (Suc f) (Suc f) len (p # ps) =
      Inr (Some (pool_id p, ix * len), p\<lparr>bitmap := bitmap p OR 2 ^ ix\<rparr> # ps)" by blast
  let ?p = "p\<lparr>bitmap := bitmap p OR 2 ^ ix\<rparr>"
  have dr: "dom_reserve (Suc f) len d = Inr ((pool_id p, ix * len), d\<lparr>pools := ?p # ps\<rparr>)"
    using ix(3) p(1) by (simp add: dom_reserve_def)
  have dis: "distinct (map pool_id (?p # ps))" using dom_okD(2) [OF ok] p(1) by simp
  have "hp_clear len (pool_id ?p, ix * len) (?p # ps) = Inr (upd_pool (pool_id ?p) (blank (ix * len) len) (?p # ps))"
    using dis block_end [OF pk ix(1)] len by (intro hp_clear_eq) auto
  moreover have "upd_pool (pool_id ?p) (blank (ix * len) len) (?p # ps) = ?p # ps"
  proof -
    have "blank (ix * len) len p = p" using blank_free [OF pk ix(1,2)] len by simp
    then have "blank (ix * len) len ?p = ?p" by (cases p) (simp add: blank_def)
    moreover have "upd_pool (pool_id ?p) (blank (ix * len) len) ps = ps" using dis by (intro upd_pool_absent) auto
    ultimately show ?thesis by simp
  qed
  ultimately show ?thesis using ix dr by (auto simp: hpd_reserve_def)
qed

lemma hpd_reserve_first:
  assumes "pools d = []"
  shows "hpd_reserve (Suc f) len d = hpd_reserve (Suc f) len (pools_new len d)"
proof -
  let ?p = "pool_ctor (next_id d) len"
  have "bitmap ?p \<noteq> HAZPTR_POOL_BITMAP_FULL"
    by (simp add: pool_ctor_ok HAZPTR_POOL_BITMAP_FULL_def)
  from reserve_impl_free [OF pool_ctor_ok(3) this, of f] obtain ix where
    "reserve_impl (Suc f) len ?p = Inr (Some (pool_id ?p, ix * len), ?p\<lparr>bitmap := bitmap ?p OR 2 ^ ix\<rparr>)" by blast
  then have "dom_reserve (Suc f) len d = dom_reserve (Suc f) len (pools_new len d)"
    using assms by (simp add: dom_reserve_def pools_new_def Let_def)
  then show ?thesis by (simp add: hpd_reserve_def)
qed

lemma dom_ok_pools_new:
  assumes "dom_ok len d"
  shows "dom_ok len (pools_new len d)" "owned (pools (pools_new len d)) = owned (pools d)"
    "protected (pools (pools_new len d)) = protected (pools d)"
proof -
  note k = pool_ctor_ok [of "next_id d" len]
  have "next_id d \<notin> pool_id ` set (pools d)" using dom_okD(4) [OF assms] by (metis imageE less_irrefl)
  then show "dom_ok len (pools_new len d)"
    using assms k by (auto simp: dom_ok_def pools_new_def pools_ok_def Let_def less_Suc_eq)
  show "owned (pools (pools_new len d)) = owned (pools d)"
    using k by (auto simp: owned_def pools_new_def Let_def)
  have "hazards (pools (pools_new len d)) = hazards (pools d)"
    using k(6) by (auto simp: hazards_def nonnull_def pools_new_def Let_def filter_empty_conv)
  then show "protected (pools (pools_new len d)) = protected (pools d)" by (simp add: protected_def)
qed

text \<open>The outcome of a reservation: a block that nobody owned; no object gains or loses protection.\<close>

definition reserves :: "nat \<Rightarrow> domain \<Rightarrow> slot_ref \<Rightarrow> domain \<Rightarrow> bool" where
  "reserves len d r d' \<longleftrightarrow> dom_ok len d' \<and> r \<notin> owned (pools d) \<and> owned (pools d') = insert r (owned (pools d)) \<and>
     protected (pools d') = protected (pools d) \<and> objs d' = objs d \<and> reclaimed d' = reclaimed d \<and>
     delete_list d' = delete_list d \<and> delete_count d' = delete_count d \<and>
     length (pools d') = max 1 (length (pools d)) \<and>
     (\<forall>q. fst q < next_id d \<longrightarrow> hp_load q (pools d') = hp_load q (pools d))"

lemma owned_unique:
  assumes "0 < n" "(i::nat) * n = j * n"
  shows "i = j"
  using assms by simp

lemma reserve_head_spec:
  assumes ok: "dom_ok len d" and len: "0 < len" and p: "pools d = p # ps" and ix: "ix < 32" "\<not> bit (bitmap p) ix"
  shows "reserves len d (pool_id p, ix * len) (d\<lparr>pools := p\<lparr>bitmap := bitmap p OR 2 ^ ix\<rparr> # ps\<rparr>)"
proof -
  let ?p = "p\<lparr>bitmap := bitmap p OR 2 ^ ix\<rparr>"
  have pk: "pool_ok p" "blk_size p = len" using dom_okD(4) [OF ok] p by simp_all
  have dis: "pool_id p \<notin> pool_id ` set ps" using dom_okD(2) [OF ok] p by auto
  have "dom_ok len (d\<lparr>pools := ?p # ps\<rparr>)"
    using ok p pool_ok_reserve [OF pk(1), of "2 ^ ix"] by (auto simp: dom_ok_def pools_ok_def)
  moreover have "(pool_id p, ix * len) \<notin> owned (pools d)"
    using dis ix pk(2) len by (auto simp: owned_def p image_iff)
  moreover have "owned (?p # ps) = insert (pool_id p, ix * len) (owned (pools d))"
  proof -
    have "bit (bitmap p OR 2 ^ ix) j \<longleftrightarrow> j = ix \<or> bit (bitmap p) j" if "j < 32" for j
      using ix(1) that by (auto simp: bit_or_iff bit_exp_iff)
    then have "{r. \<exists>j<32. bit (bitmap p OR 2 ^ ix) j \<and> r = (pool_id p, j * len)} =
        insert (pool_id p, ix * len) {r. \<exists>j<32. bit (bitmap p) j \<and> r = (pool_id p, j * len)}"
      using ix(1) by auto
    moreover have "owned (q # ps) = {r. \<exists>j<32. bit (bitmap q) j \<and> r = (pool_id q, j * blk_size q)} \<union> owned ps" for q
      by (auto simp: owned_def)
    ultimately show ?thesis using p pk(2) by simp
  qed
  moreover have "protected (?p # ps) = protected (pools d)"
    by (simp add: protected_def hazards_def p)
  moreover have "hp_load q (?p # ps) = hp_load q (pools d)" for q by (simp add: p)
  ultimately show ?thesis by (simp add: reserves_def p)
qed

text \<open>
  A reservation succeeds when there is no pool yet, or the first pool has a free block.
\<close>

lemma hpd_reserve_correct:
  assumes ok: "dom_ok len d" and len: "0 < len"
    and free: "pools d = [] \<or> bitmap (hd (pools d)) \<noteq> HAZPTR_POOL_BITMAP_FULL"
  shows "\<exists>r d'. hpd_reserve (Suc f) len d = Inr (r, d') \<and> reserves len d r d'"
proof -
  have main: "\<exists>r d'. hpd_reserve (Suc f) len d = Inr (r, d') \<and> reserves len d r d'"
    if ok: "dom_ok len d" and p: "pools d = p # ps" "bitmap p \<noteq> HAZPTR_POOL_BITMAP_FULL" for d p ps
    using hpd_reserve_head [OF ok p, of f] reserve_head_spec [OF ok len p(1)] by blast
  show ?thesis
  proof (cases "pools d")
    case (Cons p ps)
    with free main [OF ok Cons] show ?thesis by simp
  next
    case Nil
    let ?d = "pools_new len d"
    note n = dom_ok_pools_new [OF ok]
    have "pools ?d = [pool_ctor (next_id d) len]" using Nil by (simp add: pools_new_def Let_def)
    from main [OF n(1) this] obtain r d' where r: "hpd_reserve (Suc f) len ?d = Inr (r, d')" "reserves len ?d r d'"
      by (auto simp: pool_ctor_ok HAZPTR_POOL_BITMAP_FULL_def)
    have "hp_load q (pools d') = hp_load q (pools d)" if "fst q < next_id d" for q
    proof -
      have "fst q < next_id ?d" using that by (simp add: pools_new_def Let_def)
      with r(2) have "hp_load q (pools d') = hp_load q (pools ?d)" unfolding reserves_def by blast
      also have "\<dots> = hp_load q (pools d)"
        using that by (simp add: pools_new_def Let_def pool_ctor_ok)
      finally show ?thesis .
    qed
    with r(2) n have "reserves len d r d'" by (simp add: reserves_def pools_new_def Let_def Nil)
    with r(1) hpd_reserve_first [OF Nil] show ?thesis by auto
  qed
qed

section \<open>Releasing\<close>

definition give_back :: "nat \<Rightarrow> pool \<Rightarrow> pool" where
  "give_back ix q = (blank (ix * blk_size q) (blk_size q) q)\<lparr>bitmap := bitmap q XOR 2 ^ ix\<rparr>"

lemma give_back_simps [simp]:
  "pool_id (give_back ix q) = pool_id q" "blk_size (give_back ix q) = blk_size q"
  "pool_count (give_back ix q) = pool_count q" "bitmap (give_back ix q) = bitmap q XOR 2 ^ ix"
  by (simp_all add: give_back_def)

lemma hpd_release_eq:
  assumes ok: "dom_ok len d" and len: "0 < len" and p: "p \<in> set (pools d)" and ix: "ix < 32" "bit (bitmap p) ix"
  shows "hpd_release (Suc f) (pool_id p, ix * len) len d =
    Inr (d\<lparr>pools := upd_pool (pool_id p) (give_back ix) (pools d)\<rparr>)"
proof -
  have pk: "pool_ok p" "blk_size p = len" using dom_okD(4) [OF ok p] by simp_all
  note e = block_end [OF pk(1) ix(1), unfolded pk(2)]
  let ?b = "blank (ix * len) len"
  let ?ps = "upd_pool (pool_id p) ?b (pools d)"
  have c: "hp_clear len (pool_id p, ix * len) (pools d) = Inr ?ps"
    by (rule hp_clear_eq [OF dom_okD(2) [OF ok] p e])
  have bp: "?b p \<in> set ?ps" using set_upd_pool [OF dom_okD(2) [OF ok] p] by auto
  have dis: "distinct (map pool_id ?ps)" using dom_okD(2) [OF ok] by (subst upd_pool_id) auto
  have "release_impl (Suc f) (pool_id (?b p), ix * blk_size (?b p)) (?b p) = Inr (True, give_back ix (?b p))"
    using release_impl_block [OF pool_ok_blank [OF pk(1) e], of ix f] pk(2) len ix
    by (simp add: give_back_def blank_def)
  then have "release_impl (Suc f) (pool_id (?b p), ix * len) (?b p) = Inr (True, give_back ix (?b p))"
    using pk(2) by simp
  from pools_release_eq [where g = "give_back ix", OF dis bp this]
  have r: "pools_release (Suc f) (pool_id p, ix * len) ?ps = Inr (True, upd_pool (pool_id p) (give_back ix) ?ps)"
    by simp
  have "upd_pool (pool_id p) (give_back ix) ?ps = upd_pool (pool_id p) (give_back ix \<circ> ?b) (pools d)"
    by (simp add: upd_pool_twice)
  also have "\<dots> = upd_pool (pool_id p) (give_back ix) (pools d)"
    using blank_blank [OF e] pk(2) by (intro upd_pool_only [OF dom_okD(2) [OF ok] p]) (simp add: give_back_def)
  finally show ?thesis using c r by (simp add: hpd_release_def dom_release_def)
qed

text \<open>
  The outcome of a release: the block is free again, its slots are null and protect nothing, every
  other slot is as it was.
\<close>

definition releases :: "nat \<Rightarrow> domain \<Rightarrow> slot_ref \<Rightarrow> domain \<Rightarrow> bool" where
  "releases len d r d' \<longleftrightarrow> dom_ok len d' \<and> owned (pools d') = owned (pools d) - {r} \<and>
     protected (pools d') \<subseteq> protected (pools d) \<and> objs d' = objs d \<and> reclaimed d' = reclaimed d \<and>
     delete_list d' = delete_list d \<and> delete_count d' = delete_count d \<and> hp_count d' = hp_count d \<and>
     length (pools d') = length (pools d) \<and>
     (\<forall>q. hp_load q (pools d') = (if q \<in> block_slots r len then Inr nullptr else hp_load q (pools d)))"

lemma hp_load_upd:
  assumes "distinct (map pool_id ps)" "p \<in> set ps" "\<And>q. pool_id (g q) = pool_id q"
  shows "hp_load r (upd_pool (pool_id p) g ps) =
    (if fst r = pool_id p then arr_get (haz_ptrs (g p)) (snd r) else hp_load r ps)"
proof (cases "fst r = pool_id p")
  case True
  have "g p \<in> set (upd_pool (pool_id p) g ps)" using set_upd_pool [OF assms(1,2)] by auto
  moreover have "distinct (map pool_id (upd_pool (pool_id p) g ps))" using assms by (simp add: upd_pool_id)
  ultimately have "hp_load (pool_id (g p), snd r) (upd_pool (pool_id p) g ps) = arr_get (haz_ptrs (g p)) (snd r)"
    by (rule hp_load_eq [rotated])
  with True assms(3) show ?thesis by (cases r) simp
next
  case False
  with assms(3) have "hp_load r (upd_pool (pool_id p) g ps) = hp_load r ps" for ps
    by (induction ps) auto
  with False show ?thesis by simp
qed

lemma owned_at:
  assumes "distinct (map pool_id ps)" "p \<in> set ps"
  shows "(pool_id p, i) \<in> owned ps \<longleftrightarrow> (\<exists>j<32. bit (bitmap p) j \<and> i = j * blk_size p)"
proof
  assume "(pool_id p, i) \<in> owned ps"
  then obtain q j where q: "q \<in> set ps" "j < 32" "bit (bitmap q) j" "pool_id q = pool_id p" "i = j * blk_size q"
    by (auto simp: owned_def)
  with same_pool [OF assms q(1,4)] show "\<exists>j<32. bit (bitmap p) j \<and> i = j * blk_size p" by blast
next
  assume "\<exists>j<32. bit (bitmap p) j \<and> i = j * blk_size p"
  with assms(2) show "(pool_id p, i) \<in> owned ps" by (auto simp: owned_def)
qed

lemma release_spec:
  assumes ok: "dom_ok len d" and len: "0 < len" and p: "p \<in> set (pools d)" and ix: "ix < 32" "bit (bitmap p) ix"
  shows "releases len d (pool_id p, ix * len) (d\<lparr>pools := upd_pool (pool_id p) (give_back ix) (pools d)\<rparr>)"
proof -
  let ?ps = "upd_pool (pool_id p) (give_back ix) (pools d)"
  note dis = dom_okD(2) [OF ok]
  have pk: "pool_ok p" "blk_size p = len" using dom_okD(4) [OF ok p] by simp_all
  note e = block_end [OF pk(1) ix(1)]
  have gk: "pool_ok (give_back ix p)" unfolding give_back_def by (rule pool_ok_release [OF pk(1) ix])
  note st = set_upd_pool [OF dis p, of "give_back ix"]
  have "dom_ok len (d\<lparr>pools := ?ps\<rparr>)"
    using ok st dom_okD(4) [OF ok p] upd_pool_ok [where g = "give_back ix", OF dom_okD(1) [OF ok] p _ gk]
    by (auto simp: dom_ok_def snapshot_count_upd)
  moreover have "owned ?ps = owned (pools d) - {(pool_id p, ix * len)}"
  proof -
    have b: "bit (bitmap p XOR 2 ^ ix) j \<longleftrightarrow> j \<noteq> ix \<and> bit (bitmap p) j" if "j < 32" for j
      using ix that by (auto simp: bit_xor_iff bit_exp_iff)
    have dis': "distinct (map pool_id ?ps)" using dis by (simp add: upd_pool_id)
    have gp: "give_back ix p \<in> set ?ps" using st by simp
    have same: "(pool_id p, i) \<in> owned ?ps \<longleftrightarrow> (pool_id p, i) \<in> owned (pools d) \<and> i \<noteq> ix * len" for i
      using owned_at [OF dis' gp, of i] owned_at [OF dis p, of i] b pk(2) len by auto
    have other: "r \<in> owned ?ps \<longleftrightarrow> r \<in> owned (pools d)" if "fst r \<noteq> pool_id p" for r
    proof -
      have "q \<in> set ?ps \<longleftrightarrow> q \<in> set (pools d)" if "pool_id q \<noteq> pool_id p" for q
        using st that by auto
      with that show ?thesis unfolding owned_def by fastforce
    qed
    show ?thesis
    proof (rule set_eqI)
      fix r
      show "r \<in> owned ?ps \<longleftrightarrow> r \<in> owned (pools d) - {(pool_id p, ix * len)}"
        using same [of "snd r"] other [of r] by (cases r, cases "fst r = pool_id p") auto
    qed
  qed
  moreover have "set (haz_ptrs (give_back ix p)) \<subseteq> insert nullptr (set (haz_ptrs p))"
    by (auto simp: give_back_def blank_def dest: in_set_takeD in_set_dropD)
  then have "protected ?ps \<subseteq> protected (pools d)"
    unfolding subset_iff in_protected st using p by auto
  moreover have "hp_load q ?ps = (if q \<in> block_slots (pool_id p, ix * len) len then Inr nullptr else hp_load q (pools d))" for q
  proof (cases "fst q = pool_id p")
    case True
    have ld: "hp_load q ?ps = arr_get (haz_ptrs (give_back ix p)) (snd q)" "hp_load q (pools d) = arr_get (haz_ptrs p) (snd q)"
      using hp_load_upd [where g = "give_back ix", OF dis p] hp_load_eq [OF dis p, of "snd q"] True
      by (simp, cases q, simp)
    have inb: "q \<in> block_slots (pool_id p, ix * len) len \<longleftrightarrow> ix * len \<le> snd q \<and> snd q < ix * len + len"
      using True by (cases q) (auto simp: block_slots_def dest: le_Suc_ex)
    have l: "length (haz_ptrs (give_back ix p)) = length (haz_ptrs p)" using e by (simp add: give_back_def)
    show ?thesis
    proof (cases "snd q < length (haz_ptrs p)")
      case True
      from nth_blank [OF e True] pk(2)
      have "haz_ptrs (give_back ix p) ! snd q = (if ix * len \<le> snd q \<and> snd q < ix * len + len then nullptr else haz_ptrs p ! snd q)"
        by (simp add: give_back_def)
      with True l ld inb show ?thesis by simp
    next
      case False
      with l ld inb e pk(2) show ?thesis by simp
    qed
  next
    case False
    then have "hp_load q ?ps = hp_load q (pools d)" using hp_load_upd [where g = "give_back ix", OF dis p] by simp
    with False show ?thesis by (auto simp: block_slots_def)
  qed
  ultimately show ?thesis by (simp add: releases_def)
qed

end
