(* ===== verification/HazContext.thy ===== *)
theory HazContext
  imports HazReserve
begin

text \<open>
  The context of a thread (\<open>class hazard_pointer_context<T, S, R>\<close>): its block of \<open>S\<close> hazard
  pointers, and the array of up to \<open>R\<close> objects it deleted and did not reclaim yet. The domain the
  context is bound to is passed along with it.
\<close>

section \<open>class hazard_pointer_context\<close>

record hpcontext =
  deleted :: "uptr list"
  del_index :: nat
  hazard_ptrs :: slot_ref
  ctx_size :: nat
  has_domain :: bool

text \<open>Decrement of a \<open>std::size_t\<close>.\<close>

definition dec_size :: "nat \<Rightarrow> nat" where
  "dec_size n = (if n = 0 then 2 ^ 64 - 1 else n - 1)"

definition ctx_ctor :: "nat \<Rightarrow> nat \<Rightarrow> nat \<Rightarrow> domain \<Rightarrow> (hpcontext \<times> domain) res" where
  "ctx_ctor f S R d =
     bind_r (hpd_reserve f S d) (\<lambda>(r, d).
       Inr (\<lparr>deleted = replicate R nullptr, del_index = 0, hazard_ptrs = r, ctx_size = S, has_domain = True\<rparr>, d))"

text \<open>
  The move constructor: the new context, and what is left of the old one, which keeps copies of its
  pointers but no domain.
\<close>

definition ctx_move :: "hpcontext \<Rightarrow> hpcontext \<times> hpcontext" where
  "ctx_move c = (c, c\<lparr>has_domain := False\<rparr>)"

definition ctx_dtor :: "nat \<Rightarrow> nat \<Rightarrow> hpcontext \<Rightarrow> domain \<Rightarrow> domain res" where
  "ctx_dtor f S c d =
     (if has_domain c
      then
        bind_r (hpd_release f (hazard_ptrs c) S d) (\<lambda>d.
        bind_r (hpd_enqueue_all f (deleted c) True d) (\<lambda>(_, d).
          collect d))
      else Inr d)"

text \<open>The first loop of \<open>reclaim\<close>, \<open>k\<close> entries from \<open>ix\<close> on.\<close>

fun reclaim_scan :: "snapshot \<Rightarrow> nat \<Rightarrow> nat \<Rightarrow> hpcontext \<Rightarrow> domain \<Rightarrow> (hpcontext \<times> domain) res" where
  "reclaim_scan hps 0 ix c d = Inr (c, d)"
| "reclaim_scan hps (Suc k) ix c d =
     bind_r (arr_get (deleted c) ix) (\<lambda>x.
     bind_r (snapshot_search hps x) (\<lambda>found.
       if \<not> found
       then let c = c\<lparr>del_index := dec_size (del_index c)\<rparr> in
         bind_r (reclaim_object x d) (\<lambda>d.
         bind_r (arr_set (deleted c) ix nullptr) (\<lambda>del.
           reclaim_scan hps k (Suc ix) (c\<lparr>deleted := del\<rparr>) d))
       else reclaim_scan hps k (Suc ix) c d))"

text \<open>The compaction: the two inner loops and the outer one.\<close>

function skip_full :: "uptr list \<Rightarrow> nat \<Rightarrow> nat \<Rightarrow> nat res" where
  "skip_full del ixd ixs =
     bind_r (arr_get del ixd) (\<lambda>v.
       if nullptr \<noteq> v \<and> ixd < ixs then skip_full del (Suc ixd) ixs else Inr ixd)"
  by pat_completeness auto
termination by (relation "measure (\<lambda>(_, ixd, ixs). ixs - ixd)") auto

function skip_empty :: "uptr list \<Rightarrow> nat \<Rightarrow> nat \<Rightarrow> nat res" where
  "skip_empty del ixd ixs =
     bind_r (arr_get del ixs) (\<lambda>v.
       if nullptr = v \<and> ixd < ixs then skip_empty del ixd (ixs - 1) else Inr ixs)"
  by pat_completeness auto
termination by (relation "measure (\<lambda>(_, ixd, ixs). ixs - ixd)") auto

declare skip_full.simps [simp del] skip_empty.simps [simp del]

fun compact :: "nat \<Rightarrow> uptr list \<Rightarrow> nat \<Rightarrow> nat \<Rightarrow> uptr list res" where
  "compact 0 del ixd ixs = Inl NoFuel"
| "compact (Suc f) del ixd ixs =
     (if ixd < ixs
      then
        bind_r (skip_full del ixd ixs) (\<lambda>ixd.
        bind_r (skip_empty del ixd ixs) (\<lambda>ixs.
        bind_r (arr_get del ixs) (\<lambda>s.
        bind_r (arr_get del ixd) (\<lambda>t.
          if nullptr \<noteq> s \<and> nullptr = t
          then compact f (del[ixs := t, ixd := s]) (Suc ixd) (dec_size ixs)
          else compact f del ixd ixs))))
      else Inr del)"

definition ctx_reclaim :: "nat \<Rightarrow> nat \<Rightarrow> hpcontext \<Rightarrow> domain \<Rightarrow> (hpcontext \<times> domain) res" where
  "ctx_reclaim f R c d =
     bind_r (take_snapshot (pools d)) (\<lambda>hps.
     bind_r (reclaim_scan hps R 0 c d) (\<lambda>(c, d).
       if del_index c = R
       then bind_r (hpd_enqueue_all f (deleted c) True d) (\<lambda>(del, d).
         Inr (c\<lparr>deleted := del, del_index := 0\<rparr>, d))
       else bind_r (compact f (deleted c) 0 (dec_size R)) (\<lambda>del.
         Inr (c\<lparr>deleted := del\<rparr>, d))))"

definition delete_item :: "nat \<Rightarrow> nat \<Rightarrow> uptr \<Rightarrow> hpcontext \<Rightarrow> domain \<Rightarrow> (hpcontext \<times> domain) res" where
  "delete_item f R item_ptr c d =
     (if R > 0
      then if \<not> del_index c \<le> R then Inl AssertFail
        else bind_r (arr_set (deleted c) (del_index c) item_ptr) (\<lambda>del.
          let c = c\<lparr>deleted := del, del_index := del_index c + 1\<rparr> in
          if del_index c = R then ctx_reclaim f R c d else Inr (c, d))
      else bind_r (hpd_enqueue f item_ptr True d) (\<lambda>d. Inr (c, d)))"

definition ctx_store :: "nat \<Rightarrow> uptr \<Rightarrow> hpcontext \<Rightarrow> domain \<Rightarrow> domain res" where
  "ctx_store index ptr c d =
     (if \<not> index < ctx_size c then Inl AssertFail
      else bind_r (hp_store (fst (hazard_ptrs c), snd (hazard_ptrs c) + index) ptr (pools d)) (\<lambda>ps.
        Inr (d\<lparr>pools := ps\<rparr>)))"

definition ctx_at :: "nat \<Rightarrow> hpcontext \<Rightarrow> domain \<Rightarrow> uptr res" where
  "ctx_at index c d =
     (if \<not> index < ctx_size c then Inl AssertFail
      else hp_load (fst (hazard_ptrs c), snd (hazard_ptrs c) + index) (pools d))"

text \<open>The other \<open>store\<close>: the pointer is read from the location \<open>pptr\<close>, here its value \<open>v\<close>.\<close>

definition ctx_store_from :: "nat \<Rightarrow> uptr \<Rightarrow> hpcontext \<Rightarrow> domain \<Rightarrow> (uptr \<times> domain) res" where
  "ctx_store_from index v c d =
     bind_r (ctx_store index v c d) (\<lambda>d. bind_r (ctx_at index c d) (\<lambda>p. Inr (p, d)))"

section \<open>Compaction\<close>

definition packed :: "uptr list \<Rightarrow> bool" where
  "packed xs \<longleftrightarrow> (\<forall>i j. i < j \<and> j < length xs \<and> xs ! i = nullptr \<longrightarrow> xs ! j = nullptr)"

lemma skip_full_eq:
  assumes "ixd \<le> ixs" "ixs < length del"
  shows "\<exists>k. skip_full del ixd ixs = Inr k \<and> ixd \<le> k \<and> k \<le> ixs \<and> (\<forall>i. ixd \<le> i \<and> i < k \<longrightarrow> del ! i \<noteq> nullptr) \<and>
    (k = ixs \<or> del ! k = nullptr)"
  using assms
proof (induction "ixs - ixd" arbitrary: ixd)
  case 0
  then show ?case by (subst skip_full.simps) auto
next
  case (Suc n)
  show ?case
  proof (cases "del ! ixd = nullptr")
    case True
    then show ?thesis using Suc.prems by (subst skip_full.simps) auto
  next
    case False
    have "\<exists>k. skip_full del (Suc ixd) ixs = Inr k \<and> Suc ixd \<le> k \<and> k \<le> ixs \<and>
      (\<forall>i. Suc ixd \<le> i \<and> i < k \<longrightarrow> del ! i \<noteq> nullptr) \<and> (k = ixs \<or> del ! k = nullptr)"
      using Suc by (intro Suc.hyps(1)) auto
    then obtain k where k: "skip_full del (Suc ixd) ixs = Inr k" "Suc ixd \<le> k" "k \<le> ixs"
      "\<forall>i. Suc ixd \<le> i \<and> i < k \<longrightarrow> del ! i \<noteq> nullptr" "k = ixs \<or> del ! k = nullptr" by blast
    have "\<forall>i. ixd \<le> i \<and> i < k \<longrightarrow> del ! i \<noteq> nullptr" using k(4) False by (metis Suc_leI le_neq_implies_less)
    moreover have "skip_full del ixd ixs = skip_full del (Suc ixd) ixs"
      using Suc.prems Suc.hyps(2) False by (subst skip_full.simps) auto
    ultimately show ?thesis using k by (intro exI [of _ k]) auto
  qed
qed

lemma skip_empty_eq:
  assumes "ixd \<le> ixs" "ixs < length del"
  shows "\<exists>k. skip_empty del ixd ixs = Inr k \<and> ixd \<le> k \<and> k \<le> ixs \<and> (\<forall>i. k < i \<and> i \<le> ixs \<longrightarrow> del ! i = nullptr) \<and>
    (k = ixd \<or> del ! k \<noteq> nullptr)"
  using assms
proof (induction "ixs - ixd" arbitrary: ixs)
  case 0
  then show ?case by (subst skip_empty.simps) auto
next
  case (Suc n)
  show ?case
  proof (cases "del ! ixs = nullptr")
    case False
    then show ?thesis using Suc.prems by (subst skip_empty.simps) auto
  next
    case True
    have lt: "ixd < ixs" using Suc.hyps(2) by simp
    have "\<exists>k. skip_empty del ixd (ixs - 1) = Inr k \<and> ixd \<le> k \<and> k \<le> ixs - 1 \<and>
      (\<forall>i. k < i \<and> i \<le> ixs - 1 \<longrightarrow> del ! i = nullptr) \<and> (k = ixd \<or> del ! k \<noteq> nullptr)"
      using Suc lt by (intro Suc.hyps(1)) auto
    then obtain k where k: "skip_empty del ixd (ixs - 1) = Inr k" "ixd \<le> k" "k \<le> ixs - 1"
      "\<forall>i. k < i \<and> i \<le> ixs - 1 \<longrightarrow> del ! i = nullptr" "k = ixd \<or> del ! k \<noteq> nullptr" by blast
    have "\<forall>i. k < i \<and> i \<le> ixs \<longrightarrow> del ! i = nullptr" using k(4) True by (metis Suc_pred' le_SucE less_imp_Suc_add zero_less_Suc lt)
    moreover have "skip_empty del ixd ixs = skip_empty del ixd (ixs - 1)"
      using Suc True lt by (subst skip_empty.simps) simp
    ultimately show ?thesis using k by (intro exI [of _ k]) auto
  qed
qed

lemma packedI:
  assumes "\<forall>i<k. xs ! i \<noteq> nullptr" "\<forall>i. k < i \<and> i < length xs \<longrightarrow> xs ! i = nullptr"
  shows "packed xs"
  unfolding packed_def using assms by (metis linorder_neqE_nat less_trans)

lemma compact_correct:
  assumes "ixs - ixd < f" "ixs < length del" "ixd \<le> Suc ixs"
    and "\<forall>i<ixd. del ! i \<noteq> nullptr" "\<forall>i. ixs < i \<and> i < length del \<longrightarrow> del ! i = nullptr"
  shows "\<exists>del'. compact f del ixd ixs = Inr del' \<and> mset del' = mset del \<and> packed del'"
  using assms
proof (induction f arbitrary: del ixd ixs)
  case (Suc f)
  show ?case
  proof (cases "ixd < ixs")
    case False
    have "packed del"
    proof (rule packedI [of ixs])
      show "\<forall>i<ixs. del ! i \<noteq> nullptr" using Suc.prems(4) False by auto
    qed (use Suc.prems(5) in auto)
    with False show ?thesis by simp
  next
    case lt: True
    from skip_full_eq [of ixd ixs del] lt Suc.prems(2) obtain d where
      d: "skip_full del ixd ixs = Inr d" "ixd \<le> d" "d \<le> ixs" "\<forall>i. ixd \<le> i \<and> i < d \<longrightarrow> del ! i \<noteq> nullptr"
        "d = ixs \<or> del ! d = nullptr" by auto
    from skip_empty_eq [of d ixs del] d(3) Suc.prems(2) obtain s where
      s: "skip_empty del d ixs = Inr s" "d \<le> s" "s \<le> ixs" "\<forall>i. s < i \<and> i \<le> ixs \<longrightarrow> del ! i = nullptr"
        "s = d \<or> del ! s \<noteq> nullptr" by auto
    have pre: "\<forall>i<d. del ! i \<noteq> nullptr" using Suc.prems(4) d(4) by (metis not_le)
    have post: "\<forall>i. s < i \<and> i < length del \<longrightarrow> del ! i = nullptr" using Suc.prems(5) s(4) by (metis not_le)
    have len: "d < length del" "s < length del" using s(2,3) Suc.prems(2) by auto
    show ?thesis
    proof (cases "s = d")
      case True
      have "packed del" by (rule packedI [of d]) (use pre post True in auto)
      then show ?thesis using Suc.prems(1) lt d(1) s(1) True len
        by (cases f) auto
    next
      case False
      then have sd: "d < s" "del ! s \<noteq> nullptr" using s(2,5) by auto
      then have dn: "del ! d = nullptr" using d(5) s(3) by auto
      let ?del = "del[s := nullptr, d := del ! s]"
      have "compact (Suc f) del ixd ixs = compact f ?del (Suc d) (s - 1)"
        using lt d(1) s(1) sd dn len by (simp add: dec_size_def)
      moreover have "\<exists>del'. compact f ?del (Suc d) (s - 1) = Inr del' \<and> mset del' = mset ?del \<and> packed del'"
      proof (rule Suc.IH)
        show "s - 1 - Suc d < f" using Suc.prems(1) d(2) s(3) sd(1) by linarith
        show "\<forall>i<Suc d. ?del ! i \<noteq> nullptr" using pre sd len by (auto simp: less_Suc_eq nth_list_update)
        show "\<forall>i. s - 1 < i \<and> i < length ?del \<longrightarrow> ?del ! i = nullptr"
          using post sd len by (auto simp: nth_list_update)
      qed (use sd len in auto)
      moreover have "mset ?del = mset del"
      proof -
        have "mset (del[s := del ! d, d := del ! s]) = mset del"
          using len mset_swap [of d del s] by simp
        with dn show ?thesis by simp
      qed
      ultimately show ?thesis by metis
    qed
  qed
qed simp

section \<open>Reclaiming\<close>

text \<open>
  \<open>settles M d M' d'\<close>: from \<open>d\<close> to \<open>d'\<close> some of the objects \<open>M\<close> waiting for reclamation were
  reclaimed, none of them protected by a hazard pointer, and the others, \<open>M'\<close>, still wait. The
  pools did not change.
\<close>

definition settles :: "uptr multiset \<Rightarrow> domain \<Rightarrow> uptr multiset \<Rightarrow> domain \<Rightarrow> bool" where
  "settles M d M' d' \<longleftrightarrow> pools d' = pools d \<and> hp_count d' = hp_count d \<and> next_id d' = next_id d \<and>
     (\<exists>new. M = M' + mset new \<and> set new \<inter> protected (pools d) = {} \<and>
        objs d' = objs d - set new \<and> reclaimed d' = new @ reclaimed d)"

definition waiting_ok :: "uptr multiset \<Rightarrow> domain \<Rightarrow> bool" where
  "waiting_ok M d \<longleftrightarrow> (\<forall>x. count M x \<le> 1) \<and> set_mset M \<subseteq> objs d \<and> nullptr \<notin> objs d"

lemma settles_refl: "settles M d M d"
  by (auto simp: settles_def intro: exI [of _ "[]"])

lemma settles_trans: "settles M d M1 d1 \<Longrightarrow> settles M1 d1 M2 d2 \<Longrightarrow> settles M d M2 d2"
proof -
  assume a: "settles M d M1 d1" "settles M1 d1 M2 d2"
  from a(1) obtain n1 where 1: "M = M1 + mset n1" "set n1 \<inter> protected (pools d) = {}"
    "objs d1 = objs d - set n1" "reclaimed d1 = n1 @ reclaimed d" "pools d1 = pools d" by (auto simp: settles_def)
  from a(2) obtain n2 where 2: "M1 = M2 + mset n2" "set n2 \<inter> protected (pools d1) = {}"
    "objs d2 = objs d1 - set n2" "reclaimed d2 = n2 @ reclaimed d1" by (auto simp: settles_def)
  have "M = M2 + mset (n2 @ n1)" "set (n2 @ n1) \<inter> protected (pools d) = {}"
    "objs d2 = objs d - set (n2 @ n1)" "reclaimed d2 = (n2 @ n1) @ reclaimed d"
    using 1 2 by (auto simp: ac_simps)
  then show ?thesis using a unfolding settles_def by metis
qed

lemma settles_frame: "settles M d M' d' \<Longrightarrow> settles (M + N) d (M' + N) d'"
  by (auto simp: settles_def ac_simps)

lemma settles_waiting: "settles M d M' d' \<Longrightarrow> waiting_ok M d \<Longrightarrow> waiting_ok M' d'"
proof -
  assume s: "settles M d M' d'" and w: "waiting_ok M d"
  from s obtain new where n: "M = M' + mset new" "objs d' = objs d - set new" by (auto simp: settles_def)
  have c: "count M' x + count (mset new) x \<le> 1" for x using w n(1) by (metis waiting_ok_def count_union)
  have "x \<notin> set new" if "x \<in># M'" for x
  proof
    assume "x \<in> set new"
    then have "0 < count (mset new) x" by (metis count_greater_zero_iff set_mset_mset)
    moreover have "0 < count M' x" using that by simp
    ultimately show False using c [of x] by linarith
  qed
  then show ?thesis using w n c by (auto simp: waiting_ok_def intro: le_trans [OF le_add1])
qed

lemma settles_dom_ok: "settles M d M' d' \<Longrightarrow> dom_ok S d' = dom_ok S d"
  by (simp add: settles_def dom_ok_def)

lemma waiting_pending: "waiting_ok (mset l + N) d \<Longrightarrow> pending_ok l d"
proof -
  assume w: "waiting_ok (mset l + N) d"
  then have "count (mset l) x \<le> 1" for x by (metis waiting_ok_def count_union add_leD1)
  then have "count (mset l) x = (if x \<in> set l then 1 else 0)" for x
    using count_greater_zero_iff [of "mset l" x] by (cases "x \<in> set l") (auto simp: le_Suc_eq not_in_iff)
  then have "distinct l" by (simp add: distinct_count_atmost_1)
  with w show ?thesis by (auto simp: pending_ok_def waiting_ok_def)
qed

lemma collected_settles: "settles (mset (delete_list d)) d (mset (delete_list (collected d))) (collected d)"
proof -
  let ?P = "protected (pools d)"
  have "mset (delete_list d) = mset (filter (\<lambda>x. x \<in> ?P) (delete_list d)) + mset (filter (\<lambda>x. x \<notin> ?P) (delete_list d))"
    by (simp add: multiset_partition [symmetric])
  then show ?thesis
    by (simp add: settles_def collected_def Let_def) blast
qed

lemma collect_settles:
  assumes "dom_ok S d" "waiting_ok (mset (delete_list d) + N) d"
  shows "\<exists>d'. collect d = Inr d' \<and> settles (mset (delete_list d) + N) d (mset (delete_list d') + N) d'"
  using collect_eq [OF dom_okD(1) [OF assms(1)] waiting_pending [OF assms(2)]]
    settles_frame [OF collected_settles] by blast

lemma settles_count: "settles M (d\<lparr>delete_count := n\<rparr>) M' d' = settles M d M' d'"
  by (simp add: settles_def)

lemma collect_if_settles:
  assumes "dom_ok S d" "waiting_ok (mset (delete_list d) + N) d"
  shows "\<exists>d'. collect_if_required (Suc (Suc f)) d = Inr d' \<and>
    settles (mset (delete_list d) + N) d (mset (delete_list d') + N) d'"
  using collect_if_required_eq [OF dom_okD(1) [OF assms(1)] waiting_pending [OF assms(2)] dom_okD(3) [OF assms(1)], of f]
    settles_frame [OF collected_settles [of "d\<lparr>delete_count := 0\<rparr>"], of N] settles_refl
  by (cases "hp_count d < delete_count d") (auto simp: settles_count)

lemma push_all_frame:
  "mset (delete_list (push_all xs d)) = mset xs + mset (delete_list d)"
  "settles M (push_all xs d) M' d' = settles M d M' d'" "dom_ok S (push_all xs d) = dom_ok S d"
  "waiting_ok M (push_all xs d) = waiting_ok M d"
  by (simp_all add: push_all_eq settles_def dom_ok_def waiting_ok_def)

lemma hpd_enqueue_all_settles:
  assumes "dom_ok S d" "waiting_ok (mset (delete_list d) + mset (nonnull xs) + N) d"
  shows "\<exists>d'. hpd_enqueue_all (Suc (Suc f)) xs True d = Inr (replicate (length xs) nullptr, d') \<and>
    settles (mset (delete_list d) + mset (nonnull xs) + N) d (mset (delete_list d') + N) d'"
proof -
  let ?d = "push_all (nonnull xs) d"
  have "dom_ok S ?d" "waiting_ok (mset (delete_list ?d) + N) ?d"
    using assms by (simp_all add: push_all_frame ac_simps)
  from collect_if_settles [OF this, of f] show ?thesis
    by (auto simp: hpd_enqueue_all_def dom_enqueue_all_eq push_all_frame ac_simps)
qed

lemma hpd_enqueue_settles:
  assumes "dom_ok S d" "waiting_ok (mset (delete_list d) + {#x#} + N) d"
  shows "\<exists>d'. hpd_enqueue (Suc (Suc f)) x True d = Inr d' \<and>
    settles (mset (delete_list d) + {#x#} + N) d (mset (delete_list d') + N) d'"
proof -
  have e: "dom_enqueue x d = push_all [x] d" by (simp add: dom_enqueue_def)
  have "dom_ok S (push_all [x] d)" "waiting_ok (mset (delete_list (push_all [x] d)) + N) (push_all [x] d)"
    using assms unfolding push_all_frame by (simp_all add: ac_simps)
  from collect_if_settles [OF this, of f] show ?thesis
    unfolding hpd_enqueue_def Let_def e push_all_frame by (auto simp: ac_simps)
qed

lemma reclaim_scan_eq:
  assumes "\<And>x. snapshot_search h x = Inr (x \<in> P)" "deleted c = ys @ xs"
    and "distinct xs" "set xs \<subseteq> objs d" "nullptr \<notin> set xs" "length xs \<le> del_index c"
  shows "reclaim_scan h (length xs) (length ys) c d =
    Inr (c\<lparr>deleted := ys @ map (\<lambda>x. if x \<in> P then x else nullptr) xs,
           del_index := del_index c - length (filter (\<lambda>x. x \<notin> P) xs)\<rparr>,
         d\<lparr>objs := objs d - (set xs - P), reclaimed := rev (filter (\<lambda>x. x \<notin> P) xs) @ reclaimed d\<rparr>)"
  using assms(2-)
proof (induction xs arbitrary: ys c d)
  case (Cons x xs)
  have g: "arr_get (deleted c) (length ys) = Inr x" using Cons.prems(1) by simp
  show ?case
  proof (cases "x \<in> P")
    case True
    have "reclaim_scan h (length xs) (length (ys @ [x])) c d =
      Inr (c\<lparr>deleted := (ys @ [x]) @ map (\<lambda>x. if x \<in> P then x else nullptr) xs,
           del_index := del_index c - length (filter (\<lambda>x. x \<notin> P) xs)\<rparr>,
         d\<lparr>objs := objs d - (set xs - P), reclaimed := rev (filter (\<lambda>x. x \<notin> P) xs) @ reclaimed d\<rparr>)"
      using Cons.prems by (intro Cons.IH) auto
    moreover have "set (x # xs) - P = set xs - P" using True by auto
    ultimately show ?thesis using True g assms(1) by simp
  next
    case False
    let ?c = "c\<lparr>del_index := del_index c - 1, deleted := (ys @ [nullptr]) @ xs\<rparr>"
    let ?d = "d\<lparr>objs := objs d - {x}, reclaimed := x # reclaimed d\<rparr>"
    have "reclaim_object x d = Inr ?d" using Cons.prems by (simp add: reclaim_object_def)
    moreover have "dec_size (del_index c) = del_index c - 1" using Cons.prems(5) by (simp add: dec_size_def)
    moreover have "reclaim_scan h (length xs) (length (ys @ [nullptr])) ?c ?d =
      Inr (?c\<lparr>deleted := (ys @ [nullptr]) @ map (\<lambda>x. if x \<in> P then x else nullptr) xs,
           del_index := del_index ?c - length (filter (\<lambda>x. x \<notin> P) xs)\<rparr>,
         ?d\<lparr>objs := objs ?d - (set xs - P), reclaimed := rev (filter (\<lambda>x. x \<notin> P) xs) @ reclaimed ?d\<rparr>)"
      using Cons.prems by (intro Cons.IH) auto
    moreover have "objs d - {x} - (set xs - P) = objs d - (set (x # xs) - P)" using False by auto
    moreover have "(deleted c)[length ys := nullptr] = (ys @ [nullptr]) @ xs" using Cons.prems(1) by simp
    ultimately show ?thesis using False g assms(1) Cons.prems(1) by (simp add: Let_def)
  qed
qed simp

section \<open>The invariant of a context\<close>

text \<open>
  The objects a context waits for stand at the front of its array, \<open>del_index\<close> of them, and there
  is room for at least one more.
\<close>

definition ctx_ok :: "nat \<Rightarrow> hpcontext \<Rightarrow> bool" where
  "ctx_ok R c \<longleftrightarrow> length (deleted c) = R \<and> packed (deleted c) \<and>
     del_index c = length (nonnull (deleted c)) \<and> (0 < R \<longrightarrow> del_index c < R)"

lemma packed_eq: "packed xs \<Longrightarrow> xs = nonnull xs @ replicate (length xs - length (nonnull xs)) nullptr"
proof (induction xs)
  case (Cons x xs)
  have p: "packed xs"
    unfolding packed_def
  proof (intro allI impI)
    fix i j assume "i < j \<and> j < length xs \<and> xs ! i = nullptr"
    then have "(x # xs) ! Suc j = nullptr"
      using Cons.prems unfolding packed_def by (metis Suc_less_eq length_Cons nth_Cons_Suc)
    then show "xs ! j = nullptr" by simp
  qed
  show ?case
  proof (cases "x = nullptr")
    case True
    have "xs ! j = nullptr" if "j < length xs" for j
      using Cons.prems that True unfolding packed_def
      by (metis Suc_less_eq length_Cons nth_Cons_0 nth_Cons_Suc zero_less_Suc)
    then have "xs = replicate (length xs) nullptr" by (simp add: list_eq_iff_nth_eq)
    moreover from this have "nonnull xs = []" by (metis nonnull_def filter_replicate)
    ultimately show ?thesis using True by (simp add: nonnull_def)
  next
    case False
    with Cons.IH [OF p] length_nonnull [of xs] show ?thesis by (simp add: nonnull_def Suc_diff_le)
  qed
qed (simp add: nonnull_def)

lemma nonnull_map_mask:
  "nullptr \<notin> set xs \<Longrightarrow> nonnull (map (\<lambda>x. if x \<in> P then x else nullptr) xs) = filter (\<lambda>x. x \<in> P) xs"
  by (induction xs) (auto simp: nonnull_def)

lemma mset_nonnull: "mset xs = mset ys \<Longrightarrow> mset (nonnull xs) = mset (nonnull ys)"
  by (simp add: nonnull_def)

lemma ctx_reclaim_settles:
  assumes ok: "dom_ok S d" and c: "length (deleted c) = R" "0 < R" "nullptr \<notin> set (deleted c)" "del_index c = R"
    and w: "waiting_ok (mset (deleted c) + mset (delete_list d) + N) d" and f: "R + 2 \<le> f"
  shows "\<exists>c' d'. ctx_reclaim f R c d = Inr (c', d') \<and> ctx_ok R c' \<and> hazard_ptrs c' = hazard_ptrs c \<and>
    ctx_size c' = ctx_size c \<and> has_domain c' = has_domain c \<and>
    settles (mset (deleted c) + mset (delete_list d) + N) d (mset (nonnull (deleted c')) + mset (delete_list d') + N) d'"
proof -
  from snapshot_correct [OF pool_lengths [OF dom_okD(1) [OF ok]]] obtain h where
    h: "take_snapshot (pools d) = Inr h" "\<And>x. snapshot_search h x = Inr (x \<in> protected (pools d))" by blast
  define P where "P = protected (pools d)"
  let ?xs = "deleted c" and ?new = "rev (filter (\<lambda>x. x \<notin> P) (deleted c))"
  have pk: "pending_ok ?xs d" using w by (intro waiting_pending [of _ "mset (delete_list d) + N"]) (simp add: ac_simps)
  let ?c1 = "c\<lparr>deleted := map (\<lambda>x. if x \<in> P then x else nullptr) ?xs, del_index := R - length ?new\<rparr>"
  let ?d1 = "d\<lparr>objs := objs d - (set ?xs - P), reclaimed := ?new @ reclaimed d\<rparr>"
  have sc: "reclaim_scan h R 0 c d = Inr (?c1, ?d1)"
    using reclaim_scan_eq [of h P c "[]" ?xs d] h(2) pk c by (simp add: P_def pending_ok_def)
  have part: "mset ?xs = mset (filter (\<lambda>x. x \<in> P) ?xs) + mset ?new"
    by (simp add: multiset_partition [symmetric])
  have s1: "settles (mset ?xs + mset (delete_list d) + N) d
      (mset (filter (\<lambda>x. x \<in> P) ?xs) + mset (delete_list d) + N) ?d1"
    unfolding settles_def part by (intro conjI exI [of _ ?new]) (auto simp: P_def ac_simps)
  have ok1: "dom_ok S ?d1" using settles_dom_ok [OF s1] ok by simp
  have w1: "waiting_ok (mset (delete_list ?d1) + mset (filter (\<lambda>x. x \<in> P) ?xs) + N) ?d1"
    using settles_waiting [OF s1 w] by (simp add: ac_simps)
  have nn: "nonnull (deleted ?c1) = filter (\<lambda>x. x \<in> P) ?xs" using nonnull_map_mask [OF c(3)] by simp
  show ?thesis
  proof (cases "?new = []")
    case True
    then have all: "filter (\<lambda>x. x \<in> P) ?xs = ?xs" by (auto simp: filter_id_conv filter_empty_conv)
    have dl: "deleted ?c1 = ?xs" using all by (auto simp: filter_id_conv map_idI)
    have n2: "nonnull ?xs = ?xs" using nn dl all by simp
    obtain f' where f': "f = Suc (Suc f')" using f by (metis add_2_eq_Suc' le_Suc_ex plus_nat.simps(2))
    from hpd_enqueue_all_settles [OF ok1, of ?xs N f'] w1 all n2 obtain d2 where
      d2: "hpd_enqueue_all f ?xs True ?d1 = Inr (replicate R nullptr, d2)"
        "settles (mset (delete_list ?d1) + mset ?xs + N) ?d1 (mset (delete_list d2) + N) d2"
      using c(1) f' by auto
    have "ctx_reclaim f R c d = Inr (?c1\<lparr>deleted := replicate R nullptr, del_index := 0\<rparr>, d2)"
      using h(1) sc d2(1) True dl by (simp add: ctx_reclaim_def)
    moreover have "settles (mset ?xs + mset (delete_list d) + N) d (mset (delete_list d2) + N) d2"
      using settles_trans [OF s1] d2(2) all by (simp add: ac_simps)
    moreover have "nonnull (replicate R nullptr) = []" by (simp add: nonnull_def)
    ultimately show ?thesis using c(2) by (simp add: ctx_ok_def packed_def)
  next
    case False
    then have "0 < length ?new" by (simp del: rev_is_Nil_conv length_rev)
    moreover have "length ?new \<le> R" using c(1) length_filter_le [of "\<lambda>x. x \<notin> P" ?xs] by simp
    ultimately have lt: "R - length ?new \<noteq> R" "length ?new \<le> R" "R - length ?new < R" using c(2) by linarith+
    have cc: "\<exists>del'. compact f (deleted ?c1) 0 (R - 1) = Inr del' \<and> mset del' = mset (deleted ?c1) \<and> packed del'"
      using c(1,2) f by (intro compact_correct) auto
    then obtain del' where del': "compact f (deleted ?c1) 0 (R - 1) = Inr del'"
      "mset del' = mset (deleted ?c1)" "packed del'" by blast
    have nd: "mset (nonnull del') = mset (filter (\<lambda>x. x \<in> P) ?xs)"
      using mset_nonnull [OF del'(2)] nn by simp
    have len: "length del' = R" "length (nonnull del') = R - length ?new"
      using mset_eq_length [OF del'(2)] mset_eq_length [OF nd]
        sum_length_filter_compl [of "\<lambda>x. x \<in> P" ?xs] c(1) by simp_all
    have "ctx_reclaim f R c d = Inr (?c1\<lparr>deleted := del'\<rparr>, ?d1)"
      using h(1) sc lt(1) del'(1) c(2) by (simp add: ctx_reclaim_def dec_size_def)
    moreover have "ctx_ok R (?c1\<lparr>deleted := del'\<rparr>)"
      using len del'(3) lt by (simp add: ctx_ok_def)
    ultimately show ?thesis using s1 nd by simp
  qed
qed

lemma delete_item_settles:
  assumes ok: "dom_ok S d" and c: "ctx_ok R c" and x: "x \<noteq> nullptr"
    and w: "waiting_ok (mset (nonnull (deleted c)) + {#x#} + mset (delete_list d) + N) d" and f: "R + 2 \<le> f"
  shows "\<exists>c' d'. delete_item f R x c d = Inr (c', d') \<and> ctx_ok R c' \<and> hazard_ptrs c' = hazard_ptrs c \<and>
    ctx_size c' = ctx_size c \<and> has_domain c' = has_domain c \<and>
    settles (mset (nonnull (deleted c)) + {#x#} + mset (delete_list d) + N) d
      (mset (nonnull (deleted c')) + mset (delete_list d') + N) d'"
proof (cases "R = 0")
  case True
  obtain f' where f': "f = Suc (Suc f')" using f by (metis add_2_eq_Suc' le_Suc_ex plus_nat.simps(2))
  have "nonnull (deleted c) = []" using c True by (simp add: ctx_ok_def nonnull_def)
  with hpd_enqueue_settles [OF ok, of x N f'] w f' True c show ?thesis
    by (auto simp: delete_item_def ac_simps)
next
  case False
  let ?xs = "nonnull (deleted c)"
  from c False have l: "length (deleted c) = R" "length ?xs < R" "del_index c = length ?xs" by (simp_all add: ctx_ok_def)
  obtain k where k: "R = length ?xs + Suc k" using l(2) less_imp_Suc_add by auto
  have dc: "deleted c = ?xs @ nullptr # replicate k nullptr"
    using packed_eq [of "deleted c"] c l k by (simp add: ctx_ok_def)
  have "(deleted c)[length ?xs := x] = ?xs @ x # replicate k nullptr" by (subst dc) simp
  then have st: "arr_set (deleted c) (del_index c) x = Inr (?xs @ x # replicate k nullptr)" using l by simp
  let ?c1 = "c\<lparr>deleted := ?xs @ x # replicate k nullptr, del_index := length ?xs + 1\<rparr>"
  have nn: "nonnull (deleted ?c1) = ?xs @ [x]" using x by (simp add: nonnull_def)
  show ?thesis
  proof (cases k)
    case 0
    then have "delete_item f R x c d = ctx_reclaim f R ?c1 d"
      using False l st k by (simp add: delete_item_def Let_def)
    moreover have "\<exists>c' d'. ctx_reclaim f R ?c1 d = Inr (c', d') \<and> ctx_ok R c' \<and> hazard_ptrs c' = hazard_ptrs ?c1 \<and>
      ctx_size c' = ctx_size ?c1 \<and> has_domain c' = has_domain ?c1 \<and>
      settles (mset (deleted ?c1) + mset (delete_list d) + N) d (mset (nonnull (deleted c')) + mset (delete_list d') + N) d'"
      by (rule ctx_reclaim_settles [OF ok]) (use 0 k False w f x in \<open>auto simp: nonnull_def ac_simps\<close>)
    ultimately show ?thesis using 0 by (simp add: ac_simps)
  next
    case (Suc k')
    then have "delete_item f R x c d = Inr (?c1, d)"
      using False l st k by (simp add: delete_item_def Let_def)
    moreover have "ctx_ok R ?c1"
    proof -
      have "packed (deleted ?c1)"
        by (rule packedI [of "length ?xs"]) (auto simp: nonnull_def nth_append dest!: nth_mem)
      then show ?thesis using nn k Suc by (simp add: ctx_ok_def)
    qed
    moreover have "settles (mset ?xs + {#x#} + mset (delete_list d) + N) d
        (mset (nonnull (deleted ?c1)) + mset (delete_list d) + N) d"
      unfolding nn using settles_refl by simp
    ultimately show ?thesis by (intro exI [of _ ?c1] exI [of _ d]) simp
  qed
qed

section \<open>Creating and destroying a context\<close>

lemma ctx_ctor_correct:
  assumes "dom_ok S d" "0 < S" "pools d = [] \<or> bitmap (hd (pools d)) \<noteq> HAZPTR_POOL_BITMAP_FULL"
  shows "\<exists>c d'. ctx_ctor (Suc f) S R d = Inr (c, d') \<and> ctx_ok R c \<and> deleted c = replicate R nullptr \<and>
    ctx_size c = S \<and> has_domain c \<and> reserves S d (hazard_ptrs c) d'"
  using hpd_reserve_correct [OF assms, of f]
  by (auto simp: ctx_ctor_def ctx_ok_def packed_def nonnull_def)

lemma ctx_dtor_correct:
  assumes ok: "dom_ok S d" and S: "0 < S" and c: "has_domain c" "hazard_ptrs c \<in> owned (pools d)"
    and w: "waiting_ok (mset (nonnull (deleted c)) + mset (delete_list d) + N) d"
  shows "\<exists>d1 d'. ctx_dtor (Suc (Suc f)) S c d = Inr d' \<and> releases S d (hazard_ptrs c) d1 \<and>
    settles (mset (nonnull (deleted c)) + mset (delete_list d) + N) d1 (mset (delete_list d') + N) d'"
proof -
  from c(2) obtain p ix where p: "p \<in> set (pools d)" "ix < 32" "bit (bitmap p) ix" "hazard_ptrs c = (pool_id p, ix * blk_size p)"
    by (auto simp: owned_def)
  have b: "blk_size p = S" using dom_okD(4) [OF ok p(1)] by simp
  let ?d1 = "d\<lparr>pools := upd_pool (pool_id p) (give_back ix) (pools d)\<rparr>"
  have r: "hpd_release (Suc (Suc f)) (hazard_ptrs c) S d = Inr ?d1" "releases S d (hazard_ptrs c) ?d1"
    using hpd_release_eq [OF ok S p(1-3), of "Suc f"] release_spec [OF ok S p(1-3)] p(4) b by simp_all
  have ok1: "dom_ok S ?d1" using r(2) by (simp add: releases_def)
  have w1: "waiting_ok (mset (delete_list ?d1) + mset (nonnull (deleted c)) + N) ?d1"
    using w by (simp add: waiting_ok_def ac_simps)
  from hpd_enqueue_all_settles [OF ok1 w1, of f] obtain d2 where
    d2: "hpd_enqueue_all (Suc (Suc f)) (deleted c) True ?d1 = Inr (replicate (length (deleted c)) nullptr, d2)"
      "settles (mset (delete_list ?d1) + mset (nonnull (deleted c)) + N) ?d1 (mset (delete_list d2) + N) d2" by blast
  have "dom_ok S d2" "waiting_ok (mset (delete_list d2) + N) d2"
    using settles_dom_ok [OF d2(2)] ok1 settles_waiting [OF d2(2) w1] by simp_all
  from collect_settles [OF this] obtain d3 where
    d3: "collect d2 = Inr d3" "settles (mset (delete_list d2) + N) d2 (mset (delete_list d3) + N) d3" by blast
  have "settles (mset (nonnull (deleted c)) + mset (delete_list d) + N) ?d1 (mset (delete_list d3) + N) d3"
    using settles_trans [OF d2(2) d3(2)] by (simp add: ac_simps)
  then show ?thesis using r d2(1) d3(1) c(1) by (intro exI [of _ ?d1] exI [of _ d3]) (simp add: ctx_dtor_def)
qed

text \<open>
  \<open>reclaim\<close> is public, but on an array that is not full it reaches an empty entry: unless some
  hazard pointer holds the null pointer with a mark, it reclaims the null pointer.
\<close>

lemma ctx_reclaim_partial:
  assumes ok: "pools_ok (pools d)" and c: "deleted c = replicate R nullptr" "0 < R" and n: "nullptr \<notin> protected (pools d)"
  shows "ctx_reclaim f R c d = Inl NullDeref"
proof -
  from snapshot_correct [OF pool_lengths [OF ok]] obtain h where
    h: "take_snapshot (pools d) = Inr h" "\<And>x. snapshot_search h x = Inr (x \<in> protected (pools d))" by blast
  obtain k where "R = Suc k" using c(2) by (cases R) auto
  then show ?thesis using c(1) h n by (simp add: ctx_reclaim_def reclaim_object_def)
qed

section \<open>Storing hazard pointers\<close>

text \<open>Two blocks that share a slot are the same block.\<close>

lemma slot_block: "x < n \<Longrightarrow> y < n \<Longrightarrow> j * n + x = i * n + y \<Longrightarrow> j = (i::nat)"
proof -
  assume a: "x < n" "y < n" "j * n + x = i * n + y"
  from a(1,2) have "(j * n + x) div n = j" "(i * n + y) div n = i" by simp_all
  with a show ?thesis by simp
qed

lemma pool_ok_store:
  "pool_ok p \<Longrightarrow> bit (bitmap p) ix \<Longrightarrow> j < blk_size p \<Longrightarrow>
   pool_ok (p\<lparr>haz_ptrs := (haz_ptrs p)[ix * blk_size p + j := x]\<rparr>)"
  by (auto simp: pool_ok_def) (metis nth_list_update_neq slot_block)

text \<open>A hazard pointer that was stored protects its object, and the object can be read back.\<close>

lemma ctx_store_correct:
  assumes ok: "dom_ok S d" and c: "hazard_ptrs c \<in> owned (pools d)" "ctx_size c = S" and i: "i < S"
  shows "\<exists>d'. ctx_store i x c d = Inr d' \<and> dom_ok S d' \<and> owned (pools d') = owned (pools d) \<and>
    length (pools d') = length (pools d) \<and> ctx_at i c d' = Inr x \<and> objs d' = objs d \<and> reclaimed d' = reclaimed d \<and> delete_list d' = delete_list d \<and>
    (x \<noteq> nullptr \<longrightarrow> x AND mark_bits_maskoff \<in> protected (pools d')) \<and>
    (\<forall>q. q \<noteq> (fst (hazard_ptrs c), snd (hazard_ptrs c) + i) \<longrightarrow> hp_load q (pools d') = hp_load q (pools d))"
proof -
  from c(1) obtain p ix where p: "p \<in> set (pools d)" "ix < 32" "bit (bitmap p) ix" "hazard_ptrs c = (pool_id p, ix * blk_size p)"
    by (auto simp: owned_def)
  note dis = dom_okD(2) [OF ok]
  have pk: "pool_ok p" "blk_size p = S" using dom_okD(4) [OF ok p(1)] by simp_all
  let ?j = "ix * S + i"
  have j: "?j < length (haz_ptrs p)" using block_end [OF pk(1) p(2)] pk(2) i by simp
  let ?g = "\<lambda>q. q\<lparr>haz_ptrs := (haz_ptrs q)[?j := x]\<rparr>"
  let ?ps = "upd_pool (pool_id p) ?g (pools d)"
  have st: "hp_store (pool_id p, ?j) x (pools d) = Inr ?ps" by (rule hp_store_eq [OF dis p(1) j])
  have sp: "set ?ps = insert (?g p) (set (pools d) - {p})" by (rule set_upd_pool [OF dis p(1)])
  have ld: "hp_load q ?ps = (if fst q = pool_id p then arr_get (haz_ptrs (?g p)) (snd q) else hp_load q (pools d))" for q
    using hp_load_upd [where g = ?g, OF dis p(1)] by simp
  have gk: "pool_ok (?g p)" using pool_ok_store [OF pk(1) p(3), of i x] pk(2) i by simp
  have "dom_ok S (d\<lparr>pools := ?ps\<rparr>)"
    using ok sp dom_okD(4) [OF ok p(1)] upd_pool_ok [where g = ?g, OF dom_okD(1) [OF ok] p(1) _ gk]
    by (auto simp: dom_ok_def snapshot_count_upd)
  moreover have "owned ?ps = owned (pools d)"
    unfolding owned_def sp using p(1) by auto
  moreover have "x AND mark_bits_maskoff \<in> protected ?ps" if "x \<noteq> nullptr"
    unfolding in_protected sp using that j set_update_memI [of ?j "haz_ptrs p" x] by auto
  moreover have "hp_load q ?ps = hp_load q (pools d)" if "q \<noteq> (pool_id p, ?j)" for q
    using ld [of q] hp_load_eq [OF dis p(1), of "snd q"] that j
    by (cases q) (auto simp: arr_get_def nth_list_update)
  ultimately show ?thesis
    using st ld [of "(pool_id p, ?j)"] p(4) pk(2) c(2) i j
    by (intro exI [of _ "d\<lparr>pools := ?ps\<rparr>"]) (simp add: ctx_store_def ctx_at_def)
qed

end
