(* ===== verification/HazSystem.thy ===== *)
theory HazSystem
  imports HazContext
begin

text \<open>
  A program that uses the hazard pointer library: one domain and the contexts of its threads. The
  steps are the operations of the library, one after the other, in any order the client's duties
  allow: an object is deleted at most once. The theory shows that none of the steps fails, that a
  hazard pointer keeps its object alive, that every deleted object is reclaimed exactly once, and
  that the 33rd context is never created.
\<close>

section \<open>The contract of a reclamation scheme\<close>

text \<open>
  A step either leaves the deleted objects waiting or reclaims some of them. \<open>retired\<close> gives the
  objects a step deletes, \<open>pending\<close> those that wait, \<open>freed\<close> the history of the reclaimed ones and
  \<open>shielded\<close> those that must not be reclaimed.
\<close>

primrec run_ops :: "('op \<Rightarrow> 's \<Rightarrow> 's res) \<Rightarrow> 'op list \<Rightarrow> 's \<Rightarrow> 's res" where
  "run_ops step [] s = Inr s"
| "run_ops step (a # as) s = bind_r (step a s) (run_ops step as)"

primrec legal_ops :: "('op \<Rightarrow> 's \<Rightarrow> bool) \<Rightarrow> ('op \<Rightarrow> 's \<Rightarrow> 's res) \<Rightarrow> 'op list \<Rightarrow> 's \<Rightarrow> bool" where
  "legal_ops legal step [] s = True"
| "legal_ops legal step (a # as) s \<longleftrightarrow>
     legal a s \<and> (case step a s of Inl e \<Rightarrow> True | Inr s' \<Rightarrow> legal_ops legal step as s')"

locale reclamation =
  fixes good :: "'s \<Rightarrow> bool"
    and legal :: "'op \<Rightarrow> 's \<Rightarrow> bool"
    and step :: "'op \<Rightarrow> 's \<Rightarrow> 's res"
    and retired :: "'op \<Rightarrow> 'x multiset"
    and pending :: "'s \<Rightarrow> 'x multiset"
    and freed :: "'s \<Rightarrow> 'x list"
    and shielded :: "'s \<Rightarrow> 'x set"
  assumes step_ok: "good s \<Longrightarrow> legal a s \<Longrightarrow> \<exists>s' new. step a s = Inr s' \<and> good s' \<and>
    freed s' = new @ freed s \<and> pending s + retired a = pending s' + mset new \<and> set new \<inter> shielded s' = {}"
begin

lemma run_ok:
  assumes "good s" "legal_ops legal step as s"
  shows "\<exists>s' new. run_ops step as s = Inr s' \<and> good s' \<and> freed s' = new @ freed s \<and>
    pending s + (\<Sum>a\<leftarrow>as. retired a) = pending s' + mset new"
  using assms
proof (induction as arbitrary: s)
  case (Cons a as)
  have "legal a s" using Cons.prems(2) by simp
  from step_ok [OF Cons.prems(1) this] this obtain s1 n1 where
    1: "step a s = Inr s1" "good s1" "freed s1 = n1 @ freed s" "pending s + retired a = pending s1 + mset n1" by auto
  from Cons.IH [OF 1(2)] 1(1) Cons.prems(2) obtain s2 n2 where
    2: "run_ops step as s1 = Inr s2" "good s2" "freed s2 = n2 @ freed s1"
      "pending s1 + (\<Sum>a\<leftarrow>as. retired a) = pending s2 + mset n2" by auto
  have "pending s + (\<Sum>a\<leftarrow>a # as. retired a) = (pending s + retired a) + (\<Sum>a\<leftarrow>as. retired a)"
    by (simp add: ac_simps)
  also have "\<dots> = pending s2 + mset (n2 @ n1)" using 1(4) 2(4) by (simp add: ac_simps)
  finally show ?case using 1 2 by (intro exI [of _ s2] exI [of _ "n2 @ n1"]) simp
qed simp

text \<open>An object that stays shielded over a run stays off the reclaimed ones.\<close>

lemma run_shielded:
  assumes "good s" "legal_ops legal step as s" "Q s"
    and "\<And>s a s'. good s \<Longrightarrow> legal a s \<Longrightarrow> step a s = Inr s' \<Longrightarrow> a \<in> set as \<Longrightarrow> Q s \<Longrightarrow> Q s'"
    and "\<And>s. good s \<Longrightarrow> Q s \<Longrightarrow> x \<in> shielded s"
  shows "\<exists>s' new. run_ops step as s = Inr s' \<and> good s' \<and> Q s' \<and> freed s' = new @ freed s \<and> x \<notin> set new"
  using assms(1-4)
proof (induction as arbitrary: s)
  case (Cons a as)
  have "legal a s" using Cons.prems(2) by simp
  from step_ok [OF Cons.prems(1) this] this obtain s1 n1 where
    1: "step a s = Inr s1" "good s1" "freed s1 = n1 @ freed s" "set n1 \<inter> shielded s1 = {}" "legal a s" by auto
  have q: "Q s1" using Cons.prems(4) [OF Cons.prems(1) 1(5) 1(1) _ Cons.prems(3)] by simp
  have l: "legal_ops legal step as s1" using Cons.prems(2) 1(1) by simp
  have "\<exists>s' new. run_ops step as s1 = Inr s' \<and> good s' \<and> Q s' \<and> freed s' = new @ freed s1 \<and> x \<notin> set new"
    using Cons.prems(4) by (intro Cons.IH [OF 1(2) l q]) auto
  moreover have "x \<notin> set n1" using assms(5) [OF 1(2) q] 1(4) by blast
  ultimately show ?case using 1 by auto
qed auto

end

section \<open>A domain and its contexts\<close>

text \<open>A context that was destroyed leaves \<open>None\<close> behind, so the others keep their places.\<close>

record hpsys =
  sys_dom :: domain
  sys_ctxs :: "hpcontext option list"

datatype hp_op =
    AllocObj uptr
  | NewContext
  | DropContext nat
  | StoreHp nat nat uptr
  | DeleteItem nat uptr

text \<open>
  \<open>hazard_pointer_assoc::context\<close>: the context is moved out of the function, and what is left of it
  is destroyed.
\<close>

definition assoc_context :: "nat \<Rightarrow> nat \<Rightarrow> nat \<Rightarrow> domain \<Rightarrow> (hpcontext \<times> domain) res" where
  "assoc_context f S R d =
     bind_r (ctx_ctor f S R d) (\<lambda>(c, d).
       case ctx_move c of (c', old) \<Rightarrow> bind_r (ctx_dtor f S old d) (\<lambda>d. Inr (c', d)))"

definition get_ctx :: "nat \<Rightarrow> hpsys \<Rightarrow> hpcontext res" where
  "get_ctx i s = bind_r (arr_get (sys_ctxs s) i) (\<lambda>c. case c of None \<Rightarrow> Inl BadAccess | Some c \<Rightarrow> Inr c)"

fun sys_step :: "nat \<Rightarrow> nat \<Rightarrow> nat \<Rightarrow> hp_op \<Rightarrow> hpsys \<Rightarrow> hpsys res" where
  "sys_step f S R (AllocObj x) s = Inr (s\<lparr>sys_dom := (sys_dom s)\<lparr>objs := insert x (objs (sys_dom s))\<rparr>\<rparr>)"
| "sys_step f S R NewContext s =
     bind_r (assoc_context f S R (sys_dom s)) (\<lambda>(c, d). Inr \<lparr>sys_dom = d, sys_ctxs = sys_ctxs s @ [Some c]\<rparr>)"
| "sys_step f S R (DropContext i) s =
     bind_r (get_ctx i s) (\<lambda>c.
     bind_r (ctx_dtor f S c (sys_dom s)) (\<lambda>d. Inr \<lparr>sys_dom = d, sys_ctxs = (sys_ctxs s)[i := None]\<rparr>))"
| "sys_step f S R (StoreHp i j x) s =
     bind_r (get_ctx i s) (\<lambda>c.
     bind_r (ctx_store j x c (sys_dom s)) (\<lambda>d. Inr (s\<lparr>sys_dom := d\<rparr>)))"
| "sys_step f S R (DeleteItem i x) s =
     bind_r (get_ctx i s) (\<lambda>c.
     bind_r (delete_item f R x c (sys_dom s)) (\<lambda>(c, d). Inr \<lparr>sys_dom = d, sys_ctxs = (sys_ctxs s)[i := Some c]\<rparr>))"

definition sys_start :: "uptr set \<Rightarrow> hpsys" where
  "sys_start live = \<lparr>sys_dom = dom_make live, sys_ctxs = []\<rparr>"

primrec live_ctxs :: "hpcontext option list \<Rightarrow> hpcontext list" where
  "live_ctxs [] = []"
| "live_ctxs (c # cs) = (case c of None \<Rightarrow> live_ctxs cs | Some c \<Rightarrow> c # live_ctxs cs)"

text \<open>The objects that were deleted and not reclaimed yet.\<close>

definition ctx_waits :: "hpcontext \<Rightarrow> uptr multiset" where
  "ctx_waits c = mset (nonnull (deleted c))"

definition sys_waits :: "hpsys \<Rightarrow> uptr multiset" where
  "sys_waits s = sum_list (map ctx_waits (live_ctxs (sys_ctxs s))) + mset (delete_list (sys_dom s))"

text \<open>The duties of the client.\<close>

fun sys_legal :: "nat \<Rightarrow> hp_op \<Rightarrow> hpsys \<Rightarrow> bool" where
  "sys_legal S (AllocObj x) s \<longleftrightarrow> x \<noteq> nullptr \<and> x \<notin> objs (sys_dom s)"
| "sys_legal S NewContext s \<longleftrightarrow> length (live_ctxs (sys_ctxs s)) < 32"
| "sys_legal S (DropContext i) s \<longleftrightarrow> i < length (sys_ctxs s) \<and> sys_ctxs s ! i \<noteq> None"
| "sys_legal S (StoreHp i j x) s \<longleftrightarrow> i < length (sys_ctxs s) \<and> sys_ctxs s ! i \<noteq> None \<and> j < S"
| "sys_legal S (DeleteItem i x) s \<longleftrightarrow> i < length (sys_ctxs s) \<and> sys_ctxs s ! i \<noteq> None \<and>
     x \<in> objs (sys_dom s) \<and> x \<notin># sys_waits s"

fun op_retired :: "hp_op \<Rightarrow> uptr multiset" where
  "op_retired (DeleteItem i x) = {#x#}"
| "op_retired _ = {#}"

definition sys_ok :: "nat \<Rightarrow> nat \<Rightarrow> hpsys \<Rightarrow> bool" where
  "sys_ok S R s \<longleftrightarrow> dom_ok S (sys_dom s) \<and> length (pools (sys_dom s)) \<le> 1 \<and>
     (\<forall>c\<in>set (live_ctxs (sys_ctxs s)). ctx_ok R c \<and> ctx_size c = S \<and> has_domain c) \<and>
     mset_set (owned (pools (sys_dom s))) = image_mset hazard_ptrs (mset (live_ctxs (sys_ctxs s))) \<and>
     waiting_ok (sys_waits s) (sys_dom s)"

section \<open>Contexts by place\<close>

lemma live_at:
  "i < length cs \<Longrightarrow> cs ! i = Some c \<Longrightarrow> mset (live_ctxs cs) = add_mset c (mset (live_ctxs (cs[i := None])))"
proof (induction cs arbitrary: i)
  case (Cons a cs)
  then show ?case by (cases i) (auto split: option.splits)
qed simp

lemma live_set:
  "i < length cs \<Longrightarrow> mset (live_ctxs (cs[i := Some c])) = add_mset c (mset (live_ctxs (cs[i := None])))"
  using live_at [of i "cs[i := Some c]" c] by simp

lemma live_append [simp]: "live_ctxs (cs @ [Some c]) = live_ctxs cs @ [c]"
  by (induction cs) (auto split: option.splits)

lemma in_live: "c \<in> set (live_ctxs cs) \<longleftrightarrow> Some c \<in> set cs"
  by (induction cs) (auto split: option.splits)

lemma in_live_set: "i < length cs \<Longrightarrow> set (live_ctxs (cs[i := Some c])) = insert c (set (live_ctxs (cs[i := None])))"
  using arg_cong [OF live_set [of i cs c], of set_mset] by simp

lemma in_live_drop: "set (live_ctxs (cs[i := None])) \<subseteq> set (live_ctxs cs)"
  by (auto simp: in_live dest: set_update_subset_insert [THEN subsetD])

lemma waits_mset: "sum_list (map ctx_waits cs) = \<Sum>\<^sub># (image_mset ctx_waits (mset cs))"
  by (induction cs) auto

lemma waits_at:
  "i < length cs \<Longrightarrow> cs ! i = Some c \<Longrightarrow> sum_list (map ctx_waits (live_ctxs cs)) =
    ctx_waits c + sum_list (map ctx_waits (live_ctxs (cs[i := None])))"
  by (simp add: waits_mset live_at)

lemma waits_set:
  "i < length cs \<Longrightarrow> sum_list (map ctx_waits (live_ctxs (cs[i := Some c]))) =
    ctx_waits c + sum_list (map ctx_waits (live_ctxs (cs[i := None])))"
  by (simp add: waits_mset live_set)

lemma get_ctx_eq: "i < length (sys_ctxs s) \<Longrightarrow> sys_ctxs s ! i = Some c \<Longrightarrow> get_ctx i s = Inr c"
  by (simp add: get_ctx_def)

lemma finite_owned: "finite (owned ps)"
proof -
  have "owned ps \<subseteq> (\<Union>p\<in>set ps. (\<lambda>ix. (pool_id p, ix * blk_size p)) ` {..<32})" by (auto simp: owned_def)
  then show ?thesis by (rule finite_subset) simp
qed

lemma sys_okD:
  assumes "sys_ok S R s"
  shows "dom_ok S (sys_dom s)" "length (pools (sys_dom s)) \<le> 1" "waiting_ok (sys_waits s) (sys_dom s)"
    "mset_set (owned (pools (sys_dom s))) = image_mset hazard_ptrs (mset (live_ctxs (sys_ctxs s)))"
    "\<And>i c. i < length (sys_ctxs s) \<Longrightarrow> sys_ctxs s ! i = Some c \<Longrightarrow>
       ctx_ok R c \<and> ctx_size c = S \<and> has_domain c \<and> hazard_ptrs c \<in> owned (pools (sys_dom s))"
proof -
  note d = assms [unfolded sys_ok_def]
  show "dom_ok S (sys_dom s)" "length (pools (sys_dom s)) \<le> 1" "waiting_ok (sys_waits s) (sys_dom s)"
    and m: "mset_set (owned (pools (sys_dom s))) = image_mset hazard_ptrs (mset (live_ctxs (sys_ctxs s)))"
    using d by simp_all
  fix i c assume c: "i < length (sys_ctxs s)" "sys_ctxs s ! i = Some c"
  then have l: "c \<in> set (live_ctxs (sys_ctxs s))" by (metis in_live nth_mem)
  have "owned (pools (sys_dom s)) = hazard_ptrs ` set (live_ctxs (sys_ctxs s))"
    using arg_cong [OF m, of set_mset] finite_owned by simp
  with l d show "ctx_ok R c \<and> ctx_size c = S \<and> has_domain c \<and> hazard_ptrs c \<in> owned (pools (sys_dom s))" by auto
qed


section \<open>Every step succeeds and keeps the invariant\<close>

definition sys_move :: "nat \<Rightarrow> nat \<Rightarrow> uptr multiset \<Rightarrow> hpsys \<Rightarrow> hpsys \<Rightarrow> bool" where
  "sys_move S R M s s' \<longleftrightarrow> sys_ok S R s' \<and>
     (\<exists>new. reclaimed (sys_dom s') = new @ reclaimed (sys_dom s) \<and> sys_waits s + M = sys_waits s' + mset new \<and>
        set new \<inter> protected (pools (sys_dom s')) = {} \<and> set new \<inter> objs (sys_dom s') = {} \<and>
        objs (sys_dom s) - set new \<subseteq> objs (sys_dom s'))"

lemma step_alloc:
  assumes "sys_ok S R s" "sys_legal S (AllocObj x) s"
  shows "\<exists>s'. sys_step f S R (AllocObj x) s = Inr s' \<and> sys_move S R {#} s s'"
proof -
  have "dom_ok S ((sys_dom s)\<lparr>objs := O'\<rparr>) = dom_ok S (sys_dom s)" for O' by (simp add: dom_ok_def)
  then show ?thesis using assms
    by (auto simp: sys_move_def sys_ok_def sys_waits_def waiting_ok_def)
qed

lemma card_owned_single:
  assumes "pools d = [p]" "dom_ok S d" "0 < S"
  shows "card (owned (pools d)) = card {ix. ix < 32 \<and> bit (bitmap p) ix}"
proof -
  have "blk_size p = S" using dom_okD(4) [OF assms(2)] assms(1) by simp
  then have "owned (pools d) = (\<lambda>ix. (pool_id p, ix * S)) ` {ix. ix < 32 \<and> bit (bitmap p) ix}"
    using assms(1) by (auto simp: owned_def)
  then show ?thesis using assms(3) by (simp add: card_image inj_on_def)
qed

lemma full_iff_card: "bitmap p = HAZPTR_POOL_BITMAP_FULL \<longleftrightarrow> card {ix. ix < 32 \<and> bit (bitmap p) ix} = 32"
proof -
  have sub: "{ix. ix < 32 \<and> bit (bitmap p) ix} \<subseteq> {..<32}" by auto
  have "card A = 32 \<longleftrightarrow> A = {..<32}" if "A \<subseteq> {..<32}" for A :: "nat set"
  proof
    assume "card A = 32"
    with that show "A = {..<32}" by (intro card_subset_eq) simp_all
  qed simp
  from this [OF sub]
  have "card {ix. ix < 32 \<and> bit (bitmap p) ix} = 32 \<longleftrightarrow> {ix. ix < 32 \<and> bit (bitmap p) ix} = {..<32}" .
  also have "\<dots> \<longleftrightarrow> bitmap p = HAZPTR_POOL_BITMAP_FULL"
    using not_full_bit [of "bitmap p"] by auto
  finally show ?thesis by simp
qed

lemma live_count: "sys_ok S R s \<Longrightarrow> card (owned (pools (sys_dom s))) = length (live_ctxs (sys_ctxs s))"
  using arg_cong [OF sys_okD(4), of S R s size] by simp

lemma room_for_context:
  assumes "sys_ok S R s" "0 < S"
  shows "length (live_ctxs (sys_ctxs s)) < 32 \<longleftrightarrow>
    pools (sys_dom s) = [] \<or> bitmap (hd (pools (sys_dom s))) \<noteq> HAZPTR_POOL_BITMAP_FULL"
proof (cases "pools (sys_dom s)")
  case Nil
  then have "owned (pools (sys_dom s)) = {}" by (simp add: owned_def)
  with live_count [OF assms(1)] Nil show ?thesis by simp
next
  case (Cons p ps)
  with sys_okD(2) [OF assms(1)] have p: "pools (sys_dom s) = [p]" by simp
  have "card {ix. ix < 32 \<and> bit (bitmap p) ix} \<le> card {..<32::nat}" by (rule card_mono) auto
  with card_owned_single [OF p sys_okD(1) [OF assms(1)] assms(2)] live_count [OF assms(1)] full_iff_card [of p] p
  show ?thesis by auto
qed

lemma assoc_context_eq: "assoc_context f S R d = ctx_ctor f S R d"
  by (cases "ctx_ctor f S R d") (auto simp: assoc_context_def ctx_move_def ctx_dtor_def)

lemma step_new:
  assumes ok: "sys_ok S R s" and S: "0 < S" and l: "sys_legal S NewContext s"
  shows "\<exists>s'. sys_step (Suc f) S R NewContext s = Inr s' \<and> sys_move S R {#} s s'"
proof -
  let ?d = "sys_dom s"
  from ctx_ctor_correct [OF sys_okD(1) [OF ok] S] room_for_context [OF ok S] l obtain c d' where
    c: "ctx_ctor (Suc f) S R ?d = Inr (c, d')" "ctx_ok R c" "deleted c = replicate R nullptr" "ctx_size c = S" "has_domain c"
      "reserves S ?d (hazard_ptrs c) d'" by fastforce
  let ?s = "\<lparr>sys_dom = d', sys_ctxs = sys_ctxs s @ [Some c]\<rparr>"
  from c(6) have r: "dom_ok S d'" "owned (pools d') = insert (hazard_ptrs c) (owned (pools ?d))"
    "hazard_ptrs c \<notin> owned (pools ?d)" "length (pools d') = max 1 (length (pools ?d))"
    "objs d' = objs ?d" "reclaimed d' = reclaimed ?d" "delete_list d' = delete_list ?d" by (simp_all add: reserves_def)
  have w: "sys_waits ?s = sys_waits s"
    using r(7) c(3) by (simp add: sys_waits_def ctx_waits_def nonnull_def)
  have "mset_set (owned (pools d')) = image_mset hazard_ptrs (mset (live_ctxs (sys_ctxs ?s)))"
    using r(2,3) sys_okD(4) [OF ok] finite_owned by (simp add: mset_set.insert)
  moreover have "waiting_ok (sys_waits ?s) d'" using w r(5) sys_okD(3) [OF ok] by (simp add: waiting_ok_def)
  ultimately have "sys_ok S R ?s"
    using ok c(2,4,5) r(1,4) by (auto simp: sys_ok_def)
  then show ?thesis using c(1) w r(5,6) by (simp add: assoc_context_eq sys_move_def)
qed

text \<open>Without room, creating a context does not return.\<close>

lemma new_context_stuck:
  assumes ok: "sys_ok S R s" and S: "0 < S" and l: "\<not> length (live_ctxs (sys_ctxs s)) < 32"
  shows "sys_step f S R NewContext s = Inl NoFuel"
proof -
  from room_for_context [OF ok S] l obtain p ps where
    "pools (sys_dom s) = p # ps" "bitmap p = HAZPTR_POOL_BITMAP_FULL" by (cases "pools (sys_dom s)") auto
  with dom_reserve_stuck [of "sys_dom s" p ps S f]
  show ?thesis by (simp add: assoc_context_eq ctx_ctor_def hpd_reserve_def)
qed


lemma step_store:
  assumes ok: "sys_ok S R s" and l: "sys_legal S (StoreHp i j x) s"
  shows "\<exists>s'. sys_step f S R (StoreHp i j x) s = Inr s' \<and> sys_move S R {#} s s'"
proof -
  from l obtain c where c: "i < length (sys_ctxs s)" "sys_ctxs s ! i = Some c" "j < S" by auto
  from sys_okD(5) [OF ok c(1,2)] have k: "ctx_size c = S" "hazard_ptrs c \<in> owned (pools (sys_dom s))" by simp_all
  from ctx_store_correct [OF sys_okD(1) [OF ok] k(2,1) c(3), of x] obtain d' where
    d': "ctx_store j x c (sys_dom s) = Inr d'" "dom_ok S d'" "owned (pools d') = owned (pools (sys_dom s))"
      "length (pools d') = length (pools (sys_dom s))" "objs d' = objs (sys_dom s)"
      "reclaimed d' = reclaimed (sys_dom s)" "delete_list d' = delete_list (sys_dom s)" by blast
  have w: "sys_waits (s\<lparr>sys_dom := d'\<rparr>) = sys_waits s" using d'(7) by (simp add: sys_waits_def)
  have "sys_ok S R (s\<lparr>sys_dom := d'\<rparr>)" using ok d' w by (simp add: sys_ok_def waiting_ok_def)
  then show ?thesis using c d' w get_ctx_eq [OF c(1,2)] by (simp add: sys_move_def)
qed

lemma settles_move:
  assumes "settles M d M' d'" "waiting_ok M d"
  shows "\<exists>new. reclaimed d' = new @ reclaimed d \<and> M = M' + mset new \<and> set new \<inter> protected (pools d') = {} \<and>
    set new \<inter> objs d' = {} \<and> pools d' = pools d \<and> objs d' = objs d - set new"
  using assms by (auto simp: settles_def)

lemma step_drop:
  assumes ok: "sys_ok S R s" and S: "0 < S" and l: "sys_legal S (DropContext i) s"
  shows "\<exists>s'. sys_step (Suc (Suc f)) S R (DropContext i) s = Inr s' \<and> sys_move S R {#} s s'"
proof -
  let ?d = "sys_dom s" and ?cs = "(sys_ctxs s)[i := None]"
  from l obtain c where c: "i < length (sys_ctxs s)" "sys_ctxs s ! i = Some c" by auto
  from sys_okD(5) [OF ok c] have k: "has_domain c" "hazard_ptrs c \<in> owned (pools ?d)" by simp_all
  let ?N = "sum_list (map ctx_waits (live_ctxs ?cs))"
  have w: "sys_waits s = mset (nonnull (deleted c)) + mset (delete_list ?d) + ?N"
    using waits_at [OF c] by (simp add: sys_waits_def ctx_waits_def ac_simps)
  from ctx_dtor_correct [OF sys_okD(1) [OF ok] S k sys_okD(3) [OF ok, unfolded w], of f] obtain d1 d' where
    d: "ctx_dtor (Suc (Suc f)) S c ?d = Inr d'" "releases S ?d (hazard_ptrs c) d1"
      "settles (sys_waits s) d1 (mset (delete_list d') + ?N) d'" unfolding w by blast
  from d(2) have r: "dom_ok S d1" "owned (pools d1) = owned (pools ?d) - {hazard_ptrs c}"
    "length (pools d1) = length (pools ?d)" "objs d1 = objs ?d" "reclaimed d1 = reclaimed ?d"
    by (simp_all add: releases_def)
  have w1: "waiting_ok (sys_waits s) d1" using sys_okD(3) [OF ok] r(4) by (simp add: waiting_ok_def)
  let ?s = "\<lparr>sys_dom = d', sys_ctxs = ?cs\<rparr>"
  have w2: "sys_waits ?s = mset (delete_list d') + ?N" by (simp add: sys_waits_def ac_simps)
  from settles_move [OF d(3) w1] obtain new where
    n: "reclaimed d' = new @ reclaimed d1" "sys_waits s = sys_waits ?s + mset new" "set new \<inter> protected (pools d') = {}"
      "set new \<inter> objs d' = {}" "pools d' = pools d1" "objs d' = objs d1 - set new" unfolding w2 by blast
  have "mset_set (owned (pools d')) = image_mset hazard_ptrs (mset (live_ctxs ?cs))"
    using sys_okD(4) [OF ok] live_at [OF c] k(2) r(2) n(5) finite_owned by (simp add: mset_set_Diff)
  moreover have "\<forall>c\<in>set (live_ctxs ?cs). ctx_ok R c \<and> ctx_size c = S \<and> has_domain c"
    using ok in_live_drop [of "sys_ctxs s" i] by (auto simp: sys_ok_def)
  moreover have "waiting_ok (sys_waits ?s) d'" using settles_waiting [OF d(3) w1] w2 by simp
  ultimately have "sys_ok S R ?s"
    using settles_dom_ok [OF d(3)] r(1,3) n(5) sys_okD(2) [OF ok] by (simp add: sys_ok_def)
  then show ?thesis using d(1) n r(4,5) get_ctx_eq [OF c] by (simp add: sys_move_def)
qed

lemma waiting_add:
  assumes "waiting_ok M d" "x \<in> objs d" "x \<notin># M"
  shows "waiting_ok (M + {#x#}) d"
  using assms by (auto simp: waiting_ok_def not_in_iff)

lemma step_delete:
  assumes ok: "sys_ok S R s" and l: "sys_legal S (DeleteItem i x) s" and f: "R + 2 \<le> f"
  shows "\<exists>s'. sys_step f S R (DeleteItem i x) s = Inr s' \<and> sys_move S R {#x#} s s'"
proof -
  let ?d = "sys_dom s" and ?cs = "(sys_ctxs s)[i := None]"
  from l obtain c where c: "i < length (sys_ctxs s)" "sys_ctxs s ! i = Some c" by auto
  from sys_okD(5) [OF ok c] have k: "ctx_ok R c" by simp
  let ?N = "sum_list (map ctx_waits (live_ctxs ?cs))"
  have w: "sys_waits s + {#x#} = mset (nonnull (deleted c)) + {#x#} + mset (delete_list ?d) + ?N"
    using waits_at [OF c] by (simp add: sys_waits_def ctx_waits_def ac_simps)
  have wo: "waiting_ok (sys_waits s + {#x#}) ?d" using waiting_add [OF sys_okD(3) [OF ok]] l by simp
  then have x: "x \<noteq> nullptr" by (auto simp: waiting_ok_def)
  from delete_item_settles [OF sys_okD(1) [OF ok] k x wo [unfolded w] f] obtain c' d' where
    d: "delete_item f R x c ?d = Inr (c', d')" "ctx_ok R c'" "hazard_ptrs c' = hazard_ptrs c" "ctx_size c' = ctx_size c"
      "has_domain c' = has_domain c"
      "settles (sys_waits s + {#x#}) ?d (mset (nonnull (deleted c')) + mset (delete_list d') + ?N) d'"
    unfolding w by blast
  let ?s = "\<lparr>sys_dom = d', sys_ctxs = (sys_ctxs s)[i := Some c']\<rparr>"
  have w2: "sys_waits ?s = mset (nonnull (deleted c')) + mset (delete_list d') + ?N"
    using waits_set [OF c(1), of c'] by (simp add: sys_waits_def ctx_waits_def ac_simps)
  from settles_move [OF d(6) wo] obtain new where
    n: "reclaimed d' = new @ reclaimed ?d" "sys_waits s + {#x#} = sys_waits ?s + mset new"
      "set new \<inter> protected (pools d') = {}" "set new \<inter> objs d' = {}" "pools d' = pools ?d"
      "objs d' = objs ?d - set new" unfolding w2 by blast
  have "mset_set (owned (pools d')) = image_mset hazard_ptrs (mset (live_ctxs (sys_ctxs ?s)))"
    using sys_okD(4) [OF ok] live_at [OF c] live_set [OF c(1), of c'] d(3) n(5) by simp
  moreover have "\<forall>c\<in>set (live_ctxs (sys_ctxs ?s)). ctx_ok R c \<and> ctx_size c = S \<and> has_domain c"
    using ok in_live_drop [of "sys_ctxs s" i] in_live_set [OF c(1), of c'] d(2,4,5) sys_okD(5) [OF ok c]
    by (auto simp: sys_ok_def)
  moreover have "waiting_ok (sys_waits ?s) d'" using settles_waiting [OF d(6) wo] w2 by simp
  ultimately have "sys_ok S R ?s"
    using settles_dom_ok [OF d(6)] sys_okD(1,2) [OF ok] n(5) by (simp add: sys_ok_def)
  then show ?thesis using d(1) n get_ctx_eq [OF c] by (simp add: sys_move_def)
qed

lemma sys_step_ok:
  assumes "sys_ok S R s" "0 < S" "sys_legal S a s" "R + 2 \<le> f"
  shows "\<exists>s'. sys_step f S R a s = Inr s' \<and> sys_move S R (op_retired a) s s'"
proof -
  obtain f' where f': "f = Suc (Suc f')" using assms(4) by (metis add_2_eq_Suc' le_Suc_ex plus_nat.simps(2))
  show ?thesis
    using step_alloc [of S R s _ f] step_new [of S R s "Suc f'"] step_drop [of S R s _ f'] step_store [of S R s _ _ _ f]
      step_delete [of S R s _ _ f] assms f' by (cases a) (simp_all del: sys_step.simps sys_legal.simps)
qed


section \<open>The library keeps the contract\<close>

interpretation hp: reclamation
  "\<lambda>s. sys_ok S R s \<and> 0 < S \<and> R + 2 \<le> f" "sys_legal S" "sys_step f S R" op_retired sys_waits
  "\<lambda>s. reclaimed (sys_dom s)" "\<lambda>s. protected (pools (sys_dom s))" for f S R
  by unfold_locales (use sys_step_ok in \<open>fastforce simp: sys_move_def\<close>)

lemma sys_start_ok: "nullptr \<notin> live \<Longrightarrow> sys_ok S R (sys_start live)"
  by (simp add: sys_ok_def sys_start_def dom_make_def dom_ok_def pools_ok_def owned_def sys_waits_def waiting_ok_def)

text \<open>The states a program can reach.\<close>

inductive hp_reach :: "nat \<Rightarrow> nat \<Rightarrow> nat \<Rightarrow> hpsys \<Rightarrow> bool" for f S R where
  start: "nullptr \<notin> live \<Longrightarrow> hp_reach f S R (sys_start live)"
| step: "hp_reach f S R s \<Longrightarrow> sys_legal S a s \<Longrightarrow> sys_step f S R a s = Inr s' \<Longrightarrow> hp_reach f S R s'"

lemma reach_ok: "hp_reach f S R s \<Longrightarrow> 0 < S \<Longrightarrow> R + 2 \<le> f \<Longrightarrow> sys_ok S R s"
proof (induction rule: hp_reach.induct)
  case (step s a s')
  with sys_step_ok [of S R s a f] show ?case by (auto simp: sys_move_def)
qed (rule sys_start_ok)

section \<open>A hazard pointer keeps its object\<close>

definition sys_holds :: "nat \<Rightarrow> nat \<Rightarrow> uptr \<Rightarrow> hpsys \<Rightarrow> bool" where
  "sys_holds i j v s \<longleftrightarrow> i < length (sys_ctxs s) \<and>
     (case sys_ctxs s ! i of None \<Rightarrow> False | Some c \<Rightarrow> ctx_at j c (sys_dom s) = Inr v)"

lemma sys_holdsE:
  assumes "sys_holds i j v s"
  obtains c where "i < length (sys_ctxs s)" "sys_ctxs s ! i = Some c" "ctx_at j c (sys_dom s) = Inr v"
  using assms by (auto simp: sys_holds_def split: option.splits)

lemma ctx_at_load: "ctx_at j c d = Inr v \<longleftrightarrow>
    j < ctx_size c \<and> hp_load (fst (hazard_ptrs c), snd (hazard_ptrs c) + j) (pools d) = Inr v"
  by (simp add: ctx_at_def)

lemma hp_load_in: "hp_load q ps = Inr v \<Longrightarrow> \<exists>p\<in>set ps. v \<in> set (haz_ptrs p)"
proof (induction ps)
  case (Cons p ps)
  then show ?case by (auto simp: arr_get_def split: if_splits)
qed simp

lemma holds_protected:
  assumes "sys_holds i j v s" "v \<noteq> nullptr"
  shows "v AND mark_bits_maskoff \<in> protected (pools (sys_dom s))"
proof -
  from assms(1) obtain c where "ctx_at j c (sys_dom s) = Inr v" by (rule sys_holdsE)
  then obtain p where "p \<in> set (pools (sys_dom s))" "v \<in> set (haz_ptrs p)"
    using hp_load_in by (metis ctx_at_load)
  then show ?thesis using assms(2) by (auto simp: in_protected)
qed

lemma owned_disjoint:
  assumes ok: "dom_ok S d" and r: "r \<in> owned (pools d)" "r' \<in> owned (pools d)" and j: "j < S" "j' < S"
    and e: "fst r = fst r'" "snd r + j = snd r' + j'"
  shows "r = r' \<and> j = j'"
proof -
  from r obtain p q ix iy where p: "p \<in> set (pools d)" "q \<in> set (pools d)" "r = (pool_id p, ix * blk_size p)"
    "r' = (pool_id q, iy * blk_size q)" by (auto simp: owned_def)
  have b: "blk_size p = S" "blk_size q = S" using dom_okD(4) [OF ok] p(1,2) by simp_all
  have "ix = iy" using slot_block [OF j] e(2) p(3,4) b by simp
  with e p b show ?thesis by simp
qed

lemma ctxs_differ:
  assumes ok: "sys_ok S R s" and i: "i < length (sys_ctxs s)" "sys_ctxs s ! i = Some c"
    and k: "k < length (sys_ctxs s)" "sys_ctxs s ! k = Some e" and ne: "i \<noteq> k"
  shows "hazard_ptrs c \<noteq> hazard_ptrs e"
proof
  assume eq: "hazard_ptrs c = hazard_ptrs e"
  have "mset (live_ctxs (sys_ctxs s)) = add_mset c (add_mset e (mset (live_ctxs ((sys_ctxs s)[i := None, k := None]))))"
    using live_at [OF i] live_at [of k "(sys_ctxs s)[i := None]" e] k ne by simp
  then have "2 \<le> count (mset_set (owned (pools (sys_dom s)))) (hazard_ptrs c)"
    using sys_okD(4) [OF ok] eq by simp
  moreover have "count (mset_set (owned (pools (sys_dom s)))) (hazard_ptrs c) \<le> 1"
    by (simp add: count_mset_set')
  ultimately show False by simp
qed

text \<open>The slot of a context is not the slot of another one.\<close>

lemma slots_differ:
  assumes ok: "sys_ok S R s" and i: "i < length (sys_ctxs s)" "sys_ctxs s ! i = Some c"
    and k: "k < length (sys_ctxs s)" "sys_ctxs s ! k = Some e" and j: "j < S" "j' < S"
    and e: "(fst (hazard_ptrs c), snd (hazard_ptrs c) + j) = (fst (hazard_ptrs e), snd (hazard_ptrs e) + j')"
  shows "i = k \<and> j = j'"
  using owned_disjoint [OF sys_okD(1) [OF ok] _ _ j] sys_okD(5) [OF ok i] sys_okD(5) [OF ok k] e ctxs_differ [OF ok i k]
  by (metis prod.inject)

text \<open>The slot of the place \<open>j\<close> of a context.\<close>

definition ctx_slot :: "hpcontext \<Rightarrow> nat \<Rightarrow> slot_ref" where
  "ctx_slot c j = (fst (hazard_ptrs c), snd (hazard_ptrs c) + j)"

lemma holds_iff:
  assumes "sys_ok S R s" "i < length (sys_ctxs s)" "sys_ctxs s ! i = Some c"
  shows "sys_holds i j v s \<longleftrightarrow> j < S \<and> hp_load (ctx_slot c j) (pools (sys_dom s)) = Inr v"
  using assms sys_okD(5) [OF assms] by (simp add: sys_holds_def ctx_at_load ctx_slot_def)

lemma holds_new:
  assumes ok: "sys_ok S R s" and S: "0 < S" and l: "sys_legal S NewContext s"
    and st: "sys_step (Suc f) S R NewContext s = Inr s'" and h: "sys_holds i j v s"
  shows "sys_holds i j v s'"
proof -
  from h obtain c where c: "i < length (sys_ctxs s)" "sys_ctxs s ! i = Some c" by (rule sys_holdsE)
  note k = sys_okD(5) [OF ok c]
  from ctx_ctor_correct [OF sys_okD(1) [OF ok] S] room_for_context [OF ok S] l obtain c' d' where
    n: "ctx_ctor (Suc f) S R (sys_dom s) = Inr (c', d')" "reserves S (sys_dom s) (hazard_ptrs c') d'" by fastforce
  have "fst (ctx_slot c j) < next_id (sys_dom s)"
    using k dom_okD(4) [OF sys_okD(1) [OF ok]] by (auto simp: owned_def ctx_slot_def)
  with n(2) have "hp_load (ctx_slot c j) (pools d') = hp_load (ctx_slot c j) (pools (sys_dom s))"
    unfolding reserves_def by blast
  then show ?thesis using st n(1) c h k
    by (auto simp: sys_holds_def assoc_context_eq nth_append ctx_at_load ctx_slot_def)
qed

lemma holds_drop:
  assumes ok: "sys_ok S R s" and S: "0 < S" and l: "sys_legal S (DropContext m) s" and m: "m \<noteq> i"
    and st: "sys_step (Suc (Suc f)) S R (DropContext m) s = Inr s'" and h: "sys_holds i j v s"
  shows "sys_holds i j v s'"
proof -
  let ?d = "sys_dom s"
  from h obtain c where c: "i < length (sys_ctxs s)" "sys_ctxs s ! i = Some c" by (rule sys_holdsE)
  from l obtain e where e: "m < length (sys_ctxs s)" "sys_ctxs s ! m = Some e" by auto
  from sys_okD(5) [OF ok e] have ke: "has_domain e" "hazard_ptrs e \<in> owned (pools ?d)" by simp_all
  let ?N = "sum_list (map ctx_waits (live_ctxs ((sys_ctxs s)[m := None])))"
  have w: "sys_waits s = mset (nonnull (deleted e)) + mset (delete_list ?d) + ?N"
    using waits_at [OF e] by (simp add: sys_waits_def ctx_waits_def ac_simps)
  from ctx_dtor_correct [OF sys_okD(1) [OF ok] S ke sys_okD(3) [OF ok, unfolded w], of f] obtain d1 d' M where
    d: "ctx_dtor (Suc (Suc f)) S e ?d = Inr d'" "releases S ?d (hazard_ptrs e) d1" "settles (sys_waits s) d1 M d'"
    unfolding w by blast
  have hl: "j < S" "hp_load (ctx_slot c j) (pools ?d) = Inr v" using h holds_iff [OF ok c] by simp_all
  have "ctx_slot c j \<notin> block_slots (hazard_ptrs e) S"
    using slots_differ [OF ok c e hl(1)] m by (auto simp: block_slots_def ctx_slot_def)
  with d(2) hl have "hp_load (ctx_slot c j) (pools d1) = Inr v" unfolding releases_def by metis
  moreover have "pools d' = pools d1" using d(3) by (simp add: settles_def)
  ultimately show ?thesis using st d(1) c m sys_okD(5) [OF ok c] get_ctx_eq [OF e] hl(1)
    by (auto simp: sys_holds_def ctx_at_load ctx_slot_def)
qed

lemma holds_store:
  assumes ok: "sys_ok S R s" and l: "sys_legal S (StoreHp m y x) s" and m: "\<not> (m = i \<and> y = j)"
    and st: "sys_step f S R (StoreHp m y x) s = Inr s'" and h: "sys_holds i j v s"
  shows "sys_holds i j v s'"
proof -
  from h obtain c where c: "i < length (sys_ctxs s)" "sys_ctxs s ! i = Some c" by (rule sys_holdsE)
  from l obtain e where e: "m < length (sys_ctxs s)" "sys_ctxs s ! m = Some e" and y: "y < S" by auto
  from sys_okD(5) [OF ok e] have ke: "ctx_size e = S" "hazard_ptrs e \<in> owned (pools (sys_dom s))" by simp_all
  from ctx_store_correct [OF sys_okD(1) [OF ok] ke(2,1) y, of x] obtain d' where
    d': "ctx_store y x e (sys_dom s) = Inr d'"
      "\<forall>q. q \<noteq> ctx_slot e y \<longrightarrow> hp_load q (pools d') = hp_load q (pools (sys_dom s))" unfolding ctx_slot_def by blast
  have hl: "j < S" "hp_load (ctx_slot c j) (pools (sys_dom s)) = Inr v" using h holds_iff [OF ok c] by simp_all
  have "ctx_slot c j \<noteq> ctx_slot e y" using slots_differ [OF ok c e hl(1) y] m by (auto simp: ctx_slot_def)
  with d'(2) hl have "hp_load (ctx_slot c j) (pools d') = Inr v" by metis
  then show ?thesis using st d'(1) c hl(1) sys_okD(5) [OF ok c] get_ctx_eq [OF e]
    by (auto simp: sys_holds_def ctx_at_load ctx_slot_def)
qed

lemma delete_frame:
  assumes "sys_ok S R s" "sys_legal S (DeleteItem i x) s" "R + 2 \<le> f" "i < length (sys_ctxs s)" "sys_ctxs s ! i = Some c"
  shows "\<exists>c' d'. delete_item f R x c (sys_dom s) = Inr (c', d') \<and> hazard_ptrs c' = hazard_ptrs c \<and>
    ctx_size c' = ctx_size c \<and> pools d' = pools (sys_dom s)"
proof -
  let ?N = "sum_list (map ctx_waits (live_ctxs ((sys_ctxs s)[i := None])))"
  have wo: "waiting_ok (sys_waits s + {#x#}) (sys_dom s)" using waiting_add [OF sys_okD(3) [OF assms(1)]] assms(2) by simp
  moreover have "sys_waits s + {#x#} = mset (nonnull (deleted c)) + {#x#} + mset (delete_list (sys_dom s)) + ?N"
    using waits_at [OF assms(4,5)] by (simp add: sys_waits_def ctx_waits_def ac_simps)
  ultimately have w: "waiting_ok (mset (nonnull (deleted c)) + {#x#} + mset (delete_list (sys_dom s)) + ?N) (sys_dom s)"
    by simp
  have "x \<noteq> nullptr" using wo by (auto simp: waiting_ok_def)
  from delete_item_settles [OF sys_okD(1) [OF assms(1)] _ this w assms(3)] sys_okD(5) [OF assms(1,4,5)]
  show ?thesis unfolding settles_def by blast
qed

lemma holds_delete:
  assumes ok: "sys_ok S R s" and l: "sys_legal S (DeleteItem m x) s" and f: "R + 2 \<le> f"
    and st: "sys_step f S R (DeleteItem m x) s = Inr s'" and h: "sys_holds i j v s"
  shows "sys_holds i j v s'"
proof -
  from l obtain e where e: "m < length (sys_ctxs s)" "sys_ctxs s ! m = Some e" by auto
  from delete_frame [OF ok l f e] obtain c' d' where
    "delete_item f R x e (sys_dom s) = Inr (c', d')" "hazard_ptrs c' = hazard_ptrs e" "ctx_size c' = ctx_size e"
      "pools d' = pools (sys_dom s)" by blast
  then show ?thesis using h st e get_ctx_eq [OF e]
    by (cases "m = i") (auto simp: sys_holds_def ctx_at_load split: option.splits)
qed

lemma holds_step:
  assumes "sys_ok S R s" "0 < S" "R + 2 \<le> f" "sys_legal S a s" "sys_step f S R a s = Inr s'" "sys_holds i j v s"
    and "a \<noteq> DropContext i" "\<And>x. a \<noteq> StoreHp i j x"
  shows "sys_holds i j v s'"
proof -
  obtain f' where f': "f = Suc (Suc f')" using assms(3) by (metis add_2_eq_Suc' le_Suc_ex plus_nat.simps(2))
  show ?thesis
  proof (cases a)
    case (AllocObj x)
    then show ?thesis using assms(5,6) by (auto simp: sys_holds_def ctx_at_load split: option.splits)
  next
    case NewContext
    with assms f' show ?thesis using holds_new by metis
  next
    case (DropContext m)
    with assms f' show ?thesis using holds_drop by metis
  next
    case (StoreHp m y x)
    with assms show ?thesis using holds_store [of S R s m y x i j f s' v] by blast
  next
    case (DeleteItem m x)
    with assms show ?thesis using holds_delete by metis
  qed
qed

text \<open>
  Whatever the program does, apart from storing to that hazard pointer again and destroying its
  context, the object stays alive.
\<close>

lemma hazard_keeps_object:
  assumes "sys_ok S R s" "0 < S" "R + 2 \<le> f" "legal_ops (sys_legal S) (sys_step f S R) as s"
    and h: "sys_holds i j v s" "v \<noteq> nullptr" "v AND mark_bits_maskoff \<in> objs (sys_dom s)"
    and as: "DropContext i \<notin> set as" "\<And>x. StoreHp i j x \<notin> set as"
  shows "\<exists>s'. run_ops (sys_step f S R) as s = Inr s' \<and> sys_holds i j v s' \<and> v AND mark_bits_maskoff \<in> objs (sys_dom s')"
proof -
  let ?x = "v AND mark_bits_maskoff"
  let ?Q = "\<lambda>s. sys_holds i j v s \<and> ?x \<in> objs (sys_dom s)"
  have "\<exists>s' new. run_ops (sys_step f S R) as s = Inr s' \<and> (sys_ok S R s' \<and> 0 < S \<and> R + 2 \<le> f) \<and> ?Q s' \<and>
    reclaimed (sys_dom s') = new @ reclaimed (sys_dom s) \<and> ?x \<notin> set new"
  proof (rule hp.run_shielded [where Q = ?Q])
    fix s a s'
    assume a: "sys_ok S R s \<and> 0 < S \<and> R + 2 \<le> f" "sys_legal S a s" "sys_step f S R a s = Inr s'" "a \<in> set as" "?Q s"
    have h': "sys_holds i j v s'"
      using holds_step [of S R s f a s' i j v] a as by blast
    from sys_step_ok [of S R s a f] a obtain new where
      "set new \<inter> protected (pools (sys_dom s')) = {}" "objs (sys_dom s) - set new \<subseteq> objs (sys_dom s')"
      by (auto simp: sys_move_def)
    with holds_protected [OF h' h(2)] h' a(5) show "?Q s'" by blast
  qed (use assms holds_protected in auto)
  then show ?thesis by blast
qed

section \<open>The end of a program\<close>

lemma free_slot_null:
  "pool_ok p \<Longrightarrow> ix < 32 \<Longrightarrow> x < blk_size p \<Longrightarrow> \<not> bit (bitmap p) ix \<Longrightarrow> haz_ptrs p ! (ix * blk_size p + x) = nullptr"
  by (simp add: pool_ok_def)

lemma no_contexts_no_protection:
  assumes ok: "dom_ok S d" and o: "owned (pools d) = {}"
  shows "protected (pools d) = {}" "delete_pools (pools d) = Inr ()"
proof -
  have b: "bitmap p = 0" if "p \<in> set (pools d)" for p
  proof (rule bit_eqI)
    fix n assume "possible_bit TYPE(32 word) n"
    then show "bit (bitmap p) n = bit (0::u32) n" using o that by (auto simp: owned_def)
  qed
  have "set (haz_ptrs p) \<subseteq> {nullptr}" if p: "p \<in> set (pools d)" for p
  proof
    fix v assume "v \<in> set (haz_ptrs p)"
    then obtain n where n: "n < length (haz_ptrs p)" "v = haz_ptrs p ! n" by (auto simp: in_set_conv_nth)
    have k: "pool_ok p" using dom_okD(4) [OF ok p] by simp
    then have bs: "0 < blk_size p" "n < blk_size p * 32" using n by (auto simp: pool_ok_def intro: Nat.gr0I)
    then have "n div blk_size p < 32" "n mod blk_size p < blk_size p" by (simp_all add: less_mult_imp_div_less mult.commute)
    then have "haz_ptrs p ! (n div blk_size p * blk_size p + n mod blk_size p) = nullptr"
      by (rule free_slot_null [OF k]) (simp add: b [OF p])
    then show "v \<in> {nullptr}" using n by simp
  qed
  then show "protected (pools d) = {}" unfolding set_eq_iff in_protected by blast
  have "\<forall>p\<in>set ps. bitmap p = 0 \<Longrightarrow> delete_pools ps = Inr ()" for ps
    by (induction ps) (auto simp: has_reservations_def)
  with b show "delete_pools (pools d) = Inr ()" by blast
qed

lemma final_collect:
  assumes ok: "sys_ok S R s" and l: "live_ctxs (sys_ctxs s) = []"
  shows "\<exists>d' new. hpd_dtor (sys_dom s) = Inr d' \<and> reclaimed d' = new @ reclaimed (sys_dom s) \<and>
    mset new = sys_waits s \<and> pools d' = [] \<and> delete_list d' = []"
proof -
  have "owned (pools (sys_dom s)) = {}" using live_count [OF ok] l finite_owned by simp
  note n = no_contexts_no_protection [OF sys_okD(1) [OF ok] this]
  have w: "sys_waits s = mset (delete_list (sys_dom s))" using l by (simp add: sys_waits_def)
  then have "pending_ok (delete_list (sys_dom s)) (sys_dom s)"
    using sys_okD(3) [OF ok] waiting_pending [of "delete_list (sys_dom s)" "{#}"] by simp
  from collect_eq [OF dom_okD(1) [OF sys_okD(1) [OF ok]] this] n w show ?thesis
    by (simp add: hpd_dtor_def collected_def dom_dtor_def Let_def)
qed

end
