(* ===== verification/HazProps.thy ===== *)
theory HazProps
  imports HazSystem
begin

text \<open>
  The properties of the hazard pointer library, from the snapshot of one domain to the life of a
  whole program, and the situations in which its operations fail or do not return.
\<close>

section \<open>Example states\<close>

text \<open>Two contexts with one hazard pointer and room for two deleted objects each.\<close>

definition demo_dom :: domain where
  "demo_dom = (dom_make {16, 32, 48})\<lparr>pools := [(pool_ctor 0 1)\<lparr>haz_ptrs := 17 # replicate 31 nullptr, bitmap := 1\<rparr>],
     hp_count := 32, next_id := 1\<rparr>"

definition demo_ops :: "hp_op list" where
  "demo_ops = [NewContext, NewContext, StoreHp 0 0 17, DeleteItem 1 16, DeleteItem 1 32, DropContext 1, DropContext 0]"

lemma demo_dom_ok: "dom_ok 1 demo_dom"
proof -
  have "pool_ok ((pool_ctor 0 1)\<lparr>haz_ptrs := 17 # replicate 31 nullptr, bitmap := 1\<rparr>)"
    by (auto simp: pool_ok_def pool_ctor_def HAZPTR_POOL_BLOCKS_def nth_Cons bit_1_iff split: nat.splits)
  then show ?thesis
    by (simp add: demo_dom_def dom_ok_def pools_ok_def dom_make_def pool_ctor_def HAZPTR_POOL_BLOCKS_def)
qed

section \<open>The snapshot\<close>

text \<open>The search in a snapshot answers whether some hazard pointer that is not null holds the
  address, with or without its mark. Copying, sorting, clearing the marks after sorting and the
  binary search together decide membership, and the copy stays within the array.\<close>

theorem snapshot_finds_hazards:
  assumes "\<forall>p\<in>set ps. length (haz_ptrs p) = pool_count p"
  shows "\<exists>h. take_snapshot ps = Inr h \<and> (\<forall>x. snapshot_search h x =
    Inr (\<exists>p\<in>set ps. \<exists>v\<in>set (haz_ptrs p). v \<noteq> nullptr \<and> x = v AND mark_bits_maskoff))"
  using snapshot_correct [OF assms] unfolding in_protected .

lemma snapshot_finds_hazards_witness:
  "\<exists>h. take_snapshot (pools demo_dom) = Inr h \<and> snapshot_search h 16 = Inr True \<and> snapshot_search h 32 = Inr False"
proof -
  have "\<forall>p\<in>set (pools demo_dom). length (haz_ptrs p) = pool_count p"
    by (simp add: demo_dom_def pool_ctor_def HAZPTR_POOL_BLOCKS_def)
  from snapshot_finds_hazards [OF this] obtain h where h: "take_snapshot (pools demo_dom) = Inr h"
    "\<forall>x. snapshot_search h x =
      Inr (\<exists>p\<in>set (pools demo_dom). \<exists>v\<in>set (haz_ptrs p). v \<noteq> nullptr \<and> x = v AND mark_bits_maskoff)" by blast
  then show ?thesis by (intro exI [of _ h]) (simp add: demo_dom_def mark_bits_maskoff_def mark_bits_mask_def)
qed

section \<open>Blocks of hazard pointers\<close>

text \<open>C22: when the first pool has room, or there is no pool, a reservation returns a block nobody
  owns and changes no hazard pointer; releasing the block gives back the former owners, and every
  hazard pointer outside of the block has the value it had before.\<close>

theorem reserve_release_roundtrip:
  assumes "dom_ok len d" "0 < len" "pools d = [] \<or> bitmap (hd (pools d)) \<noteq> HAZPTR_POOL_BITMAP_FULL"
  shows "\<exists>r d1 d2. hpd_reserve (Suc f) len d = Inr (r, d1) \<and> r \<notin> owned (pools d) \<and>
    owned (pools d1) = insert r (owned (pools d)) \<and> protected (pools d1) = protected (pools d) \<and>
    hpd_release (Suc f) r len d1 = Inr d2 \<and> dom_ok len d2 \<and> owned (pools d2) = owned (pools d) \<and>
    (\<forall>q. fst q < next_id d \<and> q \<notin> block_slots r len \<longrightarrow> hp_load q (pools d2) = hp_load q (pools d))"
proof -
  from hpd_reserve_correct [OF assms, of f] obtain r d1 where
    r: "hpd_reserve (Suc f) len d = Inr (r, d1)" "reserves len d r d1" by blast
  then have k: "dom_ok len d1" "r \<in> owned (pools d1)" "r \<notin> owned (pools d)" "owned (pools d1) = insert r (owned (pools d))"
    by (simp_all add: reserves_def)
  from k(2) obtain p ix where p: "p \<in> set (pools d1)" "ix < 32" "bit (bitmap p) ix" "r = (pool_id p, ix * blk_size p)"
    by (auto simp: owned_def)
  have b: "blk_size p = len" using dom_okD(4) [OF k(1) p(1)] by simp
  let ?d2 = "d1\<lparr>pools := upd_pool (pool_id p) (give_back ix) (pools d1)\<rparr>"
  have d2: "hpd_release (Suc f) r len d1 = Inr ?d2" "releases len d1 r ?d2"
    using hpd_release_eq [OF k(1) assms(2) p(1-3), of f] release_spec [OF k(1) assms(2) p(1-3)] p(4) b by simp_all
  then have "owned (pools ?d2) = owned (pools d)" "dom_ok len ?d2"
    "\<forall>q. fst q < next_id d \<and> q \<notin> block_slots r len \<longrightarrow> hp_load q (pools ?d2) = hp_load q (pools d)"
    using r(2) k(3,4) unfolding releases_def reserves_def by auto
  with r d2(1) k show ?thesis by (auto simp: reserves_def)
qed

lemma reserve_release_roundtrip_witness:
  "\<exists>r d1 d2. hpd_reserve (Suc 0) 1 demo_dom = Inr (r, d1) \<and> r \<notin> owned (pools demo_dom) \<and>
    hpd_release (Suc 0) r 1 d1 = Inr d2 \<and> owned (pools d2) = owned (pools demo_dom)"
proof -
  have "bitmap (hd (pools demo_dom)) \<noteq> HAZPTR_POOL_BITMAP_FULL"
    by (simp add: demo_dom_def HAZPTR_POOL_BITMAP_FULL_def)
  with reserve_release_roundtrip [OF demo_dom_ok, of 0] show ?thesis by fastforce
qed

text \<open>C32: \<open>reserve\<close> does not return when the first pool has no free block or blocks of another
  size: \<open>pools_reserve\<close> keeps asking that pool, so no amount of fuel is enough.\<close>

theorem reserve_hangs:
  assumes "pools d = p # ps" "blk_size p \<noteq> len \<or> bitmap p = HAZPTR_POOL_BITMAP_FULL"
  shows "\<forall>f. dom_reserve f len d = Inl NoFuel"
  using dom_reserve_stuck [OF assms] by blast

lemma reserve_hangs_witness: "\<forall>f. dom_reserve f 2 demo_dom = Inl NoFuel"
  using reserve_hangs [of demo_dom _ "[]" 2] by (simp add: demo_dom_def pool_ctor_def)

text \<open>A domain whose contexts have no hazard pointers at all (\<open>S = 0\<close>): the context is
  created, but its destructor fails the assertion that its block was released.\<close>

theorem no_hazard_pointers:
  "\<exists>c d. ctx_ctor (Suc f) 0 R (dom_make live) = Inr (c, d) \<and> ctx_dtor (Suc f) 0 c d = Inl AssertFail"
proof -
  let ?p = "pool_ctor 0 0"
  have "bitmap ?p \<noteq> HAZPTR_POOL_BITMAP_FULL" by (simp add: pool_ctor_ok HAZPTR_POOL_BITMAP_FULL_def)
  from reserve_impl_free [OF pool_ctor_ok(3) this, of f] obtain ix where
    "reserve_impl (Suc f) 0 ?p = Inr (Some (pool_id ?p, ix * 0), ?p\<lparr>bitmap := bitmap ?p OR 2 ^ ix\<rparr>)" by blast
  then show ?thesis
    by (simp add: ctx_ctor_def hpd_reserve_def dom_reserve_def dom_make_def pools_new_def Let_def ctx_dtor_def
        hpd_release_def dom_release_def release_impl_def pool_ctor_def)
qed


section \<open>Collecting\<close>

text \<open>\<open>collect\<close> reclaims exactly the objects of the delete list that no hazard pointer
  protects, each once, keeps exactly the others on the list, and does not touch any other object.\<close>

theorem collect_reclaims_unprotected:
  assumes "pools_ok (pools d)" "distinct (delete_list d)" "set (delete_list d) \<subseteq> objs d" "nullptr \<notin> objs d"
  shows "\<exists>d'. collect d = Inr d' \<and> pools d' = pools d \<and>
    delete_list d' = rev (filter (\<lambda>x. x \<in> protected (pools d)) (delete_list d)) \<and>
    reclaimed d' = rev (filter (\<lambda>x. x \<notin> protected (pools d)) (delete_list d)) @ reclaimed d \<and>
    objs d' = objs d - {x \<in> set (delete_list d). x \<notin> protected (pools d)}"
proof -
  have "collect d = Inr (collected d)"
    using assms by (intro collect_eq) (simp_all add: pending_ok_def)
  moreover have "set (delete_list d) - P = {x \<in> set (delete_list d). x \<notin> P}" for P by auto
  ultimately show ?thesis by (simp add: collected_def Let_def)
qed

lemma collect_reclaims_unprotected_witness:
  "\<exists>d'. collect (demo_dom\<lparr>delete_list := [16, 32]\<rparr>) = Inr d' \<and> delete_list d' = [16] \<and> reclaimed d' = [32]"
proof -
  have "protected (pools demo_dom) = {16}"
    by (auto simp: in_protected demo_dom_def mark_bits_maskoff_def mark_bits_mask_def)
  with collect_reclaims_unprotected [of "demo_dom\<lparr>delete_list := [16, 32]\<rparr>"] dom_okD(1) [OF demo_dom_ok]
  show ?thesis by (simp add: demo_dom_def dom_make_def) blast
qed

text \<open>After an object is enqueued, a collection runs exactly when the counter of deletes then
  exceeds the number of hazard pointers of the domain; it starts by setting the counter to zero, and
  leaves in it the number of objects that could not be reclaimed. Otherwise the object waits.\<close>

theorem collection_threshold:
  assumes "dom_ok S d" "distinct (x # delete_list d)" "set (x # delete_list d) \<subseteq> objs d" "nullptr \<notin> objs d"
  shows "hp_count d = int (snapshot_count (pools d)) \<and>
    hpd_enqueue (Suc (Suc f)) x True d =
      (if hp_count d < delete_count d + 1 then collect (d\<lparr>delete_list := x # delete_list d, delete_count := 0\<rparr>)
       else Inr (d\<lparr>delete_list := x # delete_list d, delete_count := delete_count d + 1\<rparr>)) \<and>
    (\<forall>d'. collect (d\<lparr>delete_list := x # delete_list d, delete_count := 0\<rparr>) = Inr d' \<longrightarrow>
      delete_count d' = int (length (delete_list d')))"
proof -
  let ?d = "d\<lparr>delete_list := x # delete_list d, delete_count := delete_count d + 1\<rparr>"
  have ok: "pools_ok (pools ?d)" "pending_ok (delete_list ?d) ?d" "0 \<le> hp_count ?d"
    using assms dom_okD [OF assms(1)] by (auto simp: pending_ok_def)
  have c: "collect (?d\<lparr>delete_count := 0\<rparr>) = Inr (collected (?d\<lparr>delete_count := 0\<rparr>))"
    using ok by (intro collect_eq) (simp_all add: pending_ok_def)
  moreover have "hpd_enqueue (Suc (Suc f)) x True d = collect_if_required (Suc (Suc f)) ?d"
    by (simp add: hpd_enqueue_def dom_enqueue_def push_delete_node_def)
  ultimately show ?thesis using collect_if_required_eq [OF ok, of f] assms(1)
    by (auto simp: dom_ok_def collected_def Let_def)
qed

lemma collection_threshold_witness:
  "hpd_enqueue 2 16 True demo_dom = Inr (demo_dom\<lparr>delete_list := [16], delete_count := 1\<rparr>)"
proof -
  have "distinct (16 # delete_list demo_dom)" "set (16 # delete_list demo_dom) \<subseteq> objs demo_dom" "nullptr \<notin> objs demo_dom"
    by (simp_all add: demo_dom_def dom_make_def)
  from collection_threshold [OF demo_dom_ok this, of 0]
  show ?thesis by (simp add: demo_dom_def dom_make_def numeral_2_eq_2)
qed

section \<open>Contexts\<close>

text \<open>The compaction of the array of deleted objects ends, keeps the objects and moves them to
  the front, so that the entries behind them are null.\<close>

theorem compaction:
  assumes "del \<noteq> []" "length del \<le> f"
  shows "\<exists>del'. compact f del 0 (length del - 1) = Inr del' \<and> mset del' = mset del \<and>
    del' = filter (\<lambda>x. x \<noteq> nullptr) del' @ replicate (count (mset del) nullptr) nullptr"
proof -
  have "\<exists>del'. compact f del 0 (length del - 1) = Inr del' \<and> mset del' = mset del \<and> packed del'"
    using assms by (intro compact_correct) (auto simp: Suc_le_eq [symmetric] neq_Nil_conv)
  then obtain del' where d: "compact f del 0 (length del - 1) = Inr del'" "mset del' = mset del" "packed del'" by blast
  have "length (filter (\<lambda>x. x = nullptr) del') + length (nonnull del') = length del'"
    using sum_length_filter_compl [of "\<lambda>x. x = nullptr" del'] by (simp add: nonnull_def)
  moreover have "count (mset del) nullptr = length (filter (\<lambda>x. x = nullptr) del')"
    unfolding d(2) [symmetric] by (simp add: count_mset count_list_eq_length_filter eq_commute [of nullptr] cong: filter_cong)
  ultimately have "count (mset del) nullptr = length del' - length (nonnull del')" by linarith
  then show ?thesis using packed_eq [OF d(3)] d(1,2) by (metis nonnull_def)
qed

lemma compaction_witness:
  "\<exists>del'. compact 4 [0, 16, 0, 32] 0 3 = Inr del' \<and> mset del' = {#0, 16, 0, 32#} \<and>
     del' = filter (\<lambda>x. x \<noteq> nullptr) del' @ [0, 0]"
proof -
  have "count (mset [0, 16, 0, 32]) (0::uptr) = Suc (Suc 0)" by simp
  then have "replicate (count (mset [0, 16, 0, 32]) (0::uptr)) (0::uptr) = [0, 0]" by simp
  with compaction [of "[0, 16, 0, 32]" 4] show ?thesis by (simp add: numeral_3_eq_3)
qed

text \<open>\<open>delete_item\<close> of a live object that was not deleted before succeeds in every context
  in good order. The objects it reclaims were deleted before and are protected by no hazard pointer;
  all others wait in the context or on the domain's list, and the context has room again.\<close>

theorem delete_item_safe:
  assumes "dom_ok S d" "ctx_ok R c" "x \<in> objs d" "nullptr \<notin> objs d"
    and "distinct (nonnull (deleted c) @ x # delete_list d)" "set (nonnull (deleted c)) \<union> set (delete_list d) \<subseteq> objs d"
    and "R + 2 \<le> f"
  shows "\<exists>c' d' new. delete_item f R x c d = Inr (c', d') \<and> ctx_ok R c' \<and> pools d' = pools d \<and>
    reclaimed d' = new @ reclaimed d \<and> set new \<inter> protected (pools d) = {} \<and> objs d' = objs d - set new \<and>
    mset (nonnull (deleted c)) + {#x#} + mset (delete_list d) =
      mset (nonnull (deleted c')) + mset (delete_list d') + mset new"
proof -
  let ?M = "mset (nonnull (deleted c)) + {#x#} + mset (delete_list d)"
  have "?M = mset (nonnull (deleted c) @ x # delete_list d)" by simp
  moreover have "count (mset (nonnull (deleted c) @ x # delete_list d)) y \<le> 1" for y
    using assms(5) unfolding distinct_count_atmost_1 by (simp split: if_splits)
  ultimately have w: "waiting_ok (?M + {#}) d" using assms(3,4,6) by (auto simp: waiting_ok_def)
  have "x \<noteq> nullptr" using assms(3,4) by auto
  from delete_item_settles [OF assms(1,2) this w assms(7)] show ?thesis unfolding settles_def by fastforce
qed

definition demo_ctx :: hpcontext where
  "demo_ctx = \<lparr>deleted = [16, 0], del_index = 1, hazard_ptrs = (0, 0), ctx_size = 1, has_domain = True\<rparr>"

lemma delete_item_safe_witness:
  "\<exists>c' d' new. delete_item 4 2 32 demo_ctx demo_dom = Inr (c', d') \<and> ctx_ok 2 c' \<and> set new \<inter> {16} = {} \<and>
     {#16, 32#} = mset (nonnull (deleted c')) + mset (delete_list d') + mset new"
proof -
  have "packed [16, 0]" by (rule packedI [of 1]) auto
  then have c: "ctx_ok 2 demo_ctx" by (simp add: ctx_ok_def demo_ctx_def nonnull_def)
  have p: "protected (pools demo_dom) = {16}"
    by (auto simp: in_protected demo_dom_def mark_bits_maskoff_def mark_bits_mask_def)
  have n: "nonnull (deleted demo_ctx) = [16]" "delete_list demo_dom = []" "objs demo_dom = {16, 32, 48}"
    by (simp_all add: nonnull_def demo_ctx_def demo_dom_def dom_make_def)
  from delete_item_safe [OF demo_dom_ok c, of 32 4] obtain c' d' new where
    "delete_item 4 2 32 demo_ctx demo_dom = Inr (c', d')" "ctx_ok 2 c'" "set new \<inter> {16} = {}"
    "{#16#} + {#32#} + {#} = mset (nonnull (deleted c')) + mset (delete_list d') + mset new" unfolding n p by auto
  then show ?thesis by (intro exI [of _ c'] exI [of _ d'] exI [of _ new]) (simp add: add_mset_commute)
qed

text \<open>A call of \<open>reclaim\<close> from outside, while the array is empty, reclaims the null pointer
  (unless a marked null pointer is stored in some hazard pointer).\<close>

theorem reclaim_empty_array:
  assumes "pools_ok (pools d)" "deleted c = replicate R nullptr" "0 < R" "nullptr \<notin> protected (pools d)"
  shows "ctx_reclaim f R c d = Inl NullDeref"
  by (rule ctx_reclaim_partial [OF assms])

lemma reclaim_empty_array_witness: "ctx_reclaim 9 2 (demo_ctx\<lparr>deleted := [0, 0]\<rparr>) demo_dom = Inl NullDeref"
proof (rule reclaim_empty_array)
  show "nullptr \<notin> protected (pools demo_dom)"
    by (auto simp: in_protected demo_dom_def mark_bits_maskoff_def mark_bits_mask_def)
qed (use dom_okD(1) [OF demo_dom_ok] in \<open>simp_all add: numeral_2_eq_2\<close>)


section \<open>Whole programs\<close>

lemma live_at_most:
  assumes "sys_ok S R s" "0 < S"
  shows "length (live_ctxs (sys_ctxs s)) \<le> 32"
proof (cases "pools (sys_dom s)")
  case Nil
  then show ?thesis using room_for_context [OF assms] by simp
next
  case (Cons p ps)
  with sys_okD(2) [OF assms(1)] have p: "pools (sys_dom s) = [p]" by simp
  have "card {ix. ix < 32 \<and> bit (bitmap p) ix} \<le> card {..<32::nat}" by (rule card_mono) auto
  with card_owned_single [OF p sys_okD(1) [OF assms(1)] assms(2)] live_count [OF assms(1)] show ?thesis by simp
qed

text \<open>C16: in every state a program reaches by creating and destroying contexts, storing hazard
  pointers and deleting objects, the domain has at most one pool, the contexts alive have different
  blocks and own exactly the reserved ones, there are at most 32 of them, every object that waits for
  reclamation is alive and waits once, and each next step of the program succeeds.\<close>

theorem reachable_states:
  assumes "hp_reach f S R s" "0 < S" "R + 2 \<le> f"
  shows "length (pools (sys_dom s)) \<le> 1 \<and> length (live_ctxs (sys_ctxs s)) \<le> 32 \<and>
    distinct (map hazard_ptrs (live_ctxs (sys_ctxs s))) \<and>
    set (map hazard_ptrs (live_ctxs (sys_ctxs s))) = owned (pools (sys_dom s)) \<and>
    (\<forall>x. count (sys_waits s) x \<le> 1 \<and> (x \<in># sys_waits s \<longrightarrow> x \<in> objs (sys_dom s))) \<and>
    (\<forall>a. sys_legal S a s \<longrightarrow> (\<exists>s'. sys_step f S R a s = Inr s'))"
proof -
  have ok: "sys_ok S R s" by (rule reach_ok [OF assms])
  have m: "mset (map hazard_ptrs (live_ctxs (sys_ctxs s))) = mset_set (owned (pools (sys_dom s)))"
    using sys_okD(4) [OF ok] by simp
  have e: "set (map hazard_ptrs (live_ctxs (sys_ctxs s))) = owned (pools (sys_dom s))"
    using arg_cong [OF m, of set_mset] finite_owned by simp
  have "length (map hazard_ptrs (live_ctxs (sys_ctxs s))) = card (set (map hazard_ptrs (live_ctxs (sys_ctxs s))))"
    unfolding e using live_count [OF ok] by simp
  then have "distinct (map hazard_ptrs (live_ctxs (sys_ctxs s)))" by (simp only: card_distinct)
  moreover note e
  moreover have "length (live_ctxs (sys_ctxs s)) \<le> 32" by (rule live_at_most [OF ok assms(2)])
  moreover have "waiting_ok (sys_waits s) (sys_dom s)" "length (pools (sys_dom s)) \<le> 1"
    using sys_okD(2,3) [OF ok] by simp_all
  moreover have "\<forall>a. sys_legal S a s \<longrightarrow> (\<exists>s'. sys_step f S R a s = Inr s')"
    using sys_step_ok [OF ok assms(2) _ assms(3)] by blast
  ultimately show ?thesis by (simp add: waiting_ok_def subset_iff)
qed

lemma reachable_states_witness:
  "\<exists>s. sys_step 4 1 2 NewContext (sys_start {16}) = Inr s \<and> length (live_ctxs (sys_ctxs s)) \<le> 32 \<and>
     (\<exists>s'. sys_step 4 1 2 (DeleteItem 0 16) s = Inr s')"
proof -
  obtain s where s: "sys_step 4 1 2 NewContext (sys_start {16}) = Inr s" "sys_legal 1 (DeleteItem 0 16) s"
  proof
    show "sys_step 4 1 2 NewContext (sys_start {16}) =
      Inr (case sys_step 4 1 2 NewContext (sys_start {16}) of Inr s \<Rightarrow> s | Inl e \<Rightarrow> sys_start {})" by code_simp
    show "sys_legal 1 (DeleteItem 0 16)
      (case sys_step 4 1 2 NewContext (sys_start {16}) of Inr s \<Rightarrow> s | Inl e \<Rightarrow> sys_start {})" by code_simp
  qed
  have "hp_reach 4 1 2 (sys_start {16})" by (rule hp_reach.start) simp
  then have r: "hp_reach 4 1 2 s" by (rule hp_reach.step [where a = NewContext]) (use s in \<open>simp_all add: sys_start_def\<close>)
  have "0 < (1::nat)" "2 + 2 \<le> (4::nat)" by simp_all
  from reachable_states [OF r this] s show ?thesis by blast
qed

text \<open>C10: a hazard pointer keeps its object alive. Once a context holds the address of a live
  object in one of its hazard pointers, with or without a mark, any sequence of operations of any
  context runs through without reclaiming the object, as long as this hazard pointer is not
  overwritten and its context not destroyed.\<close>

theorem hazard_keeps_alive:
  assumes "sys_ok S R s" "0 < S" "R + 2 \<le> f" "legal_ops (sys_legal S) (sys_step f S R) as s"
    and "sys_holds i j v s" "v \<noteq> nullptr" "v AND mark_bits_maskoff \<in> objs (sys_dom s)"
    and "DropContext i \<notin> set as" "\<forall>x. StoreHp i j x \<notin> set as"
  shows "\<exists>s'. run_ops (sys_step f S R) as s = Inr s' \<and> sys_holds i j v s' \<and>
    v AND mark_bits_maskoff \<in> objs (sys_dom s')"
  using hazard_keeps_object [OF assms(1-8)] assms(9) by blast

definition demo_sys :: hpsys where
  "demo_sys = (case run_ops (sys_step 4 1 2) (take 3 demo_ops) (sys_start {16, 32, 48}) of
     Inr s \<Rightarrow> s | Inl e \<Rightarrow> sys_start {})"

lemma hazard_keeps_alive_witness:
  "\<exists>s'. run_ops (sys_step 4 1 2) [DeleteItem 1 16, DeleteItem 1 32, DropContext 1] demo_sys = Inr s' \<and>
     16 \<in> objs (sys_dom s')"
proof -
  let ?as = "[DeleteItem 1 16, DeleteItem 1 32, DropContext 1]"
  have st: "sys_ok 1 2 (sys_start {16, 32, 48})" by (rule sys_start_ok) simp
  have r: "run_ops (sys_step 4 1 2) (take 3 demo_ops) (sys_start {16, 32, 48}) = Inr demo_sys" by code_simp
  have l: "legal_ops (sys_legal 1) (sys_step 4 1 2) (take 3 demo_ops) (sys_start {16, 32, 48})" by code_simp
  have ok: "sys_ok 1 2 demo_sys" using hp.run_ok [OF _ l] st r by simp
  have l2: "legal_ops (sys_legal 1) (sys_step 4 1 2) ?as demo_sys" by code_simp
  have h: "sys_holds 0 0 17 demo_sys" by code_simp
  have o: "17 AND mark_bits_maskoff \<in> objs (sys_dom demo_sys)" by code_simp
  have e: "(17::uptr) AND mark_bits_maskoff = 16" by (simp add: mark_bits_maskoff_def mark_bits_mask_def)
  from hazard_keeps_alive [OF ok _ _ l2 h _ o] e show ?thesis by auto
qed

text \<open>C11: nothing is lost and nothing is reclaimed twice. A program that follows the rules runs
  through; at any moment the objects it deleted are, each as often as it was deleted, the reclaimed
  ones and the ones that wait. When its contexts are destroyed, the destructor of the domain succeeds
  and every deleted object has been reclaimed.\<close>

theorem deletes_conserved:
  assumes "nullptr \<notin> live" "0 < S" "R + 2 \<le> f" "legal_ops (sys_legal S) (sys_step f S R) as (sys_start live)"
  shows "\<exists>s. run_ops (sys_step f S R) as (sys_start live) = Inr s \<and>
    mset (reclaimed (sys_dom s)) + sys_waits s = (\<Sum>a\<leftarrow>as. op_retired a) \<and>
    (live_ctxs (sys_ctxs s) = [] \<longrightarrow> (\<exists>d. hpd_dtor (sys_dom s) = Inr d \<and> pools d = [] \<and> delete_list d = [] \<and>
      mset (reclaimed d) = (\<Sum>a\<leftarrow>as. op_retired a)))"
proof -
  have "sys_ok S R (sys_start live) \<and> 0 < S \<and> R + 2 \<le> f" using sys_start_ok assms by simp
  from hp.run_ok [OF this assms(4)] obtain s new where
    s: "run_ops (sys_step f S R) as (sys_start live) = Inr s" "sys_ok S R s" "reclaimed (sys_dom s) = new"
      "(\<Sum>a\<leftarrow>as. op_retired a) = sys_waits s + mset new"
    by (auto simp: sys_start_def dom_make_def sys_waits_def)
  have "\<exists>d. hpd_dtor (sys_dom s) = Inr d \<and> pools d = [] \<and> delete_list d = [] \<and>
      mset (reclaimed d) = (\<Sum>a\<leftarrow>as. op_retired a)" if "live_ctxs (sys_ctxs s) = []"
    using final_collect [OF s(2) that] s(3,4) by auto
  then show ?thesis using s by (intro exI [of _ s]) (simp add: ac_simps)
qed

lemma deletes_conserved_witness:
  "\<exists>s d. run_ops (sys_step 4 1 2) demo_ops (sys_start {16, 32, 48}) = Inr s \<and> live_ctxs (sys_ctxs s) = [] \<and>
     hpd_dtor (sys_dom s) = Inr d \<and> mset (reclaimed d) = {#16, 32#}"
proof -
  have l: "legal_ops (sys_legal 1) (sys_step 4 1 2) demo_ops (sys_start {16, 32, 48})" by code_simp
  from deletes_conserved [OF _ _ _ l] obtain s where
    s: "run_ops (sys_step 4 1 2) demo_ops (sys_start {16, 32, 48}) = Inr s"
      "live_ctxs (sys_ctxs s) = [] \<longrightarrow> (\<exists>d. hpd_dtor (sys_dom s) = Inr d \<and> pools d = [] \<and> delete_list d = [] \<and>
        mset (reclaimed d) = (\<Sum>a\<leftarrow>demo_ops. op_retired a))" by auto
  have "(case run_ops (sys_step 4 1 2) demo_ops (sys_start {16, 32, 48}) of
    Inr s \<Rightarrow> live_ctxs (sys_ctxs s) = [] | Inl e \<Rightarrow> False)" by code_simp
  with s(1) have "live_ctxs (sys_ctxs s) = []" by simp
  with s show ?thesis by (auto simp: demo_ops_def)
qed

text \<open>C23: a domain serves 32 contexts at a time. With fewer, \<open>context()\<close> returns a new one; with
  32, it never returns, since the domain makes no second pool.\<close>

theorem context_limit:
  assumes "hp_reach f S R s" "0 < S" "R + 2 \<le> f"
  shows "(length (live_ctxs (sys_ctxs s)) < 32 \<longrightarrow>
      (\<exists>c d. assoc_context f S R (sys_dom s) = Inr (c, d) \<and> hazard_ptrs c \<notin> owned (pools (sys_dom s)))) \<and>
    (length (live_ctxs (sys_ctxs s)) = 32 \<longrightarrow> (\<forall>g. assoc_context g S R (sys_dom s) = Inl NoFuel))"
proof -
  have ok: "sys_ok S R s" by (rule reach_ok [OF assms])
  obtain f' where f': "f = Suc f'" using assms(3) by (cases f) auto
  from ctx_ctor_correct [OF sys_okD(1) [OF ok] assms(2), of f' R] room_for_context [OF ok assms(2)] f'
  have "length (live_ctxs (sys_ctxs s)) < 32 \<longrightarrow>
    (\<exists>c d. ctx_ctor f S R (sys_dom s) = Inr (c, d) \<and> hazard_ptrs c \<notin> owned (pools (sys_dom s)))"
    unfolding reserves_def by blast
  moreover have "assoc_context g S R (sys_dom s) = Inl NoFuel" if "length (live_ctxs (sys_ctxs s)) = 32" for g
    using new_context_stuck [OF ok assms(2), of g] that
    by (cases "assoc_context g S R (sys_dom s)") (auto split: prod.splits)
  ultimately show ?thesis by (simp add: assoc_context_eq)
qed

lemma many_contexts:
  assumes "hp_reach f S R s" "0 < S" "R + 2 \<le> f" "length (live_ctxs (sys_ctxs s)) + n \<le> 32"
  shows "\<exists>s'. run_ops (sys_step f S R) (replicate n NewContext) s = Inr s' \<and> hp_reach f S R s' \<and>
    length (live_ctxs (sys_ctxs s')) = length (live_ctxs (sys_ctxs s)) + n"
  using assms
proof (induction n arbitrary: s)
  case (Suc n)
  then have l: "sys_legal S NewContext s" by simp
  from sys_step_ok [OF reach_ok [OF Suc.prems(1-3)] Suc.prems(2) l Suc.prems(3)] obtain s1 where
    s1: "sys_step f S R NewContext s = Inr s1" by blast
  then have k: "length (live_ctxs (sys_ctxs s1)) = Suc (length (live_ctxs (sys_ctxs s)))"
    by (cases "assoc_context f S R (sys_dom s)") auto
  have "hp_reach f S R s1" by (rule hp_reach.step [OF Suc.prems(1) l s1])
  from Suc.IH [OF this Suc.prems(2,3)] Suc.prems(4) k s1 show ?case by (simp del: sys_step.simps)
qed simp

lemma context_limit_witness:
  "\<exists>s. run_ops (sys_step 3 1 1) (replicate 32 NewContext) (sys_start {16}) = Inr s \<and>
    (\<forall>g. assoc_context g 1 1 (sys_dom s) = Inl NoFuel)"
proof -
  have "hp_reach 3 1 1 (sys_start {16})" by (rule hp_reach.start) simp
  moreover have "length (live_ctxs (sys_ctxs (sys_start {16}))) = 0" by (simp add: sys_start_def)
  ultimately obtain s where s: "run_ops (sys_step 3 1 1) (replicate 32 NewContext) (sys_start {16}) = Inr s"
    "hp_reach 3 1 1 s" "length (live_ctxs (sys_ctxs s)) = 32"
    using many_contexts [of 3 1 1 "sys_start {16}" 32] by auto
  from context_limit [OF s(2)] s(1,3) show ?thesis by auto
qed

end
