(* ===== verification/PoolConc.thy ===== *)
theory PoolConc
  imports HazContext
begin

text \<open>
  A pool of hazard pointers under concurrency: any number of threads reserve blocks
  (\<open>reserve_impl\<close>), store to the hazard pointers of their block, release it (\<open>release_impl\<close>) and
  copy all hazard pointers for a snapshot (\<open>copy_hazard_pointers\<close>), and their atomic accesses to
  the bitmap and the slots interleave in every possible way.
\<close>

section \<open>The steps\<close>

text \<open>
  Where a thread is: outside of the pool's functions without a block; in the loop of
  \<open>reserve_impl\<close> with the value of \<open>expected\<close>; owner of a block; in \<open>release_impl\<close>, clearing the
  slots, before the load of the bitmap and before the exchange; aborted by the assertion; in
  \<open>copy_hazard_pointers\<close> with the pointers found so far.
\<close>

datatype pool_pc =
    Outside
  | Reserving u32
  | Owner nat
  | Clearing nat nat
  | RelLoad nat
  | RelCas nat u32
  | Aborted
  | Copying nat "uptr list"

record pool_sys =
  shared :: pool
  places :: "pool_pc list"

abbreviation goto :: "nat \<Rightarrow> pool_pc \<Rightarrow> pool_sys \<Rightarrow> pool_sys" where
  "goto t pc s \<equiv> s\<lparr>places := (places s)[t := pc]\<rparr>"

fun reserve_step :: "u32 \<Rightarrow> pool \<Rightarrow> pool_pc \<times> pool" where
  "reserve_step expected p =
     (if expected = HAZPTR_POOL_BITMAP_FULL then (Outside, p)
      else case free_block expected 1 0 of (ix, m) \<Rightarrow>
        if ix < HAZPTR_POOL_BLOCKS
        then (case atomic_compare_exchange (bitmap p) expected (expected OR m) of (ok, bm, expected') \<Rightarrow>
               if ok then (Owner ix, p\<lparr>bitmap := bm\<rparr>) else (Reserving expected', p))
        else (Reserving expected, p))"

fun release_step :: "nat \<Rightarrow> u32 \<Rightarrow> pool \<Rightarrow> pool_pc \<times> pool" where
  "release_step ix expected p =
     (case atomic_compare_exchange (bitmap p) expected (expected XOR push_bit ix 1) of (ok, bm, _) \<Rightarrow>
        if ok then (Outside, p\<lparr>bitmap := bm\<rparr>) else (RelLoad ix, p))"

inductive pool_step :: "nat \<Rightarrow> pool_sys \<Rightarrow> pool_sys \<Rightarrow> bool" for t where
  enter: "t < length (places s) \<Longrightarrow> places s ! t = Outside \<Longrightarrow>
    pool_step t s (goto t (Reserving (bitmap (shared s))) s)"
| reserve: "t < length (places s) \<Longrightarrow> places s ! t = Reserving e \<Longrightarrow> reserve_step e (shared s) = (pc, p) \<Longrightarrow>
    pool_step t s ((goto t pc s)\<lparr>shared := p\<rparr>)"
| store: "t < length (places s) \<Longrightarrow> places s ! t = Owner ix \<Longrightarrow> x < blk_size (shared s) \<Longrightarrow>
    pool_step t s (s\<lparr>shared := (shared s)\<lparr>haz_ptrs := (haz_ptrs (shared s))[ix * blk_size (shared s) + x := v]\<rparr>\<rparr>)"
| release: "t < length (places s) \<Longrightarrow> places s ! t = Owner ix \<Longrightarrow> pool_step t s (goto t (Clearing ix 0) s)"
| clear: "t < length (places s) \<Longrightarrow> places s ! t = Clearing ix x \<Longrightarrow> x < blk_size (shared s) \<Longrightarrow>
    pool_step t s ((goto t (Clearing ix (Suc x)) s)\<lparr>shared :=
      (shared s)\<lparr>haz_ptrs := (haz_ptrs (shared s))[ix * blk_size (shared s) + x := nullptr]\<rparr>\<rparr>)"
| check: "t < length (places s) \<Longrightarrow> places s ! t = Clearing ix x \<Longrightarrow> \<not> x < blk_size (shared s) \<Longrightarrow>
    pool_step t s (goto t (if push_bit ix 1 = bitmap (shared s) AND push_bit ix 1 then RelLoad ix else Aborted) s)"
| load: "t < length (places s) \<Longrightarrow> places s ! t = RelLoad ix \<Longrightarrow>
    pool_step t s (goto t (RelCas ix (bitmap (shared s))) s)"
| exchange: "t < length (places s) \<Longrightarrow> places s ! t = RelCas ix e \<Longrightarrow> release_step ix e (shared s) = (pc, p) \<Longrightarrow>
    pool_step t s ((goto t pc s)\<lparr>shared := p\<rparr>)"
| snap: "t < length (places s) \<Longrightarrow> places s ! t = Outside \<Longrightarrow> pool_step t s (goto t (Copying 0 []) s)"
| copy: "t < length (places s) \<Longrightarrow> places s ! t = Copying k vs \<Longrightarrow> k < pool_count (shared s) \<Longrightarrow>
    haz_ptrs (shared s) ! k = v \<Longrightarrow>
    pool_step t s (goto t (Copying (Suc k) (if nullptr \<noteq> v then vs @ [v] else vs)) s)"
| copied: "t < length (places s) \<Longrightarrow> places s ! t = Copying k vs \<Longrightarrow> \<not> k < pool_count (shared s) \<Longrightarrow>
    pool_step t s (goto t Outside s)"

definition pool_init :: "nat \<Rightarrow> nat \<Rightarrow> pool_sys" where
  "pool_init n blocksize = \<lparr>shared = pool_ctor 0 blocksize, places = replicate n Outside\<rparr>"

inductive pool_reach :: "nat \<Rightarrow> nat \<Rightarrow> pool_sys \<Rightarrow> bool" for n b where
  init: "pool_reach n b (pool_init n b)"
| step: "pool_reach n b s \<Longrightarrow> pool_step t s s' \<Longrightarrow> pool_reach n b s'"

section \<open>Who holds which block\<close>

fun holds_blk :: "pool_pc \<Rightarrow> nat option" where
  "holds_blk (Owner ix) = Some ix"
| "holds_blk (Clearing ix x) = Some ix"
| "holds_blk (RelLoad ix) = Some ix"
| "holds_blk (RelCas ix e) = Some ix"
| "holds_blk _ = None"

text \<open>How many slots of its block a thread has cleared on its way out.\<close>

fun cleared :: "nat \<Rightarrow> pool_pc \<Rightarrow> nat" where
  "cleared b (Clearing ix x) = x"
| "cleared b (RelLoad ix) = b"
| "cleared b (RelCas ix e) = b"
| "cleared b _ = 0"

definition holders :: "pool_sys \<Rightarrow> nat \<Rightarrow> nat set" where
  "holders s ix = {t. t < length (places s) \<and> holds_blk (places s ! t) = Some ix}"

definition excl :: "pool_sys \<Rightarrow> bool" where
  "excl s \<longleftrightarrow> (\<forall>ix. if bit (bitmap (shared s)) ix then \<exists>t. holders s ix = {t} else holders s ix = {})"

text \<open>The slots of a block are null when nobody holds it, or as far as its holder has cleared it.\<close>

definition settled :: "pool_sys \<Rightarrow> nat \<Rightarrow> nat \<Rightarrow> bool" where
  "settled s ix x \<longleftrightarrow> (\<forall>t\<in>holders s ix. x < cleared (blk_size (shared s)) (places s ! t))"

definition clean :: "pool_sys \<Rightarrow> bool" where
  "clean s \<longleftrightarrow> length (haz_ptrs (shared s)) = pool_count (shared s) \<and> pool_count (shared s) = blk_size (shared s) * 32 \<and>
     Aborted \<notin> set (places s) \<and>
     (\<forall>ix<32. \<forall>x<blk_size (shared s). settled s ix x \<longrightarrow> haz_ptrs (shared s) ! (ix * blk_size (shared s) + x) = nullptr)"

lemma holders_goto:
  "t < length (places s) \<Longrightarrow>
   holders (s\<lparr>places := (places s)[t := pc], shared := p\<rparr>) ix = (holders s ix - {t}) \<union> (if holds_blk pc = Some ix then {t} else {})"
  by (auto simp: holders_def nth_list_update split: if_splits)

lemma same_shared [simp]: "(s::pool_sys)\<lparr>places := ts, shared := shared s\<rparr> = s\<lparr>places := ts\<rparr>"
  by simp

lemma holders_shared: "holders (s\<lparr>shared := p\<rparr>) ix = holders s ix"
  by (simp add: holders_def)

lemma in_holders: "t < length (places s) \<Longrightarrow> t \<in> holders s ix \<longleftrightarrow> holds_blk (places s ! t) = Some ix"
  by (simp add: holders_def)

lemma holders_same:
  assumes "t < length (places s)" "holds_blk pc = holds_blk (places s ! t)"
  shows "holders (s\<lparr>places := (places s)[t := pc], shared := p\<rparr>) ix = holders s ix"
  unfolding holders_goto [OF assms(1)] using assms in_holders [OF assms(1), of ix] by auto

lemma exclD:
  assumes "excl s" "t < length (places s)" "holds_blk (places s ! t) = Some ix"
  shows "bit (bitmap (shared s)) ix" "holders s ix = {t}"
proof -
  have t: "t \<in> holders s ix" using assms by (simp add: holders_def)
  then show b: "bit (bitmap (shared s)) ix" using assms(1) unfolding excl_def by (metis empty_iff)
  then obtain u where "holders s ix = {u}" using assms(1) unfolding excl_def by metis
  with t show "holders s ix = {t}" by simp
qed

lemma cleanI:
  assumes "clean s" "blk_size (shared s') = blk_size (shared s)" "pool_count (shared s') = pool_count (shared s)"
    "length (haz_ptrs (shared s')) = length (haz_ptrs (shared s))" "Aborted \<notin> set (places s')"
    and "\<And>ix x. ix < 32 \<Longrightarrow> x < blk_size (shared s) \<Longrightarrow> settled s' ix x \<Longrightarrow>
      (settled s ix x \<and> haz_ptrs (shared s') ! (ix * blk_size (shared s) + x) = haz_ptrs (shared s) ! (ix * blk_size (shared s) + x))
       \<or> haz_ptrs (shared s') ! (ix * blk_size (shared s) + x) = nullptr"
  shows "clean s'"
  using assms unfolding clean_def by metis

lemma not_aborted: "Aborted \<notin> set pcs \<Longrightarrow> pc \<noteq> Aborted \<Longrightarrow> Aborted \<notin> set (pcs[t := pc])"
  by (auto dest: set_update_subset_insert [THEN subsetD])

section \<open>The kinds of steps\<close>

text \<open>A step that changes the place of a thread, but neither its block nor the pool.\<close>

lemma keep_step:
  assumes "excl s" "clean s" "t < length (places s)" "holds_blk pc = holds_blk (places s ! t)" "pc \<noteq> Aborted"
    and "cleared (blk_size (shared s)) pc \<le> cleared (blk_size (shared s)) (places s ! t) \<or>
      blk_size (shared s) \<le> cleared (blk_size (shared s)) (places s ! t)"
  shows "excl (goto t pc s) \<and> clean (goto t pc s)"
proof
  have h: "holders (goto t pc s) ix = holders s ix" for ix
    using holders_same [OF assms(3,4), of "shared s" ix] by simp
  show "excl (goto t pc s)" using assms(1) unfolding excl_def h by simp
  show "clean (goto t pc s)"
  proof (rule cleanI [OF assms(2)])
    show "Aborted \<notin> set (places (goto t pc s))" using assms(2,5) not_aborted by (auto simp: clean_def)
    fix ix x assume x: "x < blk_size (shared s)" and st: "settled (goto t pc s) ix x"
    have "x < cleared (blk_size (shared s)) (places s ! u)" if "u \<in> holders s ix" for u
      using st that x assms(3,6) unfolding settled_def h by (cases "u = t") (auto simp: nth_list_update)
    then show "settled s ix x \<and> haz_ptrs (shared (goto t pc s)) ! (ix * blk_size (shared s) + x) =
        haz_ptrs (shared s) ! (ix * blk_size (shared s) + x) \<or>
      haz_ptrs (shared (goto t pc s)) ! (ix * blk_size (shared s) + x) = nullptr"
      by (simp add: settled_def)
  qed simp_all
qed

lemma gain_step:
  assumes "excl s" "clean s" "t < length (places s)" "holds_blk (places s ! t) = None"
    and "ix < 32" "\<not> bit (bitmap (shared s)) ix"
  defines "s' \<equiv> (goto t (Owner ix) s)\<lparr>shared := (shared s)\<lparr>bitmap := bitmap (shared s) OR 2 ^ ix\<rparr>\<rparr>"
  shows "excl s' \<and> clean s'"
proof
  have h: "holders s' j = (if j = ix then {t} else holders s j)" for j
  proof -
    have "t \<notin> holders s j" using assms(4) by (simp add: holders_def)
    moreover have "holders s ix = {}" using assms(1,6) unfolding excl_def by metis
    ultimately show ?thesis unfolding s'_def using holders_goto [where pc = "Owner ix", OF assms(3)] by auto
  qed
  have b: "bit (bitmap (shared s')) j \<longleftrightarrow> j = ix \<or> bit (bitmap (shared s)) j" for j
    using assms(5) by (auto simp: s'_def bit_or_iff bit_exp_iff)
  show "excl s'" using assms(1) unfolding excl_def h b by auto
  show "clean s'"
  proof (rule cleanI [OF assms(2)])
    show "Aborted \<notin> set (places s')" using assms(2) not_aborted by (auto simp: clean_def s'_def)
    fix j x assume "settled s' j x"
    then have "j \<noteq> ix" using assms(3) unfolding settled_def h by (auto simp: s'_def)
    with \<open>settled s' j x\<close> have "settled s j x"
      using assms(3,4) unfolding settled_def h by (auto simp: s'_def holders_def nth_list_update split: if_splits)
    then show "settled s j x \<and> haz_ptrs (shared s') ! (j * blk_size (shared s) + x) =
        haz_ptrs (shared s) ! (j * blk_size (shared s) + x) \<or>
      haz_ptrs (shared s') ! (j * blk_size (shared s) + x) = nullptr"
      by (simp add: s'_def)
  qed (simp_all add: s'_def)
qed

lemma lose_step:
  assumes "excl s" "clean s" "t < length (places s)" "places s ! t = RelCas ix e"
  defines "s' \<equiv> (goto t Outside s)\<lparr>shared := (shared s)\<lparr>bitmap := bitmap (shared s) XOR 2 ^ ix\<rparr>\<rparr>"
  shows "excl s' \<and> clean s'"
proof
  have o: "bit (bitmap (shared s)) ix" "holders s ix = {t}" using exclD [OF assms(1,3), of ix] assms(4) by simp_all
  then have ix: "ix < 32" using bit_imp_le_length by force
  have h: "holders s' j = (if j = ix then {} else holders s j)" for j
    unfolding s'_def using holders_goto [where pc = Outside, OF assms(3)] assms(4) o(2) in_holders [OF assms(3), of j] by auto
  have b: "bit (bitmap (shared s')) j \<longleftrightarrow> j \<noteq> ix \<and> bit (bitmap (shared s)) j" for j
    using ix o(1) by (auto simp: s'_def bit_xor_iff bit_exp_iff)
  show "excl s'" using assms(1) unfolding excl_def h b by auto
  show "clean s'"
  proof (rule cleanI [OF assms(2)])
    show "Aborted \<notin> set (places s')" using assms(2) not_aborted by (auto simp: clean_def s'_def)
    fix j x assume x: "x < blk_size (shared s)" and st: "settled s' j x"
    have "settled s j x"
    proof (cases "j = ix")
      case True
      then show ?thesis using o(2) assms(4) x by (simp add: settled_def)
    next
      case False
      with st assms(3,4) show ?thesis
        unfolding settled_def h by (auto simp: s'_def holders_def nth_list_update split: if_splits)
    qed
    then show "settled s j x \<and> haz_ptrs (shared s') ! (j * blk_size (shared s) + x) =
        haz_ptrs (shared s) ! (j * blk_size (shared s) + x) \<or>
      haz_ptrs (shared s') ! (j * blk_size (shared s) + x) = nullptr"
      by (simp add: s'_def)
  qed (simp_all add: s'_def)
qed


text \<open>A store to a slot of the thread's own block; \<open>y\<close> tells how far the thread then is with clearing it.\<close>

lemma write_step:
  assumes "excl s" "clean s" "t < length (places s)" "holds_blk (places s ! t) = Some ix" "x < blk_size (shared s)"
    and "holds_blk pc = Some ix" "pc \<noteq> Aborted"
    and "\<And>y. y < cleared (blk_size (shared s)) pc \<Longrightarrow> y < cleared (blk_size (shared s)) (places s ! t) \<and> y \<noteq> x \<or> y = x \<and> v = nullptr"
  defines "s' \<equiv> (goto t pc s)\<lparr>shared := (shared s)\<lparr>haz_ptrs := (haz_ptrs (shared s))[ix * blk_size (shared s) + x := v]\<rparr>\<rparr>"
  shows "excl s' \<and> clean s'"
proof
  have o: "bit (bitmap (shared s)) ix" "holders s ix = {t}" using exclD [OF assms(1,3,4)] by simp_all
  then have ix: "ix < 32" using bit_imp_le_length by force
  have h: "holders s' j = holders s j" for j
    unfolding s'_def using holders_same [OF assms(3)] assms(4,6) by simp
  show "excl s'" using assms(1) unfolding excl_def h by (simp add: s'_def)
  have ln: "ix * blk_size (shared s) + x < length (haz_ptrs (shared s))"
    using assms(2,5) ix by (simp add: clean_def block_bound)
  show "clean s'"
  proof (rule cleanI [OF assms(2)])
    show "Aborted \<notin> set (places s')" using assms(2,7) not_aborted by (auto simp: clean_def s'_def)
    fix j y assume y: "y < blk_size (shared s)" and st: "settled s' j y"
    let ?i = "j * blk_size (shared s) + y"
    show "settled s j y \<and> haz_ptrs (shared s') ! ?i = haz_ptrs (shared s) ! ?i \<or> haz_ptrs (shared s') ! ?i = nullptr"
    proof (cases "j = ix")
      case True
      then have "y < cleared (blk_size (shared s)) pc"
        using st o(2) assms(3) unfolding settled_def h by (simp add: s'_def)
      from assms(8) [OF this] show ?thesis
      proof
        assume "y < cleared (blk_size (shared s)) (places s ! t) \<and> y \<noteq> x"
        then show ?thesis using True o(2) by (simp add: settled_def s'_def)
      next
        assume "y = x \<and> v = nullptr"
        then show ?thesis using True ln by (simp add: s'_def)
      qed
    next
      case False
      then have "?i \<noteq> ix * blk_size (shared s) + x" using slot_block [OF y assms(5)] by blast
      moreover have "t \<notin> holders s j" using False assms(4) by (simp add: holders_def)
      then have "settled s j y" using st unfolding settled_def h
        by (simp add: s'_def) (metis nth_list_update_neq)
      ultimately show ?thesis by (simp add: s'_def)
    qed
  qed (simp_all add: s'_def)
qed

lemma free_block_free:
  assumes "e \<noteq> HAZPTR_POOL_BITMAP_FULL"
  shows "\<exists>ix<32. free_block e 1 0 = (ix, 2 ^ ix) \<and> \<not> bit e ix"
proof -
  from assms obtain n where "n < 32" "\<not> bit e n" by (auto simp: not_full_bit)
  from free_block_finds [OF this, of 0] this show ?thesis by auto
qed

lemma reserve_step_ok:
  assumes "excl s" "clean s" "t < length (places s)" "places s ! t = Reserving e" "reserve_step e (shared s) = (pc, p)"
  shows "excl ((goto t pc s)\<lparr>shared := p\<rparr>) \<and> clean ((goto t pc s)\<lparr>shared := p\<rparr>)"
proof (cases "e = HAZPTR_POOL_BITMAP_FULL")
  case True
  then have "pc = Outside" "p = shared s" using assms(5) by simp_all
  then show ?thesis using keep_step [OF assms(1-3), of pc] assms(4) by simp
next
  case False
  from free_block_free [OF this] obtain ix where ix: "ix < 32" "free_block e 1 0 = (ix, 2 ^ ix)" "\<not> bit e ix" by blast
  show ?thesis
  proof (cases "bitmap (shared s) = e")
    case True
    then have "pc = Owner ix" "p = (shared s)\<lparr>bitmap := bitmap (shared s) OR 2 ^ ix\<rparr>"
      using assms(5) False ix by (simp_all add: atomic_compare_exchange_def HAZPTR_POOL_BLOCKS_def)
    then show ?thesis using gain_step [OF assms(1-3) _ ix(1)] ix(3) True assms(4) by simp
  next
    case ne: False
    then have "pc = Reserving (bitmap (shared s))" "p = shared s"
      using assms(5) False ix by (auto simp: atomic_compare_exchange_def HAZPTR_POOL_BLOCKS_def)
    then show ?thesis using keep_step [OF assms(1-3), of pc] assms(4) by simp
  qed
qed

lemma release_step_ok:
  assumes "excl s" "clean s" "t < length (places s)" "places s ! t = RelCas ix e" "release_step ix e (shared s) = (pc, p)"
  shows "excl ((goto t pc s)\<lparr>shared := p\<rparr>) \<and> clean ((goto t pc s)\<lparr>shared := p\<rparr>)"
proof (cases "bitmap (shared s) = e")
  case True
  then have "pc = Outside" "p = (shared s)\<lparr>bitmap := bitmap (shared s) XOR 2 ^ ix\<rparr>"
    using assms(5) by (auto simp: atomic_compare_exchange_def push_bit_eq_mult)
  then show ?thesis using lose_step [OF assms(1-4)] by simp
next
  case False
  then have "pc = RelLoad ix" "p = shared s" using assms(5) by (auto simp: atomic_compare_exchange_def)
  then show ?thesis using keep_step [OF assms(1-3), of pc] assms(4) by simp
qed

lemma pool_step_ok:
  assumes "pool_step t s s'" "excl s" "clean s"
  shows "excl s' \<and> clean s'"
  using assms(1)
proof cases
  case enter
  then show ?thesis using keep_step [OF assms(2,3) enter(2)] by simp
next
  case (reserve e pc p)
  then show ?thesis using reserve_step_ok [OF assms(2,3) reserve(2-4)] by simp
next
  case (store ix x v)
  then show ?thesis using write_step [OF assms(2,3) store(2) _ store(4), of ix "Owner ix" v] list_update_id [of "places s" t]
    by simp
next
  case (release ix)
  then show ?thesis using keep_step [OF assms(2,3) release(2)] by simp
next
  case (clear ix x)
  show ?thesis unfolding clear(1)
    by (rule write_step [OF assms(2,3) clear(2) _ clear(4)]) (use clear(3) in \<open>auto simp: less_Suc_eq\<close>)
next
  case (check ix x)
  have b: "bit (bitmap (shared s)) ix" using exclD(1) [OF assms(2) check(2), of ix] check(3) by simp
  then have "push_bit ix 1 = bitmap (shared s) AND push_bit ix 1"
    by (intro bit_word_eqI) (auto simp: bit_and_iff bit_push_bit_iff bit_1_iff bit_exp_iff)
  then have "s' = goto t (RelLoad ix) s" using check(1) by simp
  then show ?thesis using keep_step [OF assms(2,3) check(2), of "RelLoad ix"] check(3,4) by simp
next
  case (load ix)
  then show ?thesis using keep_step [OF assms(2,3) load(2)] by simp
next
  case (exchange ix e pc p)
  then show ?thesis using release_step_ok [OF assms(2,3) exchange(2-4)] by simp
next
  case snap
  then show ?thesis using keep_step [OF assms(2,3) snap(2)] by simp
next
  case (copy k vs v)
  then show ?thesis using keep_step [OF assms(2,3) copy(2)] by simp
next
  case (copied k vs)
  then show ?thesis using keep_step [OF assms(2,3) copied(2)] by simp
qed

lemma pool_reach_ok: "pool_reach n b s \<Longrightarrow> excl s \<and> clean s"
proof (induction rule: pool_reach.induct)
  case init
  have "holders (pool_init n b) ix = {}" for ix by (auto simp: holders_def pool_init_def)
  then show ?case
    using pool_ctor_ok(1) [of 0 b]
    by (auto simp: excl_def clean_def pool_init_def pool_ctor_ok pool_ok_def)
next
  case (step s t s')
  then show ?case using pool_step_ok by blast
qed


text \<open>C19: in every interleaving of threads that reserve, use and release blocks of a pool, no two
  threads hold the same block, a bit of the bitmap is set exactly while some thread holds its
  block, the assertion of \<open>release_impl\<close> never fails, and the hazard pointers of the blocks that
  are free are null.\<close>

theorem blocks_exclusive:
  assumes "pool_reach n b s"
  shows "(\<forall>t u ix. t < length (places s) \<longrightarrow> u < length (places s) \<longrightarrow> holds_blk (places s ! t) = Some ix \<longrightarrow>
      holds_blk (places s ! u) = Some ix \<longrightarrow> t = u) \<and>
    (\<forall>ix. bit (bitmap (shared s)) ix \<longleftrightarrow> (\<exists>t < length (places s). holds_blk (places s ! t) = Some ix)) \<and>
    Aborted \<notin> set (places s) \<and> pool_ok (shared s)"
proof -
  from pool_reach_ok [OF assms] have e: "excl s" and c: "clean s" by simp_all
  have "t = u" if "t < length (places s)" "u < length (places s)" "holds_blk (places s ! t) = Some ix"
    "holds_blk (places s ! u) = Some ix" for t u ix
    using exclD(2) [OF e that(1,3)] exclD(2) [OF e that(2,4)] by simp
  moreover have b: "bit (bitmap (shared s)) ix \<longleftrightarrow> (\<exists>t < length (places s). holds_blk (places s ! t) = Some ix)" for ix
  proof
    assume "bit (bitmap (shared s)) ix"
    with e obtain t where "holders s ix = {t}" unfolding excl_def by metis
    then have "t \<in> holders s ix" by simp
    then show "\<exists>t < length (places s). holds_blk (places s ! t) = Some ix" by (auto simp: holders_def)
  qed (use exclD(1) [OF e] in blast)
  moreover have "pool_ok (shared s)"
  proof -
    have "settled s ix x" if "\<not> bit (bitmap (shared s)) ix" for ix x
      using that b by (auto simp: settled_def holders_def)
    then show ?thesis using c by (simp add: clean_def pool_ok_def)
  qed
  ultimately show ?thesis using c by (simp add: clean_def)
qed

definition demo_pool :: pool_sys where
  "demo_pool = \<lparr>shared = (pool_ctor 0 1)\<lparr>bitmap := 1\<rparr>, places = [Owner 0, Outside]\<rparr>"

lemma demo_pool_reach: "pool_reach 2 1 demo_pool"
proof -
  have p: "places (pool_init 2 1) = [Outside, Outside]" by (simp add: pool_init_def numeral_2_eq_2)
  have "pool_step 0 (pool_init 2 1) (goto 0 (Reserving 0) (pool_init 2 1))"
    using pool_step.enter [of 0 "pool_init 2 1"] p by (simp add: pool_init_def pool_ctor_ok)
  note r1 = pool_reach.step [OF pool_reach.init this]
  have fb: "free_block 0 1 0 = (0, 1)" by (subst free_block.simps) simp
  have "reserve_step 0 (pool_ctor 0 1) = (Owner 0, (pool_ctor 0 1)\<lparr>bitmap := 1\<rparr>)"
    using fb by (simp add: atomic_compare_exchange_def pool_ctor_ok HAZPTR_POOL_BITMAP_FULL_def HAZPTR_POOL_BLOCKS_def)
  then have "pool_step 0 (goto 0 (Reserving 0) (pool_init 2 1))
      ((goto 0 (Owner 0) (goto 0 (Reserving 0) (pool_init 2 1)))\<lparr>shared := (pool_ctor 0 1)\<lparr>bitmap := 1\<rparr>\<rparr>)"
    using p by (intro pool_step.reserve) (simp_all add: pool_init_def numeral_2_eq_2 del: reserve_step.simps)
  note r2 = pool_reach.step [OF r1 this]
  have "(goto 0 (Owner 0) (goto 0 (Reserving 0) (pool_init 2 1)))\<lparr>shared := (pool_ctor 0 1)\<lparr>bitmap := 1\<rparr>\<rparr> = demo_pool"
    by (simp add: demo_pool_def pool_init_def numeral_2_eq_2)
  with r2 show ?thesis by simp
qed

lemma blocks_exclusive_witness:
  "holds_blk (places demo_pool ! 0) = Some 0 \<and> holds_blk (places demo_pool ! 1) \<noteq> Some 0 \<and> pool_ok (shared demo_pool)"
proof -
  have l: "length (places demo_pool) = 2" "holds_blk (places demo_pool ! 0) = Some 0" by (simp_all add: demo_pool_def)
  note e = blocks_exclusive [OF demo_pool_reach]
  have "holds_blk (places demo_pool ! 1) \<noteq> Some 0"
    using e [THEN conjunct1, rule_format, of 1 0 0] l by auto
  with e l show ?thesis by blast
qed

section \<open>Copying the hazard pointers while they change\<close>

text \<open>A run of the threads during which a property of the state holds throughout.\<close>

inductive run_with :: "(pool_sys \<Rightarrow> bool) \<Rightarrow> pool_sys \<Rightarrow> pool_sys \<Rightarrow> bool" for P where
  stay: "P s \<Longrightarrow> run_with P s s"
| go: "run_with P s s1 \<Longrightarrow> pool_step t s1 s2 \<Longrightarrow> P s2 \<Longrightarrow> run_with P s s2"

lemma other_place:
  assumes "pool_step u s s'" "u \<noteq> t"
  shows "places s' ! t = places s ! t"
  using assms by (cases rule: pool_step.cases) auto

lemma copy_collects:
  assumes "run_with (\<lambda>s. haz_ptrs (shared s) ! j = v) s s'" "places s ! t = Copying 0 []" "v \<noteq> nullptr"
  shows "places s' ! t = Copying k vs \<longrightarrow> j < k \<longrightarrow> v \<in> set vs"
  using assms
proof (induction arbitrary: k vs rule: run_with.induct)
  case (go s s1 u s2)
  have v: "haz_ptrs (shared s1) ! j = v" using go.hyps(1) by (cases rule: run_with.cases) simp_all
  show ?case
  proof (cases "u = t")
    case False
    then show ?thesis using go other_place [OF go.hyps(2)] by simp
  next
    case True
    from go.hyps(2) show ?thesis
    proof cases
      case (copy k' vs' v')
      with go.IH [of k' vs'] go.prems True v show ?thesis by (auto simp: less_Suc_eq)
    qed (use True go.IH go.prems in \<open>auto split: if_splits prod.splits\<close>)
  qed
qed simp

text \<open>The snapshot that is made of the copied pointers.\<close>

definition snapshot_of :: "uptr list \<Rightarrow> snapshot" where
  "snapshot_of vs = \<lparr>ptrvalues = map (\<lambda>v. v AND mark_bits_maskoff) (sort vs), begin_ix = 0, end_ix = length vs,
     snap_size = length vs\<rparr>"

lemma search_snapshot_of: "snapshot_search (snapshot_of vs) x = Inr (x \<in> (\<lambda>v. v AND mark_bits_maskoff) ` set vs)"
  using binary_search_correct [OF sorted_mask [OF sorted_sort], of vs "[]" x]
  by (simp add: snapshot_search_def snapshot_of_def)

text \<open>The copy of the hazard pointers is not atomic, but it misses nothing that matters: a hazard
  pointer that holds an address from the moment the copying starts until its slot was read is in
  the snapshot, whatever the other threads do meanwhile.\<close>

theorem concurrent_snapshot:
  assumes "run_with (\<lambda>s. haz_ptrs (shared s) ! j = v) s s'" "places s ! t = Copying 0 []" "v \<noteq> nullptr"
    and "places s' ! t = Copying k vs" "j < k"
  shows "snapshot_search (snapshot_of vs) (v AND mark_bits_maskoff) = Inr True"
  using copy_collects [OF assms(1-3)] assms(4,5) by (simp add: search_snapshot_of)

definition demo_scan :: "pool_pc \<Rightarrow> pool_sys" where
  "demo_scan pc = \<lparr>shared = (pool_ctor 0 1)\<lparr>bitmap := 1, haz_ptrs := 17 # replicate 31 nullptr\<rparr>, places = [Owner 0, pc]\<rparr>"

lemma concurrent_snapshot_witness: "snapshot_search (snapshot_of [17]) (17 AND mark_bits_maskoff) = Inr True"
proof -
  let ?P = "\<lambda>s. haz_ptrs (shared s) ! 0 = 17"
  have "pool_step 1 (demo_scan (Copying 0 [])) (goto 1 (Copying (Suc 0) (if nullptr \<noteq> (17::uptr) then [] @ [17] else [])) (demo_scan (Copying 0 [])))"
    by (rule pool_step.copy) (simp_all add: demo_scan_def pool_ctor_ok)
  then have "pool_step 1 (demo_scan (Copying 0 [])) (demo_scan (Copying (Suc 0) [17]))" by (simp add: demo_scan_def)
  moreover have "?P (demo_scan pc)" for pc by (simp add: demo_scan_def)
  ultimately have r: "run_with ?P (demo_scan (Copying 0 [])) (demo_scan (Copying (Suc 0) [17]))"
    using run_with.stay [of ?P] run_with.go [of ?P] by blast
  show ?thesis by (rule concurrent_snapshot [OF r, of 1 "Suc 0"]) (simp_all add: demo_scan_def)
qed

end
