(* ===== verification/DelConc.thy ===== *)
theory DelConc
  imports LockFree
begin

text \<open>
  The delete list of a hazard pointer domain under concurrency. Any number of threads enqueue
  delete nodes (\<open>enqueue_for_delete\<close>, \<open>push_delete_node\<close>) and run \<open>collect\<close>, and their atomic
  steps interleave in every possible way. A thread that runs \<open>collect\<close> takes the whole list with
  one exchange, deletes some of its nodes and pushes the others back. The theory shows that a node
  is at every moment in one place only, so that none is lost and none handled twice.
\<close>

section \<open>The steps\<close>

text \<open>
  A thread has the nodes it created or took off the list, and may be inside of
  \<open>push_delete_node\<close>: in the loop with a node, or after it, before the counter is incremented. The
  counter is set back by \<open>collect_if_required\<close>.
\<close>

record del_thread =
  mine :: "uptr list"
  pushing :: "(uptr \<times> push_pc) option"
  counting :: bool

text \<open>The shared state, with the history of the nodes created and deleted.\<close>

record del_sys =
  dmem :: "uptr pmem"
  dcount :: int
  dthreads :: "del_thread list"
  made :: "uptr list"
  gone :: "uptr list"

definition push_node_step :: "uptr \<Rightarrow> push_pc \<Rightarrow> uptr pmem \<Rightarrow> push_pc option \<times> uptr pmem" where
  "push_node_step = push_step (\<lambda>w. w) (\<lambda>w p. p) atomic_compare_exchange"

abbreviation set_thread :: "nat \<Rightarrow> del_thread \<Rightarrow> del_sys \<Rightarrow> del_sys" where
  "set_thread t th s \<equiv> s\<lparr>dthreads := (dthreads s)[t := th]\<rparr>"

inductive del_step :: "nat \<Rightarrow> del_sys \<Rightarrow> del_sys \<Rightarrow> bool" for t where
  create: "t < length (dthreads s) \<Longrightarrow> dthreads s ! t = th \<Longrightarrow> pushing th = None \<Longrightarrow> \<not> counting th \<Longrightarrow>
    x \<noteq> nullptr \<Longrightarrow> x \<notin># mset (made s) - mset (gone s) \<Longrightarrow>
    del_step t s ((set_thread t (th\<lparr>mine := x # mine th\<rparr>) s)\<lparr>made := x # made s\<rparr>)"
| start: "t < length (dthreads s) \<Longrightarrow> dthreads s ! t = th \<Longrightarrow> pushing th = None \<Longrightarrow> \<not> counting th \<Longrightarrow>
    x \<in> set (mine th) \<Longrightarrow>
    del_step t s (set_thread t (th\<lparr>mine := remove1 x (mine th), pushing := Some (x, PLoad)\<rparr>) s)"
| loop: "t < length (dthreads s) \<Longrightarrow> dthreads s ! t = th \<Longrightarrow> pushing th = Some (x, pc) \<Longrightarrow>
    push_node_step x pc (dmem s) = (Some pc', m') \<Longrightarrow>
    del_step t s ((set_thread t (th\<lparr>pushing := Some (x, pc')\<rparr>) s)\<lparr>dmem := m'\<rparr>)"
| leave: "t < length (dthreads s) \<Longrightarrow> dthreads s ! t = th \<Longrightarrow> pushing th = Some (x, pc) \<Longrightarrow>
    push_node_step x pc (dmem s) = (None, m') \<Longrightarrow>
    del_step t s ((set_thread t (th\<lparr>pushing := None, counting := True\<rparr>) s)\<lparr>dmem := m'\<rparr>)"
| incr: "t < length (dthreads s) \<Longrightarrow> dthreads s ! t = th \<Longrightarrow> counting th \<Longrightarrow>
    del_step t s ((set_thread t (th\<lparr>counting := False\<rparr>) s)\<lparr>dcount := dcount s + 1\<rparr>)"
| exchange: "t < length (dthreads s) \<Longrightarrow> dthreads s ! t = th \<Longrightarrow> pushing th = None \<Longrightarrow> \<not> counting th \<Longrightarrow>
    chain (\<lambda>w. w) (link (dmem s)) (top (dmem s)) xs \<Longrightarrow>
    del_step t s ((set_thread t (th\<lparr>mine := xs @ mine th\<rparr>) s)\<lparr>dmem := (dmem s)\<lparr>top := nullptr\<rparr>\<rparr>)"
| delete: "t < length (dthreads s) \<Longrightarrow> dthreads s ! t = th \<Longrightarrow> pushing th = None \<Longrightarrow> \<not> counting th \<Longrightarrow>
    x \<in> set (mine th) \<Longrightarrow>
    del_step t s ((set_thread t (th\<lparr>mine := remove1 x (mine th)\<rparr>) s)\<lparr>gone := x # gone s\<rparr>)"
| reset: "del_step t s (s\<lparr>dcount := 0\<rparr>)"

definition del_init :: "nat \<Rightarrow> del_sys" where
  "del_init n = \<lparr>dmem = \<lparr>top = nullptr, link = (\<lambda>_. nullptr)\<rparr>, dcount = 0,
     dthreads = replicate n \<lparr>mine = [], pushing = None, counting = False\<rparr>, made = [], gone = []\<rparr>"

inductive del_reach :: "nat \<Rightarrow> del_sys \<Rightarrow> bool" for n where
  init: "del_reach n (del_init n)"
| step: "del_reach n s \<Longrightarrow> del_step t s s' \<Longrightarrow> del_reach n s'"

section \<open>Where the nodes are\<close>

definition held :: "del_thread \<Rightarrow> uptr multiset" where
  "held th = mset (mine th) + (case pushing th of None \<Rightarrow> {#} | Some (x, _) \<Rightarrow> {#x#})"

definition all_held :: "del_sys \<Rightarrow> uptr multiset" where
  "all_held s = sum_list (map held (dthreads s))"

definition del_ok :: "del_sys \<Rightarrow> uptr list \<Rightarrow> bool" where
  "del_ok s xs \<longleftrightarrow> chain (\<lambda>w. w) (link (dmem s)) (top (dmem s)) xs \<and>
     mset (made s) = mset xs + all_held s + mset (gone s) \<and>
     (\<forall>x. count (mset xs + all_held s) x \<le> 1) \<and> nullptr \<notin># mset xs + all_held s"

lemma held_update:
  assumes "t < length (dthreads s)" "dthreads s ! t = th"
  shows "sum_list (map held ((dthreads s)[t := th'])) + held th = all_held s + held th'"
  using sum_list_set [OF assms(1), of held th'] assms(2) by (simp add: all_held_def)

lemma held_update_same:
  assumes "t < length (dthreads s)" "dthreads s ! t = th" "held th' = held th"
  shows "sum_list (map held ((dthreads s)[t := th'])) = all_held s"
  using held_update [OF assms(1,2), of th'] assms(3) by simp

lemma held_update_plus:
  assumes "t < length (dthreads s)" "dthreads s ! t = th" "held th' = M + held th"
  shows "sum_list (map held ((dthreads s)[t := th'])) = all_held s + M"
  using held_update [OF assms(1,2), of th'] assms(3) by (simp add: ac_simps)

lemma held_update_minus:
  assumes "t < length (dthreads s)" "dthreads s ! t = th" "held th = M + held th'"
  shows "all_held s = sum_list (map held ((dthreads s)[t := th'])) + M"
  using held_update [OF assms(1,2), of th'] assms(3) by (simp add: ac_simps)

lemma held_in: "t < length (dthreads s) \<Longrightarrow> dthreads s ! t = th \<Longrightarrow> x \<in># held th \<Longrightarrow> x \<in># all_held s"
  using held_update_minus [of t s th "held th" "th\<lparr>mine := [], pushing := None\<rparr>"] by (simp add: held_def)

lemma two_places: "x \<in># A \<Longrightarrow> x \<in># B \<Longrightarrow> 2 \<le> count (A + B) x"
proof -
  assume "x \<in># A" "x \<in># B"
  then obtain A' B' where "A = add_mset x A'" "B = add_mset x B'" by (metis mset_add)
  then show ?thesis by simp
qed

lemma held_apart:
  assumes "t < length (dthreads s)" "u < length (dthreads s)" "u \<noteq> t"
  shows "held (dthreads s ! t) + held (dthreads s ! u) \<subseteq># all_held s"
proof -
  let ?none = "\<lparr>mine = [], pushing = None, counting = False\<rparr>"
  have n: "held ?none = {#}" by (simp add: held_def)
  let ?s = "set_thread t ?none s"
  have "all_held s = all_held ?s + held (dthreads s ! t)"
    using held_update_minus [OF assms(1) refl, of _ ?none] n by (simp add: all_held_def)
  moreover have "held (dthreads s ! u) \<subseteq># all_held ?s"
    using held_update_minus [of u ?s "dthreads s ! u" _ ?none] n assms by (simp add: all_held_def)
  ultimately show ?thesis by (simp add: add.commute)
qed

lemma distinct_count_le: "distinct xs \<longleftrightarrow> (\<forall>x. count (mset xs) x \<le> 1)"
proof -
  have "count (mset xs) x \<le> 1 \<longleftrightarrow> count (mset xs) x = (if x \<in> set xs then 1 else 0)" for x
    using count_greater_zero_iff [of "mset xs" x] by (cases "x \<in> set xs") (auto simp: le_Suc_eq not_in_iff)
  then show ?thesis by (simp add: distinct_count_atmost_1)
qed

lemma mset_remove1_add: "x \<in> set xs \<Longrightarrow> mset xs = {#x#} + mset (remove1 x xs)"
  by simp


section \<open>Every interleaving keeps the nodes apart\<close>

lemma del_okD:
  assumes "del_ok s xs"
  shows "chain (\<lambda>w. w) (link (dmem s)) (top (dmem s)) xs" "mset (made s) = mset xs + all_held s + mset (gone s)"
    "count (mset xs + all_held s) x \<le> 1" "x \<in># all_held s \<Longrightarrow> x \<noteq> nullptr" "x \<in># all_held s \<Longrightarrow> x \<notin> set xs"
proof -
  show "chain (\<lambda>w. w) (link (dmem s)) (top (dmem s)) xs" "mset (made s) = mset xs + all_held s + mset (gone s)"
    and c: "count (mset xs + all_held s) x \<le> 1" and "x \<in># all_held s \<Longrightarrow> x \<noteq> nullptr"
    using assms by (auto simp: del_ok_def)
  show "x \<notin> set xs" if "x \<in># all_held s"
  proof
    assume "x \<in> set xs"
    with that c show False using two_places [of x "mset xs" "all_held s"] by simp
  qed
qed

lemma pushing_held: "pushing th = Some (x, pc) \<Longrightarrow> held th = {#x#} + held (th\<lparr>pushing := None, counting := c\<rparr>)"
  by (simp add: held_def)

lemma push_frame:
  assumes ok: "del_ok s xs" and t: "t < length (dthreads s)" "dthreads s ! t = th" and p: "pushing th = Some (x, pc)"
    and st: "push_node_step x pc (dmem s) = (r, m')"
  shows "r = Some pc' \<Longrightarrow> chain (\<lambda>w. w) (link m') (top m') xs" "r = None \<Longrightarrow> chain (\<lambda>w. w) (link m') (top m') (x # xs)"
proof -
  have "x \<in># held th" using p by (simp add: held_def)
  with held_in [OF t] del_okD(4,5) [OF ok] have x: "x \<notin> set xs" "x \<noteq> nullptr" by auto
  have "raw.pc_ok pc" "raw.mem_ok (dmem s)" by (cases pc) (simp_all add: raw.pc_ok_def raw.mem_ok_def)
  note raw.push_step_ok(3,4) [OF this(2) del_okD(1) [OF ok] x TrueI this(1) st [unfolded push_node_step_def]]
  then show "r = Some pc' \<Longrightarrow> chain (\<lambda>w. w) (link m') (top m') xs"
    "r = None \<Longrightarrow> chain (\<lambda>w. w) (link m') (top m') (x # xs)" by auto
qed

lemma del_step_ok:
  assumes "del_step t s s'" "del_ok s xs"
  shows "\<exists>xs'. del_ok s' xs'"
  using assms(1)
proof cases
  case (create th x)
  have e: "all_held s' = all_held s + {#x#}"
    using held_update_plus [OF create(2,3), of "th\<lparr>mine := x # mine th\<rparr>" "{#x#}"] create(1)
    by (simp add: held_def all_held_def)
  have x: "x \<notin># mset xs + all_held s" using create(7) del_okD(2) [OF assms(2)] by simp
  then have "count (mset xs + all_held s + {#x#}) y \<le> 1" for y
    using del_okD(3) [OF assms(2), of y] by (auto simp: not_in_iff)
  then show ?thesis using create assms(2) e x
    by (intro exI [of _ xs]) (auto simp: del_ok_def)
next
  case (start th x)
  have "held (th\<lparr>mine := remove1 x (mine th), pushing := Some (x, PLoad)\<rparr>) = held th"
    using start(4,6) mset_remove1_add [of x "mine th"] by (simp add: held_def)
  from held_update_same [OF start(2,3) this] show ?thesis
    using start assms(2) by (intro exI [of _ xs]) (simp add: del_ok_def all_held_def)
next
  case (loop th x pc pc' m')
  have "held (th\<lparr>pushing := Some (x, pc')\<rparr>) = held th" using loop(4) by (simp add: held_def)
  from held_update_same [OF loop(2,3) this] show ?thesis
    using loop assms(2) push_frame(1) [OF assms(2) loop(2-5)]
    by (intro exI [of _ xs]) (simp add: del_ok_def all_held_def)
next
  case (leave th x pc m')
  have e: "all_held s = all_held s' + {#x#}"
    using held_update_minus [OF leave(2,3) pushing_held [OF leave(4), of True]] leave(1) by (simp add: all_held_def)
  show ?thesis
    using leave(1) assms(2) push_frame(2) [OF assms(2) leave(2-5)]
    by (intro exI [of _ "x # xs"]) (simp add: del_ok_def e)
next
  case (incr th)
  have "held (th\<lparr>counting := False\<rparr>) = held th" by (simp add: held_def)
  from held_update_same [OF incr(2,3) this] show ?thesis
    using incr assms(2) by (intro exI [of _ xs]) (simp add: del_ok_def all_held_def)
next
  case (exchange th ys)
  have ys: "ys = xs" using chain_unique [OF exchange(6) del_okD(1) [OF assms(2)]] .
  have "all_held s' = all_held s + mset xs"
    using held_update_plus [OF exchange(2,3), of "th\<lparr>mine := xs @ mine th\<rparr>" "mset xs"] exchange(1) ys
    by (simp add: held_def all_held_def)
  then show ?thesis using exchange(1) assms(2)
    by (intro exI [of _ "[]"]) (simp add: del_ok_def ac_simps)
next
  case (delete th x)
  have "held th = {#x#} + held (th\<lparr>mine := remove1 x (mine th)\<rparr>)"
    using delete(4,6) mset_remove1_add [of x "mine th"] by (simp add: held_def)
  from held_update_minus [OF delete(2,3) this] have e: "all_held s = all_held s' + {#x#}"
    using delete(1) by (simp add: all_held_def)
  have "count (mset xs + all_held s') y \<le> count (mset xs + all_held s) y" for y by (simp add: e)
  then have "count (mset xs + all_held s') y \<le> 1" for y using del_okD(3) [OF assms(2)] le_trans by blast
  then show ?thesis using delete(1) assms(2)
    by (intro exI [of _ xs]) (auto simp: del_ok_def e)
next
  case reset
  then show ?thesis using assms(2) by (intro exI [of _ xs]) (simp add: del_ok_def all_held_def)
qed

lemma del_reach_ok: "del_reach n s \<Longrightarrow> \<exists>xs. del_ok s xs"
proof (induction rule: del_reach.induct)
  case init
  have "sum_list (map held (replicate n \<lparr>mine = [], pushing = None, counting = False\<rparr>)) = {#}"
    by (induction n) (simp_all add: held_def)
  then show ?case by (intro exI [of _ "[]"]) (simp add: del_ok_def del_init_def all_held_def)
next
  case (step s t s')
  then show ?case using del_step_ok by blast
qed


text \<open>C18: in every interleaving of any number of threads that enqueue delete nodes and run \<open>collect\<close>,
  each node that was created is in exactly one place: on the shared list, in the hands of one
  thread, or deleted. So no node is lost by a push that races with another push or with the
  exchange, and none is handled by two collections.\<close>

theorem delete_nodes_conserved:
  assumes "del_reach n s"
  shows "\<exists>xs. chain (\<lambda>w. w) (link (dmem s)) (top (dmem s)) xs \<and>
    mset (made s) = mset xs + sum_list (map held (dthreads s)) + mset (gone s) \<and> distinct xs \<and>
    (\<forall>t < length (dthreads s). \<forall>x \<in># held (dthreads s ! t). x \<notin> set xs \<and>
      (\<forall>u < length (dthreads s). u \<noteq> t \<longrightarrow> x \<notin># held (dthreads s ! u)))"
proof -
  from del_reach_ok [OF assms] obtain xs where ok: "del_ok s xs" ..
  have "count (mset xs) x \<le> 1" for x using del_okD(3) [OF ok, of x] by simp
  then have "distinct xs" by (simp add: distinct_count_le)
  moreover have "x \<notin> set xs" if "t < length (dthreads s)" "x \<in># held (dthreads s ! t)" for t x
    using held_in [OF that(1) refl that(2)] del_okD(5) [OF ok] by blast
  moreover have "x \<notin># held (dthreads s ! u)"
    if "t < length (dthreads s)" "x \<in># held (dthreads s ! t)" "u < length (dthreads s)" "u \<noteq> t" for t u x
  proof
    assume "x \<in># held (dthreads s ! u)"
    from two_places [OF that(2) this] mset_subset_eq_count [OF held_apart [OF that(1,3,4)], of x]
    show False using del_okD(3) [OF ok, of x] by simp
  qed
  ultimately show ?thesis using del_okD(1,2) [OF ok] unfolding all_held_def by (intro exI [of _ xs]) simp
qed

lemma delete_nodes_conserved_witness:
  "\<exists>s. del_reach 1 s \<and> made s = [16] \<and> (\<exists>xs. mset (made s) = mset xs + sum_list (map held (dthreads s)) + mset (gone s))"
proof -
  let ?th = "\<lparr>mine = [], pushing = None, counting = False\<rparr>"
  let ?s = "(set_thread 0 (?th\<lparr>mine := 16 # mine ?th\<rparr>) (del_init 1))\<lparr>made := 16 # made (del_init 1)\<rparr>"
  have "del_step 0 (del_init 1) ?s"
    by (rule del_step.create) (simp_all add: del_init_def)
  then have r: "del_reach 1 ?s" by (rule del_reach.step [OF del_reach.init])
  from delete_nodes_conserved [OF r] have "\<exists>xs. mset (made ?s) = mset xs + sum_list (map held (dthreads ?s)) + mset (gone ?s)"
    by blast
  with r show ?thesis by (intro exI [of _ ?s]) (simp add: del_init_def)
qed

end
