(* ===== verification/HazConc.thy ===== *)
theory HazConc
  imports PoolConc DelConc
begin

text \<open>
  The hazard pointer library as its clients run it: any number of threads create contexts, store
  hazard pointers, delete objects, collect and destroy their contexts, and all atomic accesses to
  the shared memory interleave in every possible way. The domain has one pool of hazard pointers
  and one delete list. The places of \<open>reserve_impl\<close>, \<open>release_impl\<close> and the copying of the hazard
  pointers are those of \<open>PoolConc\<close>, those of \<open>push_delete_node\<close> are those of \<open>LockFree\<close>, and the
  theory shows that every run of the library is a run of \<open>PoolConc\<close> and one of \<open>DelConc\<close>.
\<close>

section \<open>The state\<close>

text \<open>
  What follows a \<open>collect\<close>: the operation of a context returns, the destructor of the context goes
  on with its own call of \<open>collect\<close>, or a thread without context returns. What follows a
  \<open>push_delete_node\<close>: the enqueueing of one object or of the next entry of an array (for \<open>reclaim\<close>
  or for the destructor), or of the next node that \<open>collect\<close> puts back.
\<close>

datatype after_collect = ToIdle | ToCollect | ToEnd

datatype after_enq = Enqueued | Flushing nat bool | PutBack "uptr list" after_collect

text \<open>
  Where a thread is. Without a context; in its constructor, reserving a block and then
  constructing the hazard pointers; with a context and outside of its operations; in \<open>store\<close>, with
  the value read; in \<open>reclaim\<close>, copying the hazard pointers and then checking its array; about to
  create the delete node of an object; enqueueing its array; in \<open>push_delete_node\<close>, before and
  after the list is changed; in \<open>collect_if_required\<close>, at its three accesses to the counter; in
  \<open>collect\<close>, before the exchange, copying the hazard pointers, checking the nodes, putting nodes
  back; in the destructor, destroying the hazard pointers and releasing the block.
\<close>

datatype haz_act =
    NoContext
  | Ctor
  | Init nat
  | Idle
  | Storing nat uptr
  | RSnap nat "uptr list"
  | RCheck "uptr list" nat
  | Enq uptr
  | Flush nat bool
  | Pushing uptr push_pc after_enq
  | Counting after_enq
  | KTest bool after_collect
  | KRead after_collect
  | KCas int after_collect
  | CExch after_collect
  | CSnap "uptr list" nat "uptr list" after_collect
  | CCheck "uptr list" "uptr list" "uptr list" after_collect
  | CBack "uptr list" after_collect
  | Dropping nat
  | Releasing

record haz_thread =
  act :: haz_act
  blk :: pool_pc
  dels :: "uptr list"
  dix :: nat

text \<open>
  The shared memory: the pool, the delete list with its counter and the payloads of its nodes, a
  location \<open>src\<close> of the client, and the history: the delete nodes created and deleted, the objects
  handed to \<open>delete_item\<close> and the objects reclaimed.
\<close>

record haz_mem =
  hpool :: pool
  dlist :: "uptr pmem"
  dcnt :: int
  pay :: "uptr \<Rightarrow> uptr"
  src :: uptr
  nodes_new :: "uptr list"
  nodes_del :: "uptr list"
  retired :: "uptr list"
  freed :: "uptr list"

record haz_sys =
  hmem :: haz_mem
  hthreads :: "haz_thread list"

section \<open>The steps\<close>

definition put_slot :: "nat \<Rightarrow> nat \<Rightarrow> uptr \<Rightarrow> haz_mem \<Rightarrow> haz_mem res" where
  "put_slot ix i v m =
     bind_r (arr_set (haz_ptrs (hpool m)) (ix * blk_size (hpool m) + i) v) (\<lambda>hs.
       Inr (m\<lparr>hpool := (hpool m)\<lparr>haz_ptrs := hs\<rparr>\<rparr>))"

text \<open>A store to the hazard pointer \<open>i\<close> of the thread's block; the thread is then at \<open>a\<close>.\<close>

definition store_own :: "nat \<Rightarrow> uptr \<Rightarrow> haz_act \<Rightarrow> haz_thread \<Rightarrow> haz_mem \<Rightarrow> (haz_thread \<times> haz_mem) res" where
  "store_own i v a th m =
     (case blk th of
        Owner ix \<Rightarrow> bind_r (put_slot ix i v m) (\<lambda>m. Inr (th\<lparr>act := a\<rparr>, m))
      | _ \<Rightarrow> Inl BadAccess)"

text \<open>
  The constructor of a context: the loop of \<open>reserve_impl\<close>, then the constructors of the hazard
  pointers. When the pool is full the reservation ends without a block; how the domain goes on then is
  in \<open>HazDomain\<close> and \<open>NewPool\<close>.
\<close>

fun ctor_step :: "haz_thread \<Rightarrow> haz_mem \<Rightarrow> (haz_thread \<times> haz_mem) res" where
  "ctor_step th m =
     (case blk th of
        Reserving e \<Rightarrow>
          (case reserve_step e (hpool m) of (pc, p) \<Rightarrow>
             Inr (th\<lparr>blk := pc, act := (case pc of Outside \<Rightarrow> NoContext | Owner ix \<Rightarrow> Init 0 | _ \<Rightarrow> Ctor)\<rparr>, m\<lparr>hpool := p\<rparr>))
      | _ \<Rightarrow> Inl BadAccess)"

fun init_hp_step :: "nat \<Rightarrow> nat \<Rightarrow> haz_thread \<Rightarrow> haz_mem \<Rightarrow> (haz_thread \<times> haz_mem) res" where
  "init_hp_step R i th m =
     (if i < blk_size (hpool m) then store_own i nullptr (Init (Suc i)) th m
      else Inr (th\<lparr>act := Idle, dels := replicate R nullptr, dix := 0\<rparr>, m))"

text \<open>\<open>reclaim\<close>: an entry of the array is checked; at its end it is enqueued or compacted.\<close>

fun check_step :: "nat \<Rightarrow> uptr list \<Rightarrow> nat \<Rightarrow> haz_thread \<Rightarrow> haz_mem \<Rightarrow> (haz_thread \<times> haz_mem) res" where
  "check_step R vs i th m =
     (if i < R
      then bind_r (arr_get (dels th) i) (\<lambda>x.
        bind_r (snapshot_search (snapshot_of vs) x) (\<lambda>found.
          if \<not> found
          then if x = nullptr then Inl NullDeref
            else bind_r (arr_set (dels th) i nullptr) (\<lambda>del.
              Inr (th\<lparr>act := RCheck vs (Suc i), dels := del, dix := dec_size (dix th)\<rparr>, m\<lparr>freed := x # freed m\<rparr>))
          else Inr (th\<lparr>act := RCheck vs (Suc i)\<rparr>, m)))
      else if dix th = R then Inr (th\<lparr>act := Flush 0 False\<rparr>, m)
      else bind_r (compact (R + 2) (dels th) 0 (dec_size R)) (\<lambda>del. Inr (th\<lparr>act := Idle, dels := del\<rparr>, m)))"

text \<open>
  The enqueueing of an array passes over the null entries; for another entry the thread needs the
  address of a new delete node. At the end \<open>reclaim\<close> sets its index back, and
  \<open>collect_if_required\<close> follows.
\<close>

fun flush_step :: "nat \<Rightarrow> nat \<Rightarrow> bool \<Rightarrow> haz_thread \<Rightarrow> haz_mem \<Rightarrow> (haz_thread \<times> haz_mem) res" where
  "flush_step R i dtor th m =
     (if i < R
      then bind_r (arr_get (dels th) i) (\<lambda>x. Inr (if nullptr \<noteq> x then th else th\<lparr>act := Flush (Suc i) dtor\<rparr>, m))
      else if dtor then Inr (th\<lparr>act := KTest False ToCollect\<rparr>, m)
      else Inr (th\<lparr>act := KTest False ToIdle, dix := 0\<rparr>, m))"

fun resume :: "after_collect \<Rightarrow> haz_act" where
  "resume ToIdle = Idle"
| "resume ToCollect = CExch ToEnd"
| "resume ToEnd = NoContext"

fun after_push :: "after_enq \<Rightarrow> haz_act" where
  "after_push Enqueued = KTest False ToIdle"
| "after_push (Flushing i dtor) = Flush i dtor"
| "after_push (PutBack xs a) = CBack xs a"

fun push_act :: "uptr \<Rightarrow> push_pc \<Rightarrow> after_enq \<Rightarrow> haz_thread \<Rightarrow> haz_mem \<Rightarrow> haz_thread \<times> haz_mem" where
  "push_act x pc nx th m =
     (case push_node_step x pc (dlist m) of
        (Some pc', l) \<Rightarrow> (th\<lparr>act := Pushing x pc' nx\<rparr>, m\<lparr>dlist := l\<rparr>)
      | (None, l) \<Rightarrow> (th\<lparr>act := Counting nx\<rparr>, m\<lparr>dlist := l\<rparr>))"

text \<open>\<open>collect\<close>: the check of a node; the nodes seen so far that stay are in \<open>kept\<close>.\<close>

fun collect_step :: "uptr list \<Rightarrow> uptr list \<Rightarrow> uptr list \<Rightarrow> after_collect \<Rightarrow> haz_thread \<Rightarrow> haz_mem \<Rightarrow> (haz_thread \<times> haz_mem) res" where
  "collect_step vs kept [] a th m = Inr (th\<lparr>act := CBack kept a\<rparr>, m)"
| "collect_step vs kept (x # xs) a th m =
     bind_r (snapshot_search (snapshot_of vs) (pay m x)) (\<lambda>found.
       if \<not> found
       then if pay m x = nullptr then Inl NullDeref
         else Inr (th\<lparr>act := CCheck vs kept xs a\<rparr>, m\<lparr>freed := pay m x # freed m, nodes_del := x # nodes_del m\<rparr>)
       else Inr (th\<lparr>act := CCheck vs (kept @ [x]) xs a\<rparr>, m))"

fun release_act :: "haz_thread \<Rightarrow> haz_mem \<Rightarrow> (haz_thread \<times> haz_mem) res" where
  "release_act th m =
     (case blk th of
        Clearing ix x \<Rightarrow>
          (if x < blk_size (hpool m) then bind_r (put_slot ix x nullptr m) (\<lambda>m. Inr (th\<lparr>blk := Clearing ix (Suc x)\<rparr>, m))
           else if push_bit ix 1 = bitmap (hpool m) AND push_bit ix 1 then Inr (th\<lparr>blk := RelLoad ix\<rparr>, m)
           else Inl AssertFail)
      | RelLoad ix \<Rightarrow> Inr (th\<lparr>blk := RelCas ix (bitmap (hpool m))\<rparr>, m)
      | RelCas ix e \<Rightarrow>
          (case release_step ix e (hpool m) of (pc, p) \<Rightarrow>
             Inr (th\<lparr>blk := pc, act := (if pc = Outside then Flush 0 True else Releasing)\<rparr>, m\<lparr>hpool := p\<rparr>))
      | _ \<Rightarrow> Inl BadAccess)"

fun drop_step :: "nat \<Rightarrow> haz_thread \<Rightarrow> haz_mem \<Rightarrow> (haz_thread \<times> haz_mem) res" where
  "drop_step i th m =
     (if i < blk_size (hpool m) then store_own i nullptr (Dropping (Suc i)) th m
      else case blk th of Owner ix \<Rightarrow> Inr (th\<lparr>blk := Clearing ix 0, act := Releasing\<rparr>, m) | _ \<Rightarrow> Inl BadAccess)"

text \<open>The next atomic step of a thread that is inside of an operation.\<close>

fun run_step :: "nat \<Rightarrow> haz_act \<Rightarrow> haz_thread \<Rightarrow> haz_mem \<Rightarrow> (haz_thread \<times> haz_mem) res" where
  "run_step R NoContext th m = Inr (th, m)"
| "run_step R Ctor th m = ctor_step th m"
| "run_step R (Init i) th m = init_hp_step R i th m"
| "run_step R Idle th m = Inr (th, m)"
| "run_step R (Storing i v) th m = store_own i v Idle th m"
| "run_step R (RSnap k vs) th m =
     Inr (if k < pool_count (hpool m)
          then let v = haz_ptrs (hpool m) ! k in th\<lparr>act := RSnap (Suc k) (if nullptr \<noteq> v then vs @ [v] else vs)\<rparr>
          else th\<lparr>act := RCheck vs 0\<rparr>, m)"
| "run_step R (RCheck vs i) th m = check_step R vs i th m"
| "run_step R (Enq p) th m = Inr (th, m)"
| "run_step R (Flush i dtor) th m = flush_step R i dtor th m"
| "run_step R (Pushing x pc nx) th m = Inr (push_act x pc nx th m)"
| "run_step R (Counting nx) th m = Inr (th\<lparr>act := after_push nx\<rparr>, m\<lparr>dcnt := dcnt m + 1\<rparr>)"
| "run_step R (KTest do_collect a) th m =
     Inr (th\<lparr>act := (if dcnt m > int (pool_count (hpool m)) then KRead a
                    else if do_collect then CExch a else resume a)\<rparr>, m)"
| "run_step R (KRead a) th m = Inr (th\<lparr>act := KCas (dcnt m) a\<rparr>, m)"
| "run_step R (KCas dc a) th m =
     (case atomic_compare_exchange (dcnt m) dc 0 of (ok, n, _) \<Rightarrow> Inr (th\<lparr>act := KTest ok a\<rparr>, m\<lparr>dcnt := n\<rparr>))"
| "run_step R (CExch a) th m = Inr (th, m)"
| "run_step R (CSnap xs k vs a) th m =
     Inr (if k < pool_count (hpool m)
          then let v = haz_ptrs (hpool m) ! k in th\<lparr>act := CSnap xs (Suc k) (if nullptr \<noteq> v then vs @ [v] else vs) a\<rparr>
          else th\<lparr>act := CCheck vs [] xs a\<rparr>, m)"
| "run_step R (CCheck vs kept todo a) th m = collect_step vs kept todo a th m"
| "run_step R (CBack [] a) th m = Inr (th\<lparr>act := resume a\<rparr>, m)"
| "run_step R (CBack (x # xs) a) th m = Inr (th\<lparr>act := Pushing x PLoad (PutBack xs a)\<rparr>, m)"
| "run_step R (Dropping i) th m = drop_step i th m"
| "run_step R Releasing th m = release_act th m"

text \<open>
  The steps of a thread: what its client calls when it is outside of the operations (a new context,
  the two forms of \<open>store\<close>, a write to \<open>src\<close>, \<open>delete_item\<close>, the destructor, \<open>collect\<close>), the next
  step of the operation it is in, \<open>new hazp_delete_node\<close> when it returns the address \<open>x\<close>, and the
  exchange of the delete list when the list is \<open>xs\<close>. An operation that cannot be called or run at
  this place leaves the state as it is.
\<close>

datatype haz_op =
    NewContext
  | StoreHp nat uptr
  | StoreFrom nat
  | WriteSrc uptr
  | DeleteItem uptr
  | DropContext
  | Collect
  | Run
  | NewNode uptr
  | TakeList "uptr list"

fun delete_item_step :: "nat \<Rightarrow> uptr \<Rightarrow> haz_thread \<Rightarrow> haz_mem \<Rightarrow> (haz_thread \<times> haz_mem) res" where
  "delete_item_step R item_ptr th m =
     (let m = m\<lparr>retired := item_ptr # retired m\<rparr> in
      if R > 0
      then if \<not> dix th \<le> R then Inl AssertFail
        else bind_r (arr_set (dels th) (dix th) item_ptr) (\<lambda>del.
          Inr (th\<lparr>dels := del, dix := dix th + 1, act := (if dix th + 1 = R then RSnap 0 [] else Idle)\<rparr>, m))
      else Inr (th\<lparr>act := Enq item_ptr\<rparr>, m))"

definition add_node :: "uptr \<Rightarrow> uptr \<Rightarrow> haz_mem \<Rightarrow> haz_mem" where
  "add_node x p m = m\<lparr>pay := (pay m)(x := p), nodes_new := x # nodes_new m\<rparr>"

text \<open>A new delete node; the entry of an array is set to null with it.\<close>

fun node_step :: "nat \<Rightarrow> uptr \<Rightarrow> haz_thread \<Rightarrow> haz_mem \<Rightarrow> (haz_thread \<times> haz_mem) res" where
  "node_step R x th m =
     (case act th of
        Enq p \<Rightarrow> Inr (th\<lparr>act := Pushing x PLoad Enqueued\<rparr>, add_node x p m)
      | Flush i dtor \<Rightarrow>
          (if i < R
           then bind_r (arr_get (dels th) i) (\<lambda>p.
             if nullptr \<noteq> p
             then bind_r (arr_set (dels th) i nullptr) (\<lambda>del.
               Inr (th\<lparr>act := Pushing x PLoad (Flushing (Suc i) dtor), dels := del\<rparr>, add_node x p m))
             else Inr (th, m))
           else Inr (th, m))
      | _ \<Rightarrow> Inr (th, m))"

fun op_step :: "nat \<Rightarrow> haz_op \<Rightarrow> haz_thread \<Rightarrow> haz_mem \<Rightarrow> (haz_thread \<times> haz_mem) res" where
  "op_step R NewContext th m =
     Inr (if act th = NoContext then th\<lparr>act := Ctor, blk := Reserving (bitmap (hpool m))\<rparr> else th, m)"
| "op_step R (StoreHp i v) th m =
     (if act th = Idle then if \<not> i < blk_size (hpool m) then Inl AssertFail else store_own i v Idle th m
      else Inr (th, m))"
| "op_step R (StoreFrom i) th m =
     (if act th = Idle
      then if \<not> i < blk_size (hpool m) then Inl AssertFail else Inr (th\<lparr>act := Storing i (src m)\<rparr>, m)
      else Inr (th, m))"
| "op_step R (WriteSrc v) th m = Inr (th, if act th \<in> {NoContext, Idle} then m\<lparr>src := v\<rparr> else m)"
| "op_step R (DeleteItem p) th m = (if act th = Idle then delete_item_step R p th m else Inr (th, m))"
| "op_step R DropContext th m = Inr (if act th = Idle then th\<lparr>act := Dropping 0\<rparr> else th, m)"
| "op_step R Collect th m =
     Inr (if act th = Idle then th\<lparr>act := CExch ToIdle\<rparr> else if act th = NoContext then th\<lparr>act := CExch ToEnd\<rparr> else th, m)"
| "op_step R Run th m = run_step R (act th) th m"
| "op_step R (NewNode x) th m =
     (if x \<noteq> nullptr \<and> x \<notin># mset (nodes_new m) - mset (nodes_del m) then node_step R x th m else Inr (th, m))"
| "op_step R (TakeList xs) th m =
     (case act th of
        CExch a \<Rightarrow>
          if chain (\<lambda>w. w) (link (dlist m)) (top (dlist m)) xs
          then Inr (th\<lparr>act := (if xs = [] then resume a else CSnap xs 0 [] a)\<rparr>, m\<lparr>dlist := (dlist m)\<lparr>top := nullptr\<rparr>\<rparr>)
          else Inr (th, m)
      | _ \<Rightarrow> Inr (th, m))"

definition haz_step :: "nat \<Rightarrow> haz_op \<Rightarrow> nat \<Rightarrow> haz_sys \<Rightarrow> haz_sys res" where
  "haz_step R op t s =
     (if t < length (hthreads s)
      then bind_r (op_step R op (hthreads s ! t) (hmem s)) (\<lambda>(th, m).
        Inr \<lparr>hmem = m, hthreads = (hthreads s)[t := th]\<rparr>)
      else Inr s)"

text \<open>
  A client keeps to the interface when it stores to the hazard pointers of its context only and
  does not delete the null pointer.
\<close>

fun legal :: "nat \<Rightarrow> haz_op \<Rightarrow> bool" where
  "legal S (StoreHp i v) \<longleftrightarrow> i < S"
| "legal S (StoreFrom i) \<longleftrightarrow> i < S"
| "legal S (DeleteItem p) \<longleftrightarrow> p \<noteq> nullptr"
| "legal S _ \<longleftrightarrow> True"

definition haz_init :: "nat \<Rightarrow> nat \<Rightarrow> nat \<Rightarrow> haz_sys" where
  "haz_init n S R =
     \<lparr>hmem = \<lparr>hpool = pool_ctor 0 S, dlist = \<lparr>top = nullptr, link = (\<lambda>_. nullptr)\<rparr>, dcnt = 0, pay = (\<lambda>_. nullptr),
        src = nullptr, nodes_new = [], nodes_del = [], retired = [], freed = []\<rparr>,
      hthreads = replicate n \<lparr>act = NoContext, blk = Outside, dels = replicate R nullptr, dix = 0\<rparr>\<rparr>"

inductive haz_reach :: "nat \<Rightarrow> nat \<Rightarrow> nat \<Rightarrow> haz_sys \<Rightarrow> bool" for n S R where
  init: "haz_reach n S R (haz_init n S R)"
| step: "haz_reach n S R s \<Longrightarrow> legal S op \<Longrightarrow> haz_step R op t s = Inr s' \<Longrightarrow> haz_reach n S R s'"

section \<open>Where a thread can be\<close>

text \<open>
  What the parts of a thread's state have to do with each other at every place: whether it holds a
  block, how far its array is filled, and that \<open>del_index\<close> counts the entries.
\<close>

definition ready :: "nat \<Rightarrow> haz_thread \<Rightarrow> bool" where
  "ready R th \<longleftrightarrow> packed (dels th) \<and> dix th = length (nonnull (dels th)) \<and> (0 < R \<longrightarrow> dix th < R)"

definition has_block :: "haz_thread \<Rightarrow> bool" where
  "has_block th \<longleftrightarrow> (\<exists>ix. blk th = Owner ix)"

fun after_ok :: "nat \<Rightarrow> after_collect \<Rightarrow> haz_thread \<Rightarrow> bool" where
  "after_ok R ToIdle th \<longleftrightarrow> has_block th \<and> ready R th"
| "after_ok R _ th \<longleftrightarrow> blk th = Outside \<and> nonnull (dels th) = []"

fun flush_ok :: "nat \<Rightarrow> nat \<Rightarrow> bool \<Rightarrow> haz_thread \<Rightarrow> bool" where
  "flush_ok R i dtor th \<longleftrightarrow> (if dtor then blk th = Outside else has_block th) \<and> i \<le> R \<and> (\<forall>j<i. dels th ! j = nullptr)"

fun pushed_ok :: "nat \<Rightarrow> after_enq \<Rightarrow> haz_thread \<Rightarrow> bool" where
  "pushed_ok R Enqueued th \<longleftrightarrow> has_block th \<and> ready R th"
| "pushed_ok R (Flushing i dtor) th \<longleftrightarrow> flush_ok R i dtor th"
| "pushed_ok R (PutBack xs a) th \<longleftrightarrow> after_ok R a th"

fun at_ok :: "nat \<Rightarrow> nat \<Rightarrow> haz_act \<Rightarrow> haz_thread \<Rightarrow> bool" where
  "at_ok S R NoContext th \<longleftrightarrow> blk th = Outside \<and> nonnull (dels th) = []"
| "at_ok S R Ctor th \<longleftrightarrow> (\<exists>e. blk th = Reserving e) \<and> nonnull (dels th) = []"
| "at_ok S R (Init i) th \<longleftrightarrow> has_block th \<and> nonnull (dels th) = []"
| "at_ok S R Idle th \<longleftrightarrow> has_block th \<and> ready R th"
| "at_ok S R (Storing i v) th \<longleftrightarrow> has_block th \<and> ready R th \<and> i < S"
| "at_ok S R (RSnap k vs) th \<longleftrightarrow> has_block th \<and> 0 < R \<and> dix th = R \<and> nullptr \<notin> set (dels th)"
| "at_ok S R (RCheck vs i) th \<longleftrightarrow> has_block th \<and> 0 < R \<and> i \<le> R \<and> dix th = length (nonnull (dels th)) \<and>
     (\<forall>j. i \<le> j \<and> j < R \<longrightarrow> dels th ! j \<noteq> nullptr)"
| "at_ok S R (Enq p) th \<longleftrightarrow> has_block th \<and> ready R th \<and> p \<noteq> nullptr"
| "at_ok S R (Flush i dtor) th \<longleftrightarrow> flush_ok R i dtor th"
| "at_ok S R (Pushing x pc nx) th \<longleftrightarrow> pushed_ok R nx th"
| "at_ok S R (Counting nx) th \<longleftrightarrow> pushed_ok R nx th"
| "at_ok S R (KTest d a) th \<longleftrightarrow> after_ok R a th"
| "at_ok S R (KRead a) th \<longleftrightarrow> after_ok R a th"
| "at_ok S R (KCas dc a) th \<longleftrightarrow> after_ok R a th"
| "at_ok S R (CExch a) th \<longleftrightarrow> after_ok R a th"
| "at_ok S R (CSnap xs k vs a) th \<longleftrightarrow> after_ok R a th"
| "at_ok S R (CCheck vs kept todo a) th \<longleftrightarrow> after_ok R a th"
| "at_ok S R (CBack xs a) th \<longleftrightarrow> after_ok R a th"
| "at_ok S R (Dropping i) th \<longleftrightarrow> has_block th"
| "at_ok S R Releasing th \<longleftrightarrow> (\<exists>ix x e. blk th \<in> {Clearing ix x, RelLoad ix, RelCas ix e})"

definition hthread_ok :: "nat \<Rightarrow> nat \<Rightarrow> haz_thread \<Rightarrow> bool" where
  "hthread_ok S R th \<longleftrightarrow> length (dels th) = R \<and> at_ok S R (act th) th"

lemma ready_act [simp]: "ready R (th\<lparr>act := a\<rparr>) = ready R th" "has_block (th\<lparr>act := a\<rparr>) = has_block th"
  by (simp_all add: ready_def has_block_def)

lemma after_ok_act [simp]: "after_ok R af (th\<lparr>act := a\<rparr>) = after_ok R af th"
  by (cases af) simp_all

lemma pushed_ok_act [simp]: "pushed_ok R nx (th\<lparr>act := a\<rparr>) = pushed_ok R nx th"
  by (cases nx) simp_all

lemma at_ok_act [simp]: "at_ok S R pl (th\<lparr>act := a\<rparr>) = at_ok S R pl th"
  by (cases pl) simp_all

lemma place_resume [simp]: "at_ok S R (resume a) th = after_ok R a th"
  by (cases a) simp_all

lemma place_after_push [simp]: "at_ok S R (after_push nx) th = pushed_ok R nx th"
  by (cases nx) simp_all

lemma nonnull_simps [simp]:
  "nonnull [] = []" "nonnull (x # xs) = (if x = nullptr then nonnull xs else x # nonnull xs)"
  "nonnull (xs @ ys) = nonnull xs @ nonnull ys" "nonnull (replicate k nullptr) = []"
  by (simp_all add: nonnull_def)

lemma nonnull_all_null: "(\<forall>j<length xs. xs ! j = nullptr) \<Longrightarrow> nonnull xs = []"
  by (auto simp: nonnull_def filter_empty_conv in_set_conv_nth)

lemma ready_null: "nonnull (dels th) = [] \<Longrightarrow> dix th = 0 \<Longrightarrow> ready R th"
proof -
  assume n: "nonnull (dels th) = []" "dix th = 0"
  then have "dels th ! j = nullptr" if "j < length (dels th)" for j
    using that by (auto simp: nonnull_def filter_empty_conv)
  then have "packed (dels th)" by (auto simp: packed_def)
  then show ?thesis using n by (simp add: ready_def)
qed

lemma nonnull_update:
  "i < length xs \<Longrightarrow> xs ! i \<noteq> nullptr \<Longrightarrow> mset (nonnull xs) = add_mset (xs ! i) (mset (nonnull (xs[i := nullptr])))"
proof -
  assume i: "i < length xs" and n: "xs ! i \<noteq> nullptr"
  have "xs = take i xs @ xs ! i # drop (Suc i) xs" using i by (rule id_take_nth_drop)
  moreover have "xs[i := nullptr] = take i xs @ nullptr # drop (Suc i) xs" using i by (rule upd_conv_take_nth_drop)
  ultimately show ?thesis using n by (metis add_mset_add_mset_same_iff mset_append mset.simps(2) nonnull_simps(2,3) union_mset_add_mset_right)
qed

text \<open>\<open>delete_item\<close> adds behind the entries.\<close>

lemma packed_snoc:
  assumes "packed xs" "length (nonnull xs) < length xs" "p \<noteq> nullptr"
  defines "ys \<equiv> xs[length (nonnull xs) := p]"
  shows "packed ys" "nonnull ys = nonnull xs @ [p]"
proof -
  define k where "k = length xs - length (nonnull xs) - 1"
  have x: "xs = nonnull xs @ nullptr # replicate k nullptr"
    using packed_eq [OF assms(1)] assms(2) by (cases "length xs - length (nonnull xs)") (simp_all add: k_def)
  have n: "nonnull (nonnull xs) = nonnull xs" by (simp add: nonnull_def)
  have y: "ys = (nonnull xs @ [p]) @ replicate k nullptr" unfolding ys_def by (subst x) (simp add: list_update_append)
  show "nonnull ys = nonnull xs @ [p]" unfolding y using n assms(3) by simp
  have nn: "nullptr \<notin> set (nonnull xs @ [p])" using assms(3) by (auto simp: nonnull_def)
  show "packed ys"
  proof (rule packedI [of "Suc (length (nonnull xs))"])
    show "\<forall>i<Suc (length (nonnull xs)). ys ! i \<noteq> nullptr"
    proof (intro allI impI)
      fix i assume i: "i < Suc (length (nonnull xs))"
      then have "ys ! i = (nonnull xs @ [p]) ! i" unfolding y by (subst nth_append) simp
      moreover have "(nonnull xs @ [p]) ! i \<in> set (nonnull xs @ [p])" using i by (intro nth_mem) simp
      ultimately show "ys ! i \<noteq> nullptr" using nn by metis
    qed
    show "\<forall>i. Suc (length (nonnull xs)) < i \<and> i < length ys \<longrightarrow> ys ! i = nullptr" unfolding y by (auto simp: nth_append)
  qed
qed

section \<open>Every step keeps a thread well-formed\<close>

definition fine :: "nat \<Rightarrow> nat \<Rightarrow> (haz_thread \<times> haz_mem) res \<Rightarrow> bool" where
  "fine S R r \<longleftrightarrow> (\<forall>th m. r = Inr (th, m) \<longrightarrow> hthread_ok S R th)"

lemma fine_simps [simp]: "fine S R (Inl f)" "fine S R (Inr (th, m)) = hthread_ok S R th"
  by (simp_all add: fine_def)

lemma hthread_ok_goto: "hthread_ok S R (th\<lparr>act := a\<rparr>) \<longleftrightarrow> length (dels th) = R \<and> at_ok S R a th"
  by (simp add: hthread_ok_def)

lemma store_own_fine: "length (dels th) = R \<Longrightarrow> at_ok S R a th \<Longrightarrow> fine S R (store_own i v a th m)"
  by (auto simp: store_own_def put_slot_def arr_set_def hthread_ok_goto split: pool_pc.split)

lemma ctor_fine:
  assumes "hthread_ok S R th" "act th = Ctor"
  shows "fine S R (ctor_step th m)"
proof -
  from assms obtain e where e: "blk th = Reserving e" by (auto simp: hthread_ok_def)
  obtain pc p where r: "reserve_step e (hpool m) = (pc, p)" by fastforce
  then have "pc = Outside \<or> (\<exists>ix. pc = Owner ix) \<or> (\<exists>e. pc = Reserving e)"
    by (auto split: if_splits prod.splits)
  then show ?thesis using assms e r by (auto simp: hthread_ok_def has_block_def simp del: reserve_step.simps)
qed

lemma init_fine: "hthread_ok S R th \<Longrightarrow> act th = Init i \<Longrightarrow> fine S R (init_hp_step R i th m)"
  using store_own_fine [of th R S "Init (Suc i)" i nullptr m] ready_null [of "th\<lparr>act := Idle, dels := replicate R nullptr, dix := 0\<rparr>" R]
  by (simp add: hthread_ok_def has_block_def)

lemma check_fine:
  assumes "hthread_ok S R th" "act th = RCheck vs i"
  shows "fine S R (check_step R vs i th m)"
proof -
  have l: "length (dels th) = R" and o: "has_block th" "0 < R" "i \<le> R" and x: "dix th = length (nonnull (dels th))"
    and nn: "\<And>j. i \<le> j \<Longrightarrow> j < R \<Longrightarrow> dels th ! j \<noteq> nullptr" using assms by (auto simp: hthread_ok_def)
  show ?thesis
  proof (cases "i < R")
    case True
    let ?n = "mset (nonnull ((dels th)[i := nullptr]))"
    have "mset (nonnull (dels th)) = add_mset (dels th ! i) ?n" using nonnull_update nn True l by simp
    then have "length (nonnull (dels th)) = Suc (length (nonnull ((dels th)[i := nullptr])))"
      by (metis size_add_mset size_mset)
    then show ?thesis using True l o x nn
      by (auto simp: search_snapshot_of hthread_ok_def has_block_def dec_size_def nth_list_update)
  next
    case False
    show ?thesis
    proof (cases "dix th = R")
      case True
      then show ?thesis using False l o by (simp add: hthread_ok_def)
    next
      case ne: False
      have "\<exists>del. compact (R + 2) (dels th) 0 (dec_size R) = Inr del \<and> mset del = mset (dels th) \<and> packed del"
        using o(2) l by (intro compact_correct) (auto simp: dec_size_def)
      then obtain del where d: "compact (R + 2) (dels th) 0 (dec_size R) = Inr del" "mset del = mset (dels th)" "packed del"
        by blast
      have "length del = R" "length (nonnull del) = length (nonnull (dels th))"
        using d(2) mset_nonnull [OF d(2)] l mset_eq_length by metis+
      moreover have "length (nonnull (dels th)) \<le> R" using length_nonnull [of "dels th"] l by simp
      ultimately show ?thesis using False ne d o x by (simp add: hthread_ok_def ready_def has_block_def)
    qed
  qed
qed

lemma flush_fine:
  assumes "hthread_ok S R th" "act th = Flush i dtor"
  shows "fine S R (flush_step R i dtor th m)"
proof (cases "i < R")
  case True
  then show ?thesis using assms by (auto simp: hthread_ok_def less_Suc_eq)
next
  case False
  then have i: "i = R" using assms by (simp add: hthread_ok_def)
  with assms have "nonnull (dels th) = []" by (intro nonnull_all_null) (simp add: hthread_ok_def)
  then show ?thesis using assms i ready_null [of "th\<lparr>act := KTest False ToIdle, dix := 0\<rparr>"]
    by (auto simp: hthread_ok_def has_block_def split: if_splits)
qed

lemma release_act_fine:
  assumes "hthread_ok S R th" "act th = Releasing"
  shows "fine S R (release_act th m)"
proof -
  from assms consider (clr) ix x where "blk th = Clearing ix x" | (ld) ix where "blk th = RelLoad ix"
    | (ex) ix e where "blk th = RelCas ix e" by (auto simp: hthread_ok_def)
  then show ?thesis
  proof cases
    case clr
    then show ?thesis using assms by (simp add: hthread_ok_def put_slot_def arr_set_def)
  next
    case ld
    then show ?thesis using assms by (simp add: hthread_ok_def)
  next
    case ex
    obtain pc p where r: "release_step ix e (hpool m) = (pc, p)" by fastforce
    then have "pc = Outside \<or> pc = RelLoad ix" by (auto split: if_splits prod.splits)
    then show ?thesis using assms ex r by (auto simp: hthread_ok_def simp del: release_step.simps)
  qed
qed

lemma run_fine:
  assumes "hthread_ok S R th"
  shows "fine S R (run_step R (act th) th m)"
proof (cases "act th")
  case (Storing i v)
  then show ?thesis using assms store_own_fine by (simp add: hthread_ok_def)
next
  case (Dropping i)
  then show ?thesis using assms store_own_fine by (auto simp: hthread_ok_def split: pool_pc.split)
next
  case (Pushing x pc nx)
  then show ?thesis using assms by (auto simp: hthread_ok_def split: prod.splits option.splits)
next
  case (CCheck vs kept todo a)
  then show ?thesis using assms by (cases todo) (auto simp: hthread_ok_def search_snapshot_of)
next
  case (CBack xs a)
  then show ?thesis using assms by (cases xs) (auto simp: hthread_ok_def)
next
  case (RSnap k vs)
  moreover from this have "nonnull (dels th) = dels th" using assms by (auto simp: hthread_ok_def nonnull_def filter_id_conv)
  ultimately show ?thesis using assms by (auto simp: hthread_ok_def Let_def) (metis nth_mem)
next
  case (RCheck vs i)
  then show ?thesis using check_fine [OF assms] by (simp del: check_step.simps)
next
  case (Flush i dtor)
  then show ?thesis using flush_fine [OF assms] by (simp del: flush_step.simps)
next
  case (Init i)
  then show ?thesis using init_fine [OF assms] by (simp del: init_hp_step.simps)
next
  case Ctor
  then show ?thesis using ctor_fine [OF assms] by (simp del: ctor_step.simps)
next
  case Releasing
  then show ?thesis using release_act_fine [OF assms] by (simp del: release_act.simps)
qed (use assms in \<open>simp_all add: hthread_ok_def Let_def split: prod.splits\<close>)

lemma full_nonnull: "length (nonnull xs) = length xs \<Longrightarrow> nullptr \<notin> set xs"
  using length_filter_less [of nullptr xs "\<lambda>v. nullptr \<noteq> v"] by (auto simp: nonnull_def)

lemma delete_fine:
  assumes "hthread_ok S R th" "act th = Idle" "p \<noteq> nullptr"
  shows "fine S R (delete_item_step R p th m)"
proof -
  have l: "length (dels th) = R" and r: "has_block th" "ready R th" using assms by (simp_all add: hthread_ok_def)
  show ?thesis
  proof (cases "R > 0")
    case False
    then show ?thesis using l r assms(3) by (simp add: hthread_ok_def)
  next
    case True
    let ?del = "(dels th)[dix th := p]"
    have k: "packed (dels th)" "dix th = length (nonnull (dels th))" "dix th < length (dels th)"
      using r(2) True l by (simp_all add: ready_def)
    note p = packed_snoc [OF k(1) k(3) [unfolded k(2)] assms(3), folded k(2)]
    have d: "length (nonnull ?del) = dix th + 1" using p(2) k(2) by simp
    then have "nullptr \<notin> set ?del" if "dix th + 1 = R" using that l by (intro full_nonnull) simp
    moreover have "has_block (th\<lparr>dels := ds, dix := n\<rparr>)" for ds n using r(1) by (simp add: has_block_def)
    moreover have "hthread_ok S R (th\<lparr>dels := ?del, dix := dix th + 1, act := a\<rparr>) \<longleftrightarrow>
      at_ok S R a (th\<lparr>dels := ?del, dix := dix th + 1\<rparr>)" for a
      using l hthread_ok_goto [where th = "th\<lparr>dels := ?del, dix := dix th + 1\<rparr>" and a = a] by simp
    moreover have "delete_item_step R p th m = Inr (th\<lparr>dels := ?del, dix := dix th + 1, act := if dix th + 1 = R then RSnap 0 [] else Idle\<rparr>,
      m\<lparr>retired := p # retired m\<rparr>)" using True k(3) l by simp
    moreover have "dix th + 1 \<le> R" using k(3) l by simp
    ultimately show ?thesis using True p(1) d by (auto simp: ready_def)
  qed
qed

lemma node_fine:
  assumes "hthread_ok S R th"
  shows "fine S R (node_step R x th m)"
  using assms by (auto simp: hthread_ok_def less_Suc_eq nth_list_update arr_get_def arr_set_def has_block_def split: haz_act.split)

lemma op_step_fine:
  assumes "hthread_ok S R th" "legal S op"
  shows "fine S R (op_step R op th m)"
proof (cases op)
  case (StoreHp i v)
  then show ?thesis using assms store_own_fine [of th R S Idle] by (cases "act th = Idle") (simp_all add: hthread_ok_def)
next
  case (DeleteItem p)
  then show ?thesis using assms delete_fine by (simp del: delete_item_step.simps)
next
  case Run
  then show ?thesis using assms run_fine by simp
next
  case (NewNode x)
  then show ?thesis using assms node_fine by (simp del: node_step.simps)
qed (use assms in \<open>auto simp: hthread_ok_def split: haz_act.split\<close>)

section \<open>The pool\<close>

text \<open>
  A run of the library as a run of its pool: each thread has two places in the pool, one for the
  block of its context and one for the copying of the hazard pointers.
\<close>

fun copying :: "haz_act \<Rightarrow> pool_pc" where
  "copying (RSnap k vs) = Copying k vs"
| "copying (CSnap xs k vs a) = Copying k vs"
| "copying _ = Outside"

definition pool_of :: "haz_sys \<Rightarrow> pool_sys" where
  "pool_of s = \<lparr>shared = hpool (hmem s), places = map blk (hthreads s) @ map (\<lambda>th. copying (act th)) (hthreads s)\<rparr>"

definition moves :: "pool \<Rightarrow> pool_pc \<Rightarrow> pool \<Rightarrow> pool_pc \<Rightarrow> bool" where
  "moves p pc p' pc' \<longleftrightarrow>
     (\<forall>s t. t < length (places s) \<longrightarrow> places s ! t = pc \<longrightarrow> shared s = p \<longrightarrow> pool_step t s ((goto t pc' s)\<lparr>shared := p'\<rparr>))"

lemma movesD:
  "moves p pc p' pc' \<Longrightarrow> t < length (places s) \<Longrightarrow> places s ! t = pc \<Longrightarrow> shared s = p \<Longrightarrow>
   pool_step t s ((goto t pc' s)\<lparr>shared := p'\<rparr>)"
  by (simp add: moves_def)

lemma moves_stay:
  assumes "\<And>s t. t < length (places s) \<Longrightarrow> places s ! t = pc \<Longrightarrow> shared s = p \<Longrightarrow> pool_step t s (goto t pc' s)"
  shows "moves p pc p pc'"
  unfolding moves_def
proof (intro allI impI)
  fix s :: pool_sys and t assume s: "t < length (places s)" "places s ! t = pc" "shared s = p"
  from s(3) have "(goto t pc' s)\<lparr>shared := p\<rparr> = goto t pc' s" by auto
  with assms [OF s] show "pool_step t s ((goto t pc' s)\<lparr>shared := p\<rparr>)" by simp
qed

lemma moves_enter: "moves p Outside p (Reserving (bitmap p))"
  by (rule moves_stay) (use pool_step.enter in blast)

lemma moves_release: "moves p (Owner ix) p (Clearing ix 0)"
  by (rule moves_stay) (use pool_step.release in blast)

lemma moves_load: "moves p (RelLoad ix) p (RelCas ix (bitmap p))"
  by (rule moves_stay) (use pool_step.load in blast)

lemma moves_snap: "moves p Outside p (Copying 0 [])"
  by (rule moves_stay) (use pool_step.snap in blast)

lemma moves_copy:
  "k < pool_count p \<Longrightarrow> moves p (Copying k vs) p (Copying (Suc k) (if nullptr \<noteq> haz_ptrs p ! k then vs @ [haz_ptrs p ! k] else vs))"
  by (rule moves_stay) (use pool_step.copy in blast)

lemma moves_copied: "\<not> k < pool_count p \<Longrightarrow> moves p (Copying k vs) p Outside"
  by (rule moves_stay) (use pool_step.copied in blast)

lemma moves_check:
  assumes "\<not> x < blk_size p" "push_bit ix 1 = bitmap p AND push_bit ix 1"
  shows "moves p (Clearing ix x) p (RelLoad ix)"
proof (rule moves_stay)
  fix s :: pool_sys and t assume "t < length (places s)" "places s ! t = Clearing ix x" "shared s = p"
  from pool_step.check [OF this(1,2)] this(3) assms show "pool_step t s (goto t (RelLoad ix) s)" by simp
qed

lemma moves_reserve: "reserve_step e p = (pc, p') \<Longrightarrow> moves p (Reserving e) p' pc"
  unfolding moves_def using pool_step.reserve by blast

lemma moves_exchange: "release_step ix e p = (pc, p') \<Longrightarrow> moves p (RelCas ix e) p' pc"
  unfolding moves_def using pool_step.exchange by blast

lemma moves_clear:
  "x < blk_size p \<Longrightarrow> moves p (Clearing ix x) (p\<lparr>haz_ptrs := (haz_ptrs p)[ix * blk_size p + x := nullptr]\<rparr>) (Clearing ix (Suc x))"
  unfolding moves_def using pool_step.clear by blast

lemma moves_store:
  assumes "x < blk_size p"
  shows "moves p (Owner ix) (p\<lparr>haz_ptrs := (haz_ptrs p)[ix * blk_size p + x := v]\<rparr>) (Owner ix)"
  unfolding moves_def
proof (intro allI impI)
  fix s :: pool_sys and t assume s: "t < length (places s)" "places s ! t = Owner ix" "shared s = p"
  then have "goto t (Owner ix) s = s" by (metis list_update_id pool_sys.surjective pool_sys.update_convs(2))
  with pool_step.store [OF s(1,2), of x v] s(3) assms
  show "pool_step t s ((goto t (Owner ix) s)\<lparr>shared := p\<lparr>haz_ptrs := (haz_ptrs p)[ix * blk_size p + x := v]\<rparr>\<rparr>)" by simp
qed

text \<open>What a step of a thread is for the pool: nothing, or one step at one of its two places.\<close>

definition pool_move :: "haz_thread \<Rightarrow> haz_mem \<Rightarrow> haz_thread \<Rightarrow> haz_mem \<Rightarrow> bool" where
  "pool_move th m th' m' \<longleftrightarrow>
     blk th' = blk th \<and> copying (act th') = copying (act th) \<and> hpool m' = hpool m \<or>
     copying (act th') = copying (act th) \<and> moves (hpool m) (blk th) (hpool m') (blk th') \<or>
     blk th' = blk th \<and> moves (hpool m) (copying (act th)) (hpool m') (copying (act th'))"

definition pmoves :: "haz_thread \<Rightarrow> haz_mem \<Rightarrow> (haz_thread \<times> haz_mem) res \<Rightarrow> bool" where
  "pmoves th m r \<longleftrightarrow> (\<forall>th' m'. r = Inr (th', m') \<longrightarrow> pool_move th m th' m')"

lemma pmoves_simps [simp]: "pmoves th m (Inl f)" "pmoves th m (Inr (th', m')) = pool_move th m th' m'"
  by (simp_all add: pmoves_def)

lemma pool_move_idle: "blk th' = blk th \<Longrightarrow> copying (act th') = copying (act th) \<Longrightarrow> hpool m' = hpool m \<Longrightarrow> pool_move th m th' m'"
  by (simp add: pool_move_def)

lemma copying_resume [simp]: "copying (resume a) = Outside" "copying (after_push nx) = Outside"
  by (cases a; simp) (cases nx; simp)

lemma store_own_pmoves:
  assumes "i < blk_size (hpool m)" "copying a = copying (act th)"
  shows "pmoves th m (store_own i v a th m)"
proof -
  have "pool_move th m (th\<lparr>act := a\<rparr>) (m\<lparr>hpool := (hpool m)\<lparr>haz_ptrs := (haz_ptrs (hpool m))[ix * blk_size (hpool m) + i := v]\<rparr>\<rparr>)"
    if "blk th = Owner ix" for ix
    using that moves_store [OF assms(1)] assms(2) by (simp add: pool_move_def)
  then show ?thesis by (auto simp: store_own_def put_slot_def arr_set_def split: pool_pc.split)
qed

lemma ctor_pmoves: "act th = Ctor \<Longrightarrow> pmoves th m (ctor_step th m)"
proof -
  assume a: "act th = Ctor"
  have "copying (case pc of Outside \<Rightarrow> NoContext | Owner ix \<Rightarrow> Init 0 | _ \<Rightarrow> Ctor) = Outside" for pc by (cases pc) simp_all
  then show ?thesis using a moves_reserve by (auto simp: pool_move_def simp del: reserve_step.simps split: pool_pc.split prod.split)
qed

lemma release_act_pmoves: "act th = Releasing \<Longrightarrow> pmoves th m (release_act th m)"
  using moves_clear moves_check moves_load moves_exchange
  by (auto simp: pool_move_def put_slot_def arr_set_def simp del: release_step.simps split: pool_pc.split prod.split)

lemma check_pmoves: "act th = RCheck vs i \<Longrightarrow> pmoves th m (check_step R vs i th m)"
  by (cases "compact (R + 2) (dels th) 0 (dec_size R)")
    (auto simp: arr_get_def arr_set_def search_snapshot_of intro!: pool_move_idle)

lemma run_pmoves:
  assumes "hthread_ok S R th" "blk_size (hpool m) = S"
  shows "pmoves th m (run_step R (act th) th m)"
proof (cases "act th")
  case (RSnap k vs)
  then show ?thesis using moves_copy moves_copied by (auto simp: pool_move_def Let_def)
next
  case (CSnap xs k vs a)
  then show ?thesis using moves_copy moves_copied by (auto simp: pool_move_def Let_def)
next
  case (Storing i v)
  then show ?thesis using store_own_pmoves assms by (simp add: hthread_ok_def)
next
  case (Init i)
  then show ?thesis using store_own_pmoves [of i m "Init (Suc i)" th] by (simp add: pool_move_idle)
next
  case (Dropping i)
  then show ?thesis using store_own_pmoves [of i m "Dropping (Suc i)" th] moves_release
    by (auto simp: pool_move_def split: pool_pc.split)
next
  case (Flush i dtor)
  then show ?thesis by (auto simp: arr_get_def intro!: pool_move_idle)
next
  case (CBack xs a)
  then show ?thesis by (cases xs) (auto intro!: pool_move_idle)
next
  case (CCheck vs kept todo a)
  then show ?thesis by (cases todo) (auto simp: search_snapshot_of intro!: pool_move_idle)
next
  case (Pushing x pc nx)
  then show ?thesis by (auto intro!: pool_move_idle split: prod.splits option.splits)
next
  case (KTest d a)
  then show ?thesis by (auto intro!: pool_move_idle)
qed (use ctor_pmoves release_act_pmoves check_pmoves in
  \<open>simp_all add: pool_move_idle del: ctor_step.simps release_act.simps check_step.simps split: prod.splits\<close>)

lemma op_step_pmoves:
  assumes "hthread_ok S R th" "blk_size (hpool m) = S"
  shows "pmoves th m (op_step R op th m)"
proof (cases op)
  case NewContext
  then show ?thesis using assms(1) moves_enter by (auto simp: pool_move_def hthread_ok_def)
next
  case (StoreHp i v)
  then show ?thesis using store_own_pmoves [of i m Idle th] by (auto intro!: pool_move_idle)
next
  case (DeleteItem p)
  then show ?thesis using moves_snap by (auto simp: pool_move_def arr_set_def Let_def)
next
  case Run
  then show ?thesis using run_pmoves [OF assms] by simp
next
  case (NewNode x)
  then show ?thesis
    by (auto simp: arr_get_def arr_set_def add_node_def intro!: pool_move_idle split: haz_act.split)
next
  case (TakeList xs)
  then show ?thesis using moves_snap by (auto simp: pool_move_def split: haz_act.split)
qed (auto intro!: pool_move_idle)

lemma haz_stepE:
  assumes "haz_step R op t s = Inr s'"
  obtains (out) "s' = s"
  | (step) th m where "t < length (hthreads s)" "op_step R op (hthreads s ! t) (hmem s) = Inr (th, m)"
      "s' = \<lparr>hmem = m, hthreads = (hthreads s)[t := th]\<rparr>"
  using assms by (auto simp: haz_step_def bind_r_Inr_iff split: if_splits)

lemma pool_of_init: "pool_of (haz_init n S R) = pool_init (n + n) S"
  by (simp add: pool_of_def haz_init_def pool_init_def replicate_add)

lemma same_places: "t < length ths \<Longrightarrow> f th = f (ths ! t) \<Longrightarrow> map f (ths[t := th]) = map f ths"
  by (simp add: map_update list_update_same_conv)

lemma pool_of_step:
  assumes "t < length (hthreads s)" "pool_move (hthreads s ! t) (hmem s) th m"
    and s': "s' = \<lparr>hmem = m, hthreads = (hthreads s)[t := th]\<rparr>"
  shows "pool_of s' = pool_of s \<or> (\<exists>u. pool_step u (pool_of s) (pool_of s'))"
proof -
  let ?f = "\<lambda>th. copying (act th)" and ?ths = "hthreads s"
  let ?n = "length ?ths"
  have sh: "shared (pool_of s) = hpool (hmem s)" by (simp add: pool_of_def)
  from assms(2) consider
      (idle) "blk th = blk (?ths ! t)" "?f th = ?f (?ths ! t)" "hpool m = hpool (hmem s)"
    | (block) "?f th = ?f (?ths ! t)" "moves (hpool (hmem s)) (blk (?ths ! t)) (hpool m) (blk th)"
    | (scan) "blk th = blk (?ths ! t)" "moves (hpool (hmem s)) (?f (?ths ! t)) (hpool m) (?f th)"
    unfolding pool_move_def by blast
  then show ?thesis
  proof cases
    case idle
    then have "pool_of s' = pool_of s"
      using same_places [where f = blk, OF assms(1)] same_places [where f = ?f, OF assms(1)] unfolding pool_of_def s' by simp
    then show ?thesis by blast
  next
    case block
    have "pool_step t (pool_of s) ((goto t (blk th) (pool_of s))\<lparr>shared := hpool m\<rparr>)"
      by (rule movesD [OF block(2)]) (use assms(1) sh in \<open>simp_all add: pool_of_def nth_append\<close>)
    moreover have "(goto t (blk th) (pool_of s))\<lparr>shared := hpool m\<rparr> = pool_of s'"
      using same_places [where f = ?f, OF assms(1)] block(1) assms(1) unfolding pool_of_def s'
      by (simp add: map_update list_update_append)
    ultimately show ?thesis by metis
  next
    case scan
    have "pool_step (?n + t) (pool_of s) ((goto (?n + t) (?f th) (pool_of s))\<lparr>shared := hpool m\<rparr>)"
      by (rule movesD [OF scan(2)]) (use assms(1) sh in \<open>simp_all add: pool_of_def nth_append\<close>)
    moreover have "(goto (?n + t) (?f th) (pool_of s))\<lparr>shared := hpool m\<rparr> = pool_of s'"
      using same_places [where f = blk, OF assms(1)] scan(1) assms(1) unfolding pool_of_def s'
      by (simp add: map_update list_update_append)
    ultimately show ?thesis by metis
  qed
qed

lemma pool_sizes: "pool_reach n b s \<Longrightarrow> blk_size (shared s) = b"
proof (induction rule: pool_reach.induct)
  case init
  then show ?case by (simp add: pool_init_def pool_ctor_ok)
next
  case (step s t s')
  have 1: "blk_size p = blk_size (shared s)" if "reserve_step e (shared s) = (pc, p)" for e pc p
    using that by (auto split: if_splits prod.splits)
  have 2: "blk_size p = blk_size (shared s)" if "release_step ix e (shared s) = (pc, p)" for ix e pc p
    using that by (auto split: if_splits prod.splits)
  from step.hyps(2) show ?case
    by (cases rule: pool_step.cases) (simp_all add: step.IH 1 2 del: reserve_step.simps release_step.simps)
qed

lemma haz_reach_pool:
  "haz_reach n S R s \<Longrightarrow> pool_reach (n + n) S (pool_of s) \<and> length (hthreads s) = n \<and> (\<forall>th\<in>set (hthreads s). hthread_ok S R th)"
proof (induction rule: haz_reach.induct)
  case init
  have "pool_reach (n + n) S (pool_of (haz_init n S R))" unfolding pool_of_init by (rule pool_reach.init)
  then show ?case by (auto simp: haz_init_def hthread_ok_def)
next
  case (step s op t s')
  from step(3) show ?case
  proof (cases rule: haz_stepE)
    case out
    then show ?thesis using step(4) by simp
  next
    case (step th m)
    have ok: "hthread_ok S R (hthreads s ! t)" using step.IH step(1) nth_mem by blast
    have b: "blk_size (hpool (hmem s)) = S" using pool_sizes step.IH by (fastforce simp: pool_of_def)
    have "hthread_ok S R th" using op_step_fine [OF ok step.hyps(2), of "hmem s"] step(2) by simp
    then have t: "\<forall>th\<in>set (hthreads s'). hthread_ok S R th"
      using step.IH step(3) set_update_subset_insert [of "hthreads s" t th] by auto
    have "pool_move (hthreads s ! t) (hmem s) th m" using op_step_pmoves [OF ok b, of op] step(2) by simp
    from pool_of_step [OF step(1) this step(3)] have "pool_reach (n + n) S (pool_of s')"
      using step.IH pool_reach.step by auto
    then show ?thesis using t step.IH step(3) by simp
  qed
qed

text \<open>What the invariants of the pool say of the state of the library.\<close>

lemma haz_pool_facts:
  assumes "haz_reach n S R s"
  shows "blk_size (hpool (hmem s)) = S" "length (haz_ptrs (hpool (hmem s))) = S * 32" "pool_count (hpool (hmem s)) = S * 32"
    "t < length (hthreads s) \<Longrightarrow> holds_blk (blk (hthreads s ! t)) = Some ix \<Longrightarrow> bit (bitmap (hpool (hmem s))) ix \<and> ix < 32"
proof -
  have r: "pool_reach (n + n) S (pool_of s)" using haz_reach_pool [OF assms] by simp
  from pool_reach_ok [OF r] have e: "excl (pool_of s)" and c: "clean (pool_of s)" by simp_all
  show "blk_size (hpool (hmem s)) = S" using pool_sizes [OF r] by (simp add: pool_of_def)
  then show "length (haz_ptrs (hpool (hmem s))) = S * 32" "pool_count (hpool (hmem s)) = S * 32"
    using c by (simp_all add: clean_def pool_of_def)
  assume t: "t < length (hthreads s)" "holds_blk (blk (hthreads s ! t)) = Some ix"
  have "bit (bitmap (shared (pool_of s))) ix"
    using exclD(1) [OF e, of t ix] t by (simp add: pool_of_def nth_append)
  then show "bit (bitmap (hpool (hmem s))) ix \<and> ix < 32" using bit_imp_le_length by (force simp: pool_of_def)
qed

end
