(* ===== verification/HazSafe.thy ===== *)
theory HazSafe
  imports HazConc
begin

text \<open>
  What the hazard pointer library promises its clients, for every interleaving of the steps of
  \<open>HazConc\<close>: no step fails, each object handed to \<open>delete_item\<close> is waiting in one place or was
  reclaimed once, and an object is not reclaimed while a hazard pointer that was set before holds it.
\<close>

section \<open>The delete list\<close>

text \<open>A run of the library as a run of its delete list: the nodes a thread has in its hands.\<close>

fun nodes_of :: "haz_act \<Rightarrow> uptr list" where
  "nodes_of (CSnap xs k vs a) = xs"
| "nodes_of (CCheck vs kept todo a) = kept @ todo"
| "nodes_of (CBack xs a) = xs"
| "nodes_of (Pushing x pc (PutBack xs a)) = xs"
| "nodes_of (Counting (PutBack xs a)) = xs"
| "nodes_of _ = []"

fun pushing_of :: "haz_act \<Rightarrow> (uptr \<times> push_pc) option" where
  "pushing_of (Pushing x pc nx) = Some (x, pc)"
| "pushing_of _ = None"

fun counting_of :: "haz_act \<Rightarrow> bool" where
  "counting_of (Counting nx) = True"
| "counting_of _ = False"

definition del_th :: "haz_thread \<Rightarrow> del_thread" where
  "del_th th = \<lparr>mine = nodes_of (act th), pushing = pushing_of (act th), counting = counting_of (act th)\<rparr>"

definition del_sys_of :: "haz_mem \<Rightarrow> del_thread list \<Rightarrow> del_sys" where
  "del_sys_of m dts = \<lparr>dmem = dlist m, dcount = dcnt m, dthreads = dts, made = nodes_new m, gone = nodes_del m\<rparr>"

definition del_of :: "haz_sys \<Rightarrow> del_sys" where
  "del_of s = del_sys_of (hmem s) (map del_th (hthreads s))"

lemma del_sys_of_simps [simp]:
  "dmem (del_sys_of m dts) = dlist m" "dcount (del_sys_of m dts) = dcnt m" "dthreads (del_sys_of m dts) = dts"
  "made (del_sys_of m dts) = nodes_new m" "gone (del_sys_of m dts) = nodes_del m"
  by (simp_all add: del_sys_of_def)

lemma del_sys_of_update [simp]:
  "(del_sys_of m dts)\<lparr>dcount := c\<rparr> = del_sys_of (m\<lparr>dcnt := c\<rparr>) dts"
  "(del_sys_of m dts)\<lparr>dmem := l\<rparr> = del_sys_of (m\<lparr>dlist := l\<rparr>) dts"
  "(del_sys_of m dts)\<lparr>dthreads := dts'\<rparr> = del_sys_of m dts'"
  "(del_sys_of m dts)\<lparr>gone := xs\<rparr> = del_sys_of (m\<lparr>nodes_del := xs\<rparr>) dts"
  "del_sys_of (m\<lparr>freed := ps, nodes_del := xs\<rparr>) dts = del_sys_of (m\<lparr>nodes_del := xs\<rparr>) dts"
  by (simp_all add: del_sys_of_def)

definition del_move :: "haz_thread \<Rightarrow> haz_mem \<Rightarrow> haz_thread \<Rightarrow> haz_mem \<Rightarrow> bool" where
  "del_move th m th' m' \<longleftrightarrow>
     (\<forall>dts t. t < length dts \<longrightarrow> dts ! t = del_th th \<longrightarrow>
       (del_step t)\<^sup>*\<^sup>* (del_sys_of m dts) (del_sys_of m' (dts[t := del_th th'])))"

definition dmoves :: "haz_thread \<Rightarrow> haz_mem \<Rightarrow> (haz_thread \<times> haz_mem) res \<Rightarrow> bool" where
  "dmoves th m r \<longleftrightarrow> (\<forall>th' m'. r = Inr (th', m') \<longrightarrow> del_move th m th' m')"

lemma dmoves_simps [simp]: "dmoves th m (Inl f)" "dmoves th m (Inr (th', m')) = del_move th m th' m'"
  by (simp_all add: dmoves_def)

lemma del_move_idle:
  assumes "nodes_of (act th') = nodes_of (act th)" "pushing_of (act th') = pushing_of (act th)"
    "counting_of (act th') = counting_of (act th)" "dlist m' = dlist m" "dcnt m' = dcnt m"
    "nodes_new m' = nodes_new m" "nodes_del m' = nodes_del m"
  shows "del_move th m th' m'"
proof -
  have "del_th th' = del_th th" using assms by (simp add: del_th_def)
  moreover have "del_sys_of m' dts = del_sys_of m dts" for dts using assms by (simp add: del_sys_of_def)
  ultimately show ?thesis unfolding del_move_def by (metis list_update_id rtranclp.rtrancl_refl)
qed

lemma del_move_step:
  assumes "\<And>dts t. t < length dts \<Longrightarrow> dts ! t = del_th th \<Longrightarrow> del_step t (del_sys_of m dts) (del_sys_of m' (dts[t := del_th th']))"
  shows "del_move th m th' m'"
  using assms unfolding del_move_def by blast

lemma del_move_reset:
  assumes "nodes_of (act th') = nodes_of (act th)" "pushing_of (act th') = pushing_of (act th)"
    "counting_of (act th') = counting_of (act th)"
  shows "del_move th m th' (m\<lparr>dcnt := 0\<rparr>)"
proof (rule del_move_step)
  fix dts :: "del_thread list" and t
  assume t: "t < length dts" "dts ! t = del_th th"
  have "del_th th' = del_th th" using assms by (simp add: del_th_def)
  with t have d: "dts[t := del_th th'] = dts" by (metis list_update_id)
  show "del_step t (del_sys_of m dts) (del_sys_of (m\<lparr>dcnt := 0\<rparr>) (dts[t := del_th th']))"
    using del_step.reset [of t "del_sys_of m dts"] d by simp
qed

lemma del_move_start:
  assumes "act th = CBack (x # xs) a" "act th' = Pushing x PLoad (PutBack xs a)"
  shows "del_move th m th' m"
proof (rule del_move_step)
  fix dts :: "del_thread list" and t
  assume t: "t < length dts" "dts ! t = del_th th"
  have "del_th th' = (del_th th)\<lparr>mine := remove1 x (mine (del_th th)), pushing := Some (x, PLoad)\<rparr>"
    using assms by (simp add: del_th_def)
  then show "del_step t (del_sys_of m dts) (del_sys_of m (dts[t := del_th th']))"
    using del_step.start [of t "del_sys_of m dts" "del_th th" x] t assms by (simp add: del_th_def)
qed

lemma del_move_create:
  assumes "nodes_of (act th) = []" "pushing_of (act th) = None" "\<not> counting_of (act th)"
    "nodes_of (act th') = []" "pushing_of (act th') = Some (x, PLoad)" "\<not> counting_of (act th')"
    "x \<noteq> nullptr" "x \<notin># mset (nodes_new m) - mset (nodes_del m)"
  shows "del_move th m th' (add_node x p m)"
  unfolding del_move_def
proof (intro allI impI)
  fix dts :: "del_thread list" and t
  assume t: "t < length dts" "dts ! t = del_th th"
  let ?th1 = "(del_th th)\<lparr>mine := [x]\<rparr>"
  let ?s1 = "del_sys_of (add_node x p m) (dts[t := ?th1])"
  have e: "(set_thread t ?th1 (del_sys_of m dts))\<lparr>made := x # nodes_new m\<rparr> = ?s1"
    by (simp add: del_sys_of_def add_node_def)
  have "del_step t (del_sys_of m dts) ?s1"
    using del_step.create [of t "del_sys_of m dts" "del_th th" x] t assms e by (simp add: del_th_def)
  moreover have "del_step t ?s1 (set_thread t ((?th1)\<lparr>mine := remove1 x (mine ?th1), pushing := Some (x, PLoad)\<rparr>) ?s1)"
    using del_step.start [of t ?s1 ?th1 x] t assms by (simp add: del_th_def)
  moreover have "set_thread t ((?th1)\<lparr>mine := remove1 x (mine ?th1), pushing := Some (x, PLoad)\<rparr>) ?s1 =
      del_sys_of (add_node x p m) (dts[t := del_th th'])"
    using assms by (simp add: del_sys_of_def del_th_def)
  ultimately show "(del_step t)\<^sup>*\<^sup>* (del_sys_of m dts) (del_sys_of (add_node x p m) (dts[t := del_th th']))"
    by (metis converse_rtranclp_into_rtranclp r_into_rtranclp)
qed

lemma del_move_push:
  assumes "act th = Pushing x pc nx"
  shows "case push_act x pc nx th m of (th', m') \<Rightarrow> del_move th m th' m'"
proof -
  obtain r l where st: "push_node_step x pc (dlist m) = (r, l)" by fastforce
  show ?thesis
  proof (cases r)
    case (Some pc')
    have "del_move th m (th\<lparr>act := Pushing x pc' nx\<rparr>) (m\<lparr>dlist := l\<rparr>)"
    proof (rule del_move_step)
      fix dts :: "del_thread list" and t
      assume t: "t < length dts" "dts ! t = del_th th"
      have "del_th (th\<lparr>act := Pushing x pc' nx\<rparr>) = (del_th th)\<lparr>pushing := Some (x, pc')\<rparr>"
        using assms by (cases nx) (simp_all add: del_th_def)
      then show "del_step t (del_sys_of m dts) (del_sys_of (m\<lparr>dlist := l\<rparr>) (dts[t := del_th (th\<lparr>act := Pushing x pc' nx\<rparr>)]))"
        using del_step.loop [of t "del_sys_of m dts" "del_th th" x pc pc' l] t assms st Some
        by (simp add: del_th_def)
    qed
    then show ?thesis using st Some by simp
  next
    case None
    have "del_move th m (th\<lparr>act := Counting nx\<rparr>) (m\<lparr>dlist := l\<rparr>)"
    proof (rule del_move_step)
      fix dts :: "del_thread list" and t
      assume t: "t < length dts" "dts ! t = del_th th"
      have "del_th (th\<lparr>act := Counting nx\<rparr>) = (del_th th)\<lparr>pushing := None, counting := True\<rparr>"
        using assms by (cases nx) (simp_all add: del_th_def)
      then show "del_step t (del_sys_of m dts) (del_sys_of (m\<lparr>dlist := l\<rparr>) (dts[t := del_th (th\<lparr>act := Counting nx\<rparr>)]))"
        using del_step.leave [of t "del_sys_of m dts" "del_th th" x pc l] t assms st None
        by (simp add: del_th_def)
    qed
    then show ?thesis using st None by simp
  qed
qed

lemma del_move_incr:
  assumes "act th = Counting nx" "act th' = after_push nx"
  shows "del_move th m th' (m\<lparr>dcnt := dcnt m + 1\<rparr>)"
proof (rule del_move_step)
  fix dts :: "del_thread list" and t
  assume t: "t < length dts" "dts ! t = del_th th"
  have "del_th th' = (del_th th)\<lparr>counting := False\<rparr>"
    using assms by (cases nx) (simp_all add: del_th_def)
  then show "del_step t (del_sys_of m dts) (del_sys_of (m\<lparr>dcnt := dcnt m + 1\<rparr>) (dts[t := del_th th']))"
    using del_step.incr [of t "del_sys_of m dts" "del_th th"] t assms by (simp add: del_th_def)
qed

lemma del_move_take:
  assumes "nodes_of (act th) = []" "pushing_of (act th) = None" "\<not> counting_of (act th)"
    "nodes_of (act th') = xs" "pushing_of (act th') = None" "\<not> counting_of (act th')"
    "chain (\<lambda>w. w) (link (dlist m)) (top (dlist m)) xs"
  shows "del_move th m th' (m\<lparr>dlist := (dlist m)\<lparr>top := nullptr\<rparr>\<rparr>)"
proof (rule del_move_step)
  fix dts :: "del_thread list" and t
  assume t: "t < length dts" "dts ! t = del_th th"
  have "del_th th' = (del_th th)\<lparr>mine := xs @ mine (del_th th)\<rparr>" using assms by (simp add: del_th_def)
  then show "del_step t (del_sys_of m dts) (del_sys_of (m\<lparr>dlist := (dlist m)\<lparr>top := nullptr\<rparr>\<rparr>) (dts[t := del_th th']))"
    using del_step.exchange [of t "del_sys_of m dts" "del_th th" xs] t assms by (simp add: del_th_def)
qed

lemma del_move_delete:
  assumes "act th = CCheck vs kept (x # todo) a" "act th' = CCheck vs kept todo a" "distinct (kept @ x # todo)"
  shows "del_move th m th' (m\<lparr>freed := f, nodes_del := x # nodes_del m\<rparr>)"
proof (rule del_move_step)
  fix dts :: "del_thread list" and t
  assume t: "t < length dts" "dts ! t = del_th th"
  have "remove1 x (kept @ x # todo) = kept @ todo" using assms(3) by (simp add: remove1_append)
  then have "del_th th' = (del_th th)\<lparr>mine := remove1 x (mine (del_th th))\<rparr>"
    using assms(1,2) by (simp add: del_th_def)
  then show "del_step t (del_sys_of m dts) (del_sys_of (m\<lparr>freed := f, nodes_del := x # nodes_del m\<rparr>) (dts[t := del_th th']))"
    using del_step.delete [of t "del_sys_of m dts" "del_th th" x] t assms(1) by (simp add: del_th_def)
qed

lemma nodes_resume [simp]:
  "nodes_of (resume a) = []" "pushing_of (resume a) = None" "\<not> counting_of (resume a)"
  by (cases a; simp)+

lemma store_own_dmoves:
  "nodes_of a = nodes_of (act th) \<Longrightarrow> pushing_of a = pushing_of (act th) \<Longrightarrow> counting_of a = counting_of (act th) \<Longrightarrow>
   dmoves th m (store_own i v a th m)"
  by (auto simp: store_own_def put_slot_def arr_set_def intro!: del_move_idle split: pool_pc.split)

lemma ctor_dmoves: "act th = Ctor \<Longrightarrow> dmoves th m (ctor_step th m)"
proof -
  assume a: "act th = Ctor"
  have "nodes_of (case pc of Outside \<Rightarrow> NoContext | Owner ix \<Rightarrow> Init 0 | _ \<Rightarrow> Ctor) = []"
    "pushing_of (case pc of Outside \<Rightarrow> NoContext | Owner ix \<Rightarrow> Init 0 | _ \<Rightarrow> Ctor) = None"
    "counting_of (case pc of Outside \<Rightarrow> NoContext | Owner ix \<Rightarrow> Init 0 | _ \<Rightarrow> Ctor) = False" for pc by (cases pc; simp)+
  then show ?thesis using a
    by (auto intro!: del_move_idle simp del: reserve_step.simps split: pool_pc.split prod.split)
qed

lemma release_act_dmoves: "act th = Releasing \<Longrightarrow> dmoves th m (release_act th m)"
  by (auto simp: put_slot_def arr_set_def intro!: del_move_idle simp del: release_step.simps split: pool_pc.split prod.split)

lemma check_dmoves: "act th = RCheck vs i \<Longrightarrow> dmoves th m (check_step R vs i th m)"
  by (cases "compact (R + 2) (dels th) 0 (dec_size R)")
    (auto simp: arr_get_def arr_set_def search_snapshot_of intro!: del_move_idle)

lemma collect_dmoves:
  "act th = CCheck vs kept todo a \<Longrightarrow> distinct (kept @ todo) \<Longrightarrow> dmoves th m (collect_step vs kept todo a th m)"
  by (cases todo) (auto simp: search_snapshot_of intro!: del_move_idle del_move_delete)

lemma run_dmoves:
  assumes "distinct (nodes_of (act th))"
  shows "dmoves th m (run_step R (act th) th m)"
proof (cases "act th")
  case (RSnap k vs)
  then show ?thesis by (auto simp: Let_def intro!: del_move_idle)
next
  case (CSnap xs k vs a)
  then show ?thesis by (auto simp: Let_def intro!: del_move_idle)
next
  case (Storing i v)
  then show ?thesis using store_own_dmoves by simp
next
  case (Init i)
  then show ?thesis using store_own_dmoves [of "Init (Suc i)" th] by (auto intro: del_move_idle)
next
  case (Dropping i)
  then show ?thesis using store_own_dmoves [of "Dropping (Suc i)" th]
    by (auto intro!: del_move_idle split: pool_pc.split)
next
  case (Flush i dtor)
  then show ?thesis by (auto simp: arr_get_def intro!: del_move_idle)
next
  case (CBack xs a)
  then show ?thesis using del_move_start by (cases xs) (auto intro!: del_move_idle)
next
  case (CCheck vs kept todo a)
  then show ?thesis using collect_dmoves assms by (simp del: collect_step.simps)
next
  case (Pushing x pc nx)
  then show ?thesis using del_move_push [OF Pushing, of m] by (simp add: dmoves_def split: prod.splits del: push_act.simps)
next
  case (Counting nx)
  then show ?thesis using del_move_incr by simp
next
  case (KTest d a)
  then show ?thesis by (auto intro!: del_move_idle)
next
  case (KCas dc a)
  then show ?thesis using del_move_reset [of "th\<lparr>act := KTest ok a\<rparr>" th m for ok]
    by (auto simp: atomic_compare_exchange_def intro!: del_move_idle)
qed (use ctor_dmoves release_act_dmoves check_dmoves in
  \<open>simp_all add: del_move_idle del: ctor_step.simps release_act.simps check_step.simps split: prod.splits\<close>)

lemma op_step_dmoves:
  assumes "distinct (nodes_of (act th))"
  shows "dmoves th m (op_step R op th m)"
proof (cases op)
  case (StoreHp i v)
  then show ?thesis using store_own_dmoves [of Idle th] by (auto intro!: del_move_idle)
next
  case (DeleteItem p)
  then show ?thesis by (auto simp: arr_set_def Let_def intro!: del_move_idle)
next
  case Run
  then show ?thesis using run_dmoves [OF assms] by simp
next
  case (NewNode x)
  then show ?thesis
    by (auto simp: arr_get_def arr_set_def intro!: del_move_create intro: del_move_idle split: haz_act.split)
next
  case (TakeList xs)
  then show ?thesis by (auto intro!: del_move_idle del_move_take split: haz_act.split)
qed (auto intro!: del_move_idle)

lemma del_reach_steps: "(del_step t)\<^sup>*\<^sup>* d d' \<Longrightarrow> del_reach n d \<Longrightarrow> del_reach n d'"
  by (induction rule: rtranclp_induct) (auto intro: del_reach.step)

lemma del_reach_nodes:
  assumes "del_reach n d" "t < length (dthreads d)"
  shows "distinct (mine (dthreads d ! t))" "x \<in> set (mine (dthreads d ! t)) \<Longrightarrow> x \<in># mset (made d) - mset (gone d)"
    "mset (gone d) \<subseteq># mset (made d)"
proof -
  from del_reach_ok [OF assms(1)] obtain xs where ok: "del_ok d xs" ..
  have "held (dthreads d ! t) \<subseteq># all_held d"
    using held_update_minus [OF assms(2) refl, of "held (dthreads d ! t)" "\<lparr>mine = [], pushing = None, counting = False\<rparr>"]
    by (simp add: held_def)
  moreover have "mset (mine (dthreads d ! t)) \<subseteq># held (dthreads d ! t)" by (simp add: held_def)
  ultimately have sub: "mset (mine (dthreads d ! t)) \<subseteq># all_held d" by (rule subset_mset.order_trans [rotated])
  have "count (mset (mine (dthreads d ! t))) y \<le> 1" for y
    using mset_subset_eq_count [OF sub, of y] del_okD(3) [OF ok, of y] by simp
  then show "distinct (mine (dthreads d ! t))" by (simp add: distinct_count_le)
  show "mset (gone d) \<subseteq># mset (made d)" using del_okD(2) [OF ok] by simp
  assume "x \<in> set (mine (dthreads d ! t))"
  then have "x \<in># all_held d" using sub by (metis mset_subset_eqD set_mset_mset)
  moreover have "mset (made d) - mset (gone d) = mset xs + all_held d" using del_okD(2) [OF ok] by simp
  ultimately show "x \<in># mset (made d) - mset (gone d)" by simp
qed

lemma del_of_step:
  assumes "t < length (hthreads s)" "del_move (hthreads s ! t) (hmem s) th m" "del_reach n (del_of s)"
    and s': "s' = \<lparr>hmem = m, hthreads = (hthreads s)[t := th]\<rparr>"
  shows "del_reach n (del_of s')"
proof (rule del_reach_steps [OF _ assms(3)])
  show "(del_step t)\<^sup>*\<^sup>* (del_of s) (del_of s')"
    using assms(1,2) unfolding del_of_def s' del_move_def by (simp add: map_update)
qed

lemma haz_reach_del: "haz_reach n S R s \<Longrightarrow> del_reach n (del_of s)"
proof (induction rule: haz_reach.induct)
  case init
  have "del_of (haz_init n S R) = del_init n" by (simp add: del_of_def haz_init_def del_init_def del_sys_of_def del_th_def)
  then show ?case by (metis del_reach.init)
next
  case (step s op t s')
  from step(3) show ?case
  proof (cases rule: haz_stepE)
    case (step th m)
    have "distinct (nodes_of (act (hthreads s ! t)))"
      using del_reach_nodes(1) [OF step.IH, of t] step(1) by (simp add: del_of_def del_th_def)
    from op_step_dmoves [OF this, of "hmem s" R op] step(2) have "del_move (hthreads s ! t) (hmem s) th m" by simp
    from del_of_step [OF step(1) this step.IH step(3)] show ?thesis .
  qed (use step(4) in simp)
qed

lemma haz_nodes:
  assumes "haz_reach n S R s"
  shows "t < length (hthreads s) \<Longrightarrow> distinct (nodes_of (act (hthreads s ! t)))"
    "t < length (hthreads s) \<Longrightarrow> x \<in> set (nodes_of (act (hthreads s ! t))) \<Longrightarrow>
       x \<in># mset (nodes_new (hmem s)) - mset (nodes_del (hmem s))"
    "t < length (hthreads s) \<Longrightarrow> mset (nodes_del (hmem s)) \<subseteq># mset (nodes_new (hmem s))"
  using del_reach_nodes [OF haz_reach_del [OF assms], of t] by (simp_all add: del_of_def del_th_def)

text \<open>C17: a run of the library is a run of its parts: what the threads do to the pool is a run of the
  pool, with one place of each thread for the block of its context and one for its copying of
  hazard pointers, and what they do to the delete nodes is a run of the delete list.\<close>

theorem library_runs_parts:
  assumes "haz_reach n S R s"
  shows "pool_reach (n + n) S (pool_of s) \<and> del_reach n (del_of s)"
  using haz_reach_pool [OF assms] haz_reach_del [OF assms] by blast

section \<open>Where the objects are\<close>

text \<open>The objects a thread has: those in its array, and one it is about to enqueue.\<close>

fun enq_of :: "haz_act \<Rightarrow> uptr multiset" where
  "enq_of (Enq p) = {#p#}"
| "enq_of _ = {#}"

definition waiting :: "haz_thread \<Rightarrow> uptr multiset" where
  "waiting th = enq_of (act th) + mset (nonnull (dels th))"

text \<open>The objects of the delete nodes, on the list or in the hands of a thread.\<close>

definition listed :: "haz_mem \<Rightarrow> uptr multiset" where
  "listed m = image_mset (pay m) (mset (nodes_new m) - mset (nodes_del m))"

text \<open>
  Every object has an owner, before the step and after it; the nodes have objects, and the nodes
  there are keep theirs.
\<close>

definition balanced :: "haz_thread \<Rightarrow> haz_mem \<Rightarrow> haz_thread \<Rightarrow> haz_mem \<Rightarrow> bool" where
  "balanced th m th' m' \<longleftrightarrow>
     mset (retired m') + (waiting th + listed m + mset (freed m)) = mset (retired m) + (waiting th' + listed m' + mset (freed m')) \<and>
     ((\<forall>x\<in>set (nodes_new m). pay m x \<noteq> nullptr) \<longrightarrow> (\<forall>x\<in>set (nodes_new m'). pay m' x \<noteq> nullptr)) \<and>
     (\<forall>x. x \<in># mset (nodes_new m) - mset (nodes_del m) \<longrightarrow> pay m' x = pay m x)"

definition balances :: "haz_thread \<Rightarrow> haz_mem \<Rightarrow> (haz_thread \<times> haz_mem) res \<Rightarrow> bool" where
  "balances th m r \<longleftrightarrow> (\<forall>th' m'. r = Inr (th', m') \<longrightarrow> balanced th m th' m')"

lemma balances_simps [simp]: "balances th m (Inl f)" "balances th m (Inr (th', m')) = balanced th m th' m'"
  by (simp_all add: balances_def)

lemma balanced_idle:
  assumes "enq_of (act th') = enq_of (act th)" "mset (nonnull (dels th')) = mset (nonnull (dels th))"
    "retired m' = retired m" "freed m' = freed m" "nodes_new m' = nodes_new m" "nodes_del m' = nodes_del m" "pay m' = pay m"
  shows "balanced th m th' m'"
  using assms by (simp add: balanced_def waiting_def listed_def)

lemma listed_add:
  assumes "x \<notin># mset (nodes_new m) - mset (nodes_del m)" "mset (nodes_del m) \<subseteq># mset (nodes_new m)"
  shows "listed (add_node x p m) = add_mset p (listed m)"
proof -
  let ?M = "mset (nodes_new m) - mset (nodes_del m)"
  have "add_mset x (mset (nodes_new m)) - mset (nodes_del m) = add_mset x ?M"
    using assms(2) by (auto simp: mset_subset_eq_exists_conv)
  moreover have "image_mset ((pay m)(x := p)) ?M = image_mset (pay m) ?M"
    using assms(1) by (intro image_mset_cong) auto
  ultimately show ?thesis by (simp add: listed_def add_node_def)
qed

lemma listed_del:
  assumes "x \<in># mset (nodes_new m) - mset (nodes_del m)"
  shows "listed m = add_mset (pay m x) (listed (m\<lparr>freed := f, nodes_del := x # nodes_del m\<rparr>))"
proof -
  let ?M = "mset (nodes_new m) - mset (nodes_del m)"
  have "mset (nodes_new m) - add_mset x (mset (nodes_del m)) = ?M - {#x#}"
    by (metis add_mset_add_single diff_union_swap2 diff_diff_add_mset)
  moreover have "image_mset (pay m) ?M = add_mset (pay m x) (image_mset (pay m) (?M - {#x#}))"
    using assms by (metis image_mset_add_mset insert_DiffM)
  ultimately show ?thesis by (simp add: listed_def)
qed

lemma add_node_fields [simp]:
  "retired (add_node x p m) = retired m" "freed (add_node x p m) = freed m" "nodes_new (add_node x p m) = x # nodes_new m"
  "pay (add_node x p m) = (pay m)(x := p)"
  by (simp_all add: add_node_def)

lemma balanced_node:
  assumes "x \<notin># mset (nodes_new m) - mset (nodes_del m)" "mset (nodes_del m) \<subseteq># mset (nodes_new m)"
    "waiting th = add_mset p (waiting th')" "p \<noteq> nullptr"
  shows "balanced th m th' (add_node x p m)"
  using assms listed_add [OF assms(1,2)] by (auto simp: balanced_def)

lemma enq_resume [simp]: "enq_of (resume a) = {#}" "enq_of (after_push nx) = {#}"
  by (cases a; simp) (cases nx; simp)

lemma store_own_balances: "enq_of a = enq_of (act th) \<Longrightarrow> balances th m (store_own i v a th m)"
  by (auto simp: store_own_def put_slot_def arr_set_def intro!: balanced_idle split: pool_pc.split)

lemma ctor_balances: "act th = Ctor \<Longrightarrow> balances th m (ctor_step th m)"
proof -
  assume a: "act th = Ctor"
  have "enq_of (case pc of Outside \<Rightarrow> NoContext | Owner ix \<Rightarrow> Init 0 | _ \<Rightarrow> Ctor) = {#}" for pc by (cases pc; simp)
  then show ?thesis using a
    by (auto intro!: balanced_idle simp del: reserve_step.simps split: pool_pc.split prod.split)
qed

lemma release_act_balances: "act th = Releasing \<Longrightarrow> balances th m (release_act th m)"
  by (auto simp: put_slot_def arr_set_def intro!: balanced_idle simp del: release_step.simps split: pool_pc.split prod.split)

lemma init_balances:
  assumes "hthread_ok S R th" "act th = Init i"
  shows "balances th m (init_hp_step R i th m)"
  using assms store_own_balances [of "Init (Suc i)" th m i nullptr] by (auto simp: hthread_ok_def intro!: balanced_idle)

lemma check_balances:
  assumes ok: "hthread_ok S R th" and a: "act th = RCheck vs i"
  shows "balances th m (check_step R vs i th m)"
proof -
  have l: "length (dels th) = R" and R: "0 < R" and nn: "i < R \<Longrightarrow> dels th ! i \<noteq> nullptr"
    using ok a by (auto simp: hthread_ok_def)
  show ?thesis
  proof (cases "i < R")
    case True
    have "mset (nonnull (dels th)) = add_mset (dels th ! i) (mset (nonnull ((dels th)[i := nullptr])))"
      using True nn l by (intro nonnull_update) auto
    then have "balanced th m (th\<lparr>act := RCheck vs (Suc i), dels := (dels th)[i := nullptr], dix := d\<rparr>)
        (m\<lparr>freed := dels th ! i # freed m\<rparr>)" for d
      using a by (simp add: balanced_def waiting_def listed_def)
    then show ?thesis using True l nn a by (auto simp: search_snapshot_of intro!: balanced_idle)
  next
    case False
    show ?thesis
    proof (cases "compact (R + 2) (dels th) 0 (dec_size R)")
      case (Inr del)
      have "\<exists>del'. compact (R + 2) (dels th) 0 (dec_size R) = Inr del' \<and> mset del' = mset (dels th) \<and> packed del'"
        using R l by (intro compact_correct) (auto simp: dec_size_def)
      then have "mset (nonnull del) = mset (nonnull (dels th))" using Inr by (intro mset_nonnull) simp
      then show ?thesis using False Inr a by (auto intro!: balanced_idle)
    qed (use False a in \<open>auto intro!: balanced_idle\<close>)
  qed
qed

lemma collect_balances:
  assumes "act th = CCheck vs kept todo a" "\<And>x. x \<in> set (kept @ todo) \<Longrightarrow> x \<in># mset (nodes_new m) - mset (nodes_del m)"
  shows "balances th m (collect_step vs kept todo a th m)"
proof (cases todo)
  case Nil
  then show ?thesis using assms(1) by (auto intro!: balanced_idle)
next
  case (Cons x xs)
  have "balanced th m (th\<lparr>act := CCheck vs kept xs a\<rparr>) (m\<lparr>freed := pay m x # freed m, nodes_del := x # nodes_del m\<rparr>)"
    using listed_del [of x m "pay m x # freed m"] assms Cons by (simp add: balanced_def waiting_def)
  then show ?thesis using Cons assms(1) by (auto simp: search_snapshot_of intro!: balanced_idle)
qed

lemma run_balances:
  assumes "hthread_ok S R th" "\<And>x. x \<in> set (nodes_of (act th)) \<Longrightarrow> x \<in># mset (nodes_new m) - mset (nodes_del m)"
  shows "balances th m (run_step R (act th) th m)"
proof (cases "act th")
  case (RSnap k vs)
  then show ?thesis by (auto simp: Let_def intro!: balanced_idle)
next
  case (CSnap xs k vs a)
  then show ?thesis by (auto simp: Let_def intro!: balanced_idle)
next
  case (Storing i v)
  then show ?thesis using store_own_balances by simp
next
  case (Init i)
  then show ?thesis using init_balances [OF assms(1)] by (simp del: init_hp_step.simps)
next
  case (Dropping i)
  then show ?thesis using store_own_balances [of "Dropping (Suc i)" th]
    by (auto intro!: balanced_idle split: pool_pc.split)
next
  case (RCheck vs i)
  then show ?thesis using check_balances [OF assms(1)] by (simp del: check_step.simps)
next
  case (Flush i dtor)
  then show ?thesis by (auto simp: arr_get_def intro!: balanced_idle)
next
  case (CBack xs a)
  then show ?thesis by (cases xs) (auto intro!: balanced_idle)
next
  case (CCheck vs kept todo a)
  then show ?thesis using collect_balances assms(2) by (simp del: collect_step.simps)
next
  case (Pushing x pc nx)
  then show ?thesis by (auto intro!: balanced_idle split: prod.splits option.splits)
next
  case (KTest d a)
  then show ?thesis by (auto intro!: balanced_idle)
qed (use ctor_balances release_act_balances in
  \<open>simp_all add: balanced_idle del: ctor_step.simps release_act.simps split: prod.splits\<close>)

lemma delete_balances:
  assumes ok: "hthread_ok S R th" "act th = Idle" "p \<noteq> nullptr"
  shows "balances th m (delete_item_step R p th m)"
proof (cases "R > 0")
  case False
  then show ?thesis using assms(2) by (simp add: Let_def balanced_def waiting_def listed_def)
next
  case True
  have k: "packed (dels th)" "dix th = length (nonnull (dels th))" "dix th < length (dels th)"
    using ok True by (simp_all add: hthread_ok_def ready_def)
  from packed_snoc(2) [OF k(1) k(3) [unfolded k(2)] ok(3), folded k(2)]
  show ?thesis using True k ok by (auto simp: Let_def balanced_def waiting_def listed_def hthread_ok_def)
qed

lemma node_balances:
  assumes ok: "hthread_ok S R th"
    and x: "x \<notin># mset (nodes_new m) - mset (nodes_del m)" "mset (nodes_del m) \<subseteq># mset (nodes_new m)"
  shows "balances th m (node_step R x th m)"
proof (cases "act th")
  case (Enq p)
  have "p \<noteq> nullptr" using ok Enq by (simp add: hthread_ok_def)
  with balanced_node [OF x, of th p] show ?thesis using Enq by (simp add: waiting_def)
next
  case (Flush i dtor)
  show ?thesis
  proof (cases "i < length (dels th) \<and> dels th ! i \<noteq> nullptr")
    case True
    then have "mset (nonnull (dels th)) = add_mset (dels th ! i) (mset (nonnull ((dels th)[i := nullptr])))"
      by (intro nonnull_update) simp_all
    with balanced_node [OF x, of th "dels th ! i"] show ?thesis using Flush True by (auto simp: waiting_def balanced_idle)
  qed (use Flush in \<open>auto simp: arr_get_def balanced_idle\<close>)
qed (simp_all add: balanced_idle)

lemma op_step_balances:
  assumes "hthread_ok S R th" "legal S op"
    "\<And>x. x \<in> set (nodes_of (act th)) \<Longrightarrow> x \<in># mset (nodes_new m) - mset (nodes_del m)"
    "mset (nodes_del m) \<subseteq># mset (nodes_new m)"
  shows "balances th m (op_step R op th m)"
proof (cases op)
  case (StoreHp i v)
  then show ?thesis using store_own_balances [of Idle th] by (auto intro!: balanced_idle)
next
  case (DeleteItem p)
  then show ?thesis using delete_balances [OF assms(1)] assms(2) by (auto simp del: delete_item_step.simps intro!: balanced_idle)
next
  case Run
  then show ?thesis using run_balances [OF assms(1,3)] by simp
next
  case (NewNode x)
  then show ?thesis using node_balances [OF assms(1) _ assms(4)]
    by (auto simp del: node_step.simps intro!: balanced_idle)
next
  case (TakeList xs)
  then show ?thesis by (auto intro!: balanced_idle split: haz_act.split)
qed (auto intro!: balanced_idle)

lemma haz_balance:
  "haz_reach n S R s \<Longrightarrow>
   mset (retired (hmem s)) = (\<Sum>th\<leftarrow>hthreads s. waiting th) + listed (hmem s) + mset (freed (hmem s)) \<and>
   (\<forall>x\<in>set (nodes_new (hmem s)). pay (hmem s) x \<noteq> nullptr)"
proof (induction rule: haz_reach.induct)
  case init
  have "(\<Sum>th\<leftarrow>replicate n \<lparr>act = NoContext, blk = Outside, dels = replicate R nullptr, dix = 0\<rparr>. waiting th) = {#}"
    by (induction n) (simp_all add: waiting_def)
  then show ?case by (simp add: haz_init_def listed_def)
next
  case (step s op t s')
  from step(3) show ?case
  proof (cases rule: haz_stepE)
    case (step th m)
    have "hthread_ok S R (hthreads s ! t)" using haz_reach_pool [OF step.hyps(1)] step(1) nth_mem by blast
    from op_step_balances [OF this step.hyps(2) haz_nodes(2,3) [OF step.hyps(1) step(1)]] step(2)
    have b: "balanced (hthreads s ! t) (hmem s) th m" by (metis balances_simps(2))
    have "(\<Sum>th\<leftarrow>hthreads s'. waiting th) + waiting (hthreads s ! t) = (\<Sum>th\<leftarrow>hthreads s. waiting th) + waiting th"
      using sum_list_set [OF step(1), of waiting th] step(3) by simp
    then have "mset (retired m) + (waiting (hthreads s ! t) + listed (hmem s) + mset (freed (hmem s))) =
      ((\<Sum>th\<leftarrow>hthreads s'. waiting th) + listed m + mset (freed m)) + (waiting (hthreads s ! t) + listed (hmem s) + mset (freed (hmem s)))"
      using b step.IH unfolding balanced_def by (simp add: ac_simps)
    then have "mset (retired m) = (\<Sum>th\<leftarrow>hthreads s'. waiting th) + listed m + mset (freed m)" by (rule add_right_imp_eq)
    then show ?thesis using b step.IH step(3) unfolding balanced_def by simp
  qed (use step(4) in simp)
qed

text \<open>C5: in every interleaving, each object handed to \<open>delete_item\<close> is in exactly one place: in the
  array of the context it was deleted in or about to be enqueued by its thread, in a delete node, or
  reclaimed. So none is lost, and none is reclaimed more often than it was deleted.\<close>

theorem objects_conserved:
  assumes "haz_reach n S R s"
  shows "mset (retired (hmem s)) =
      (\<Sum>th\<leftarrow>hthreads s. enq_of (act th) + mset (nonnull (dels th))) +
      image_mset (pay (hmem s)) (mset (nodes_new (hmem s)) - mset (nodes_del (hmem s))) + mset (freed (hmem s)) \<and>
    (distinct (retired (hmem s)) \<longrightarrow> distinct (freed (hmem s)))"
proof -
  have "(\<lambda>th. enq_of (act th) + mset (nonnull (dels th))) = waiting" by (rule ext) (simp add: waiting_def)
  then have e: "mset (retired (hmem s)) =
      (\<Sum>th\<leftarrow>hthreads s. enq_of (act th) + mset (nonnull (dels th))) +
      image_mset (pay (hmem s)) (mset (nodes_new (hmem s)) - mset (nodes_del (hmem s))) + mset (freed (hmem s))"
    using haz_balance [OF assms] by (simp add: listed_def)
  have "distinct (freed (hmem s))" if d: "distinct (retired (hmem s))"
  proof -
    have "count (mset (freed (hmem s))) x \<le> count (mset (retired (hmem s))) x" for x by (simp add: e)
    then show ?thesis using d le_trans unfolding distinct_count_le by blast
  qed
  with e show ?thesis by simp
qed

section \<open>No step fails\<close>











section \<open>A hazard pointer protects\<close>

text \<open>A run of the library during which a property of the state holds throughout.\<close>

inductive haz_run :: "nat \<Rightarrow> nat \<Rightarrow> (haz_sys \<Rightarrow> bool) \<Rightarrow> haz_sys \<Rightarrow> haz_sys \<Rightarrow> bool" for S R P where
  stay: "P s \<Longrightarrow> haz_run S R P s s"
| go: "haz_run S R P s s1 \<Longrightarrow> legal S op \<Longrightarrow> haz_step R op t s1 = Inr s2 \<Longrightarrow> P s2 \<Longrightarrow> haz_run S R P s s2"

text \<open>
  A thread that is about to decide on \<open>p\<close>, from a copy of the hazard pointers that got past the
  slot \<open>j\<close>, has the value \<open>v\<close> of the slot in its copy.
\<close>

fun guarded :: "nat \<Rightarrow> uptr \<Rightarrow> uptr \<Rightarrow> (uptr \<Rightarrow> uptr) \<Rightarrow> uptr list \<Rightarrow> haz_act \<Rightarrow> bool" where
  "guarded j v p f ds (RSnap k vs) \<longleftrightarrow> (p \<in> set ds \<longrightarrow> j < k \<longrightarrow> v \<in> set vs)"
| "guarded j v p f ds (RCheck vs i) \<longleftrightarrow> (p \<in> set ds \<longrightarrow> v \<in> set vs)"
| "guarded j v p f ds (CSnap xs k vs a) \<longleftrightarrow> (p \<in> f ` set xs \<longrightarrow> j < k \<longrightarrow> v \<in> set vs)"
| "guarded j v p f ds (CCheck vs kept todo a) \<longleftrightarrow> (p \<in> f ` set todo \<longrightarrow> v \<in> set vs)"
| "guarded j v p f ds _ \<longleftrightarrow> True"

definition guards :: "nat \<Rightarrow> uptr \<Rightarrow> uptr \<Rightarrow> haz_thread \<Rightarrow> haz_mem \<Rightarrow> (haz_thread \<times> haz_mem) res \<Rightarrow> bool" where
  "guards j v p th m r \<longleftrightarrow> (\<forall>th' m'. r = Inr (th', m') \<longrightarrow>
     guarded j v p (pay m') (dels th') (act th') \<and> count (mset (freed m')) p = count (mset (freed m)) p)"

lemma guards_simps [simp]: "guards j v p th m (Inl f)"
  "guards j v p th m (Inr (th', m')) \<longleftrightarrow>
     guarded j v p (pay m') (dels th') (act th') \<and> count (mset (freed m')) p = count (mset (freed m)) p"
  by (simp_all add: guards_def)

lemma guarded_frame:
  "(\<And>x. x \<in> set (nodes_of a) \<Longrightarrow> f x = g x) \<Longrightarrow> guarded j v p f ds a = guarded j v p g ds a"
  by (cases a) (auto simp: image_iff)

lemma guarded_resume [simp]: "guarded j v p f ds (resume a)" "guarded j v p f ds (after_push nx)"
  by (cases a; simp) (cases nx; simp)

lemma store_own_guards: "(\<And>ds. guarded j v p (pay m) ds a) \<Longrightarrow> guards j v p th m (store_own i w a th m)"
  by (auto simp: store_own_def put_slot_def arr_set_def split: pool_pc.split)

lemma found_masked: "v \<in> set vs \<Longrightarrow> snapshot_search (snapshot_of vs) (v AND mark_bits_maskoff) = Inr True"
  by (simp add: search_snapshot_of)

lemma check_guards:
  assumes "guarded j v p (pay m) (dels th) (act th)" "act th = RCheck vs i" "p = v AND mark_bits_maskoff" "p \<noteq> nullptr"
  shows "guards j v p th m (check_step R vs i th m)"
proof (cases "i < R")
  case True
  have "dels th ! i \<noteq> p" if "i < length (dels th)" "snapshot_search (snapshot_of vs) (dels th ! i) = Inr False"
  proof
    assume "dels th ! i = p"
    then have "v \<in> set vs" using assms(1,2) nth_mem [OF that(1)] by auto
    then show False using that(2) \<open>dels th ! i = p\<close> found_masked [of v vs] assms(3) by simp
  qed
  moreover have "p \<in> set (dels th)" if "p \<in> set ((dels th)[i := nullptr])"
    using that set_update_subset_insert [of "dels th" i nullptr] assms(4) by blast
  ultimately show ?thesis using True assms(1,2)
    by (cases "i < length (dels th)") (auto simp: search_snapshot_of)
next
  case False
  then show ?thesis by (cases "compact (R + 2) (dels th) 0 (dec_size R)") auto
qed

lemma collect_guards:
  assumes "guarded j v p (pay m) (dels th) (act th)" "act th = CCheck vs kept todo a" "p = v AND mark_bits_maskoff"
  shows "guards j v p th m (collect_step vs kept todo a th m)"
proof (cases todo)
  case (Cons x xs)
  have "pay m x \<noteq> p" if "snapshot_search (snapshot_of vs) (pay m x) = Inr False"
    using that assms Cons found_masked [of v vs] by auto
  then show ?thesis using Cons assms(1,2) by (auto simp: search_snapshot_of)
qed simp

lemma run_guards:
  assumes g: "guarded j v p (pay m) (dels th) (act th)" and p: "p = v AND mark_bits_maskoff" "p \<noteq> nullptr"
    and j: "haz_ptrs (hpool m) ! j = v" "j < pool_count (hpool m)"
  shows "guards j v p th m (run_step R (act th) th m)"
proof -
  have v: "v \<noteq> nullptr" using p by auto
  show ?thesis
  proof (cases "act th")
    case (RSnap k vs)
    then show ?thesis using g j v by (auto simp: Let_def less_Suc_eq)
  next
    case (CSnap xs k vs a)
    then show ?thesis using g j v by (auto simp: Let_def less_Suc_eq)
  next
    case (Storing i w)
    then show ?thesis using store_own_guards by simp
  next
    case (Init i)
    then show ?thesis using store_own_guards [of j v p m "Init (Suc i)"] by simp
  next
    case (Dropping i)
    then show ?thesis using store_own_guards [of j v p m "Dropping (Suc i)"] by (auto split: pool_pc.split)
  next
    case (RCheck vs i)
    then show ?thesis using check_guards [OF g _ p] by (simp del: check_step.simps)
  next
    case (CCheck vs kept todo a)
    then show ?thesis using collect_guards [OF g _ p(1)] by (simp del: collect_step.simps)
  next
    case (Flush i dtor)
    then show ?thesis by (auto simp: arr_get_def)
  next
    case (CBack xs a)
    then show ?thesis by (cases xs) auto
  next
    case (Pushing x pc nx)
    then show ?thesis by (auto split: prod.splits option.splits)
  next
    case Ctor
    have "guarded j v p f ds (case pc of Outside \<Rightarrow> NoContext | Owner ix \<Rightarrow> Init 0 | _ \<Rightarrow> Ctor)" for f ds pc
      by (cases pc) simp_all
    then show ?thesis using Ctor by (auto simp del: reserve_step.simps split: pool_pc.split prod.split)
  next
    case Releasing
    then show ?thesis
      by (auto simp: put_slot_def arr_set_def simp del: release_step.simps split: pool_pc.split prod.split)
  qed (auto split: prod.split)
qed

lemma op_step_guards:
  assumes g: "guarded j v p (pay m) (dels th) (act th)" and p: "p = v AND mark_bits_maskoff" "p \<noteq> nullptr"
    and j: "haz_ptrs (hpool m) ! j = v" "j < pool_count (hpool m)"
  shows "guards j v p th m (op_step R op th m)"
proof (cases op)
  case (StoreHp i w)
  then show ?thesis using g store_own_guards [of j v p m Idle] by auto
next
  case (DeleteItem q)
  then show ?thesis using g by (auto simp: arr_set_def Let_def)
next
  case Run
  then show ?thesis using run_guards [OF assms] by simp
next
  case (NewNode x)
  then show ?thesis using g by (cases "act th") (auto simp: arr_get_def arr_set_def)
next
  case (TakeList xs)
  then show ?thesis using g by (cases "act th") auto
qed (use g in auto)


text \<open>All threads of a state, and a step of one of them.\<close>

definition all_guarded :: "nat \<Rightarrow> uptr \<Rightarrow> uptr \<Rightarrow> haz_sys \<Rightarrow> bool" where
  "all_guarded j v p s \<longleftrightarrow> (\<forall>t < length (hthreads s). guarded j v p (pay (hmem s)) (dels (hthreads s ! t)) (act (hthreads s ! t)))"

lemma haz_step_guards:
  assumes r: "haz_reach n S R s" and g: "all_guarded j v p s" and p: "p = v AND mark_bits_maskoff" "p \<noteq> nullptr"
    and j: "haz_ptrs (hpool (hmem s)) ! j = v" "j < S * 32" and l: "legal S op" and st: "haz_step R op t s = Inr s'"
  shows "all_guarded j v p s' \<and> count (mset (freed (hmem s'))) p = count (mset (freed (hmem s))) p"
  using st
proof (cases rule: haz_stepE)
  case (step th m)
  have gt: "guarded j v p (pay (hmem s)) (dels (hthreads s ! t)) (act (hthreads s ! t))"
    using g step(1) by (simp add: all_guarded_def)
  have j': "j < pool_count (hpool (hmem s))" using j(2) haz_pool_facts(3) [OF r] by simp
  from op_step_guards [OF gt p j(1) j', of R op] step(2)
  have own: "guarded j v p (pay m) (dels th) (act th)" "count (mset (freed m)) p = count (mset (freed (hmem s))) p"
    by simp_all
  have "hthread_ok S R (hthreads s ! t)" using haz_reach_pool [OF r] step(1) nth_mem by blast
  from op_step_balances [OF this l haz_nodes(2,3) [OF r step(1)]] step(2)
  have "balanced (hthreads s ! t) (hmem s) th m" by (metis balances_simps(2))
  then have pf: "pay m x = pay (hmem s) x" if "x \<in># mset (nodes_new (hmem s)) - mset (nodes_del (hmem s))" for x
    using that by (simp add: balanced_def)
  have "guarded j v p (pay m) (dels (hthreads s ! u)) (act (hthreads s ! u))" if u: "u < length (hthreads s)" for u
    using guarded_frame [of "act (hthreads s ! u)" "pay m" "pay (hmem s)"] pf haz_nodes(2) [OF r u] g u
    by (simp add: all_guarded_def)
  then have "all_guarded j v p s'" using own(1) step(1,3) by (simp add: all_guarded_def nth_list_update)
  then show ?thesis using own(2) step(3) by simp
qed (use g in simp)

lemma haz_run_guards:
  assumes "haz_run S R (\<lambda>s. haz_ptrs (hpool (hmem s)) ! j = v) s0 s" "haz_reach n S R s0" "all_guarded j v p s0"
    "p = v AND mark_bits_maskoff" "p \<noteq> nullptr" "j < S * 32"
  shows "haz_reach n S R s \<and> all_guarded j v p s \<and> count (mset (freed (hmem s))) p = count (mset (freed (hmem s0))) p"
  using assms
proof (induction rule: haz_run.induct)
  case (go s0 s1 op t s2)
  have v: "haz_ptrs (hpool (hmem s1)) ! j = v" using go.hyps(1) by (cases rule: haz_run.cases) simp_all
  have i: "haz_reach n S R s1 \<and> all_guarded j v p s1 \<and> count (mset (freed (hmem s1))) p = count (mset (freed (hmem s0))) p"
    using go.IH go.prems by simp
  from haz_step_guards [OF i [THEN conjunct1] _ go.prems(3,4) v go.prems(5) go.hyps(2,3)] i
  show ?case using haz_reach.step [OF i [THEN conjunct1] go.hyps(2,3)] by simp
qed simp

text \<open>Nobody is about to decide on an object that is not waiting to be reclaimed.\<close>

lemma not_waiting_guarded:
  assumes r: "haz_reach n S R s" and c: "count (mset (retired (hmem s))) p = count (mset (freed (hmem s))) p"
    and p: "p \<noteq> nullptr"
  shows "all_guarded j v p s"
  unfolding all_guarded_def
proof (intro allI impI)
  fix t assume t: "t < length (hthreads s)"
  have z: "p \<notin># (\<Sum>th\<leftarrow>hthreads s. waiting th)" "p \<notin># listed (hmem s)"
    using haz_balance [OF r] c by (simp_all only: not_in_iff count_union)
  then have "p \<notin># waiting (hthreads s ! t)" using t nth_mem unfolding in_sum_list by blast
  moreover have "pay (hmem s) x \<noteq> p" if "x \<in> set (nodes_of (act (hthreads s ! t)))" for x
    using haz_nodes(2) [OF r t that] z(2) by (auto simp: listed_def)
  moreover have "p \<in> set (dels (hthreads s ! t)) \<Longrightarrow> p \<in># waiting (hthreads s ! t)"
    using p by (simp add: waiting_def nonnull_def)
  ultimately show "guarded j v p (pay (hmem s)) (dels (hthreads s ! t)) (act (hthreads s ! t))"
    by (cases "act (hthreads s ! t)") auto
qed

text \<open>C4: a hazard pointer protects: while a hazard pointer of the pool holds an object (with or without
  mark) that was not waiting to be reclaimed when the pointer was set, the object is not reclaimed,
  whatever the threads do meanwhile, the deletion of the object, the creation and destruction of
  contexts and concurrent collections included.\<close>

theorem hazard_protects:
  assumes "haz_reach n S R s0" "count (mset (retired (hmem s0))) p = count (mset (freed (hmem s0))) p"
    and "haz_run S R (\<lambda>s. haz_ptrs (hpool (hmem s)) ! j = v) s0 s" "j < S * 32"
    and "p = v AND mark_bits_maskoff" "p \<noteq> nullptr"
  shows "count (mset (freed (hmem s))) p = count (mset (freed (hmem s0))) p"
  using haz_run_guards [OF assms(3,1) not_waiting_guarded [OF assms(1,2,6)] assms(5,6,4)] by blast

section \<open>Runs\<close>

fun haz_exec :: "nat \<Rightarrow> (nat \<times> haz_op) list \<Rightarrow> haz_sys \<Rightarrow> haz_sys res" where
  "haz_exec R [] s = Inr s"
| "haz_exec R ((t, op) # ops) s = bind_r (haz_step R op t s) (haz_exec R ops)"

lemma haz_exec_reach:
  "haz_exec R ops s = Inr s' \<Longrightarrow> \<forall>(t, op)\<in>set ops. legal S op \<Longrightarrow> haz_reach n S R s \<Longrightarrow> haz_reach n S R s'"
proof (induction ops arbitrary: s)
  case (Cons o1 ops)
  obtain t op where o: "o1 = (t, op)" by fastforce
  with Cons.prems(1) obtain s1 where s1: "haz_step R op t s = Inr s1" "haz_exec R ops s1 = Inr s'"
    by (auto simp: bind_r_Inr_iff)
  have "haz_reach n S R s1" using Cons.prems(2,3) o s1(1) by (auto intro: haz_reach.step)
  then show ?case using Cons.IH s1(2) Cons.prems(2) by simp
qed simp

lemma haz_run_reach: "haz_run S R P s s' \<Longrightarrow> haz_reach n S R s \<Longrightarrow> haz_reach n S R s'"
  by (induction rule: haz_run.induct) (auto intro: haz_reach.step)

text \<open>A run during which a property holds after each step.\<close>

fun haz_exec_with :: "(haz_sys \<Rightarrow> bool) \<Rightarrow> nat \<Rightarrow> (nat \<times> haz_op) list \<Rightarrow> haz_sys \<Rightarrow> haz_sys res" where
  "haz_exec_with P R [] s = Inr s"
| "haz_exec_with P R ((t, op) # ops) s =
     bind_r (haz_step R op t s) (\<lambda>s. if P s then haz_exec_with P R ops s else Inl AssertFail)"

lemma haz_exec_run:
  "haz_exec_with P R ops s = Inr s' \<Longrightarrow> \<forall>(t, op)\<in>set ops. legal S op \<Longrightarrow> haz_run S R P s0 s \<Longrightarrow> haz_run S R P s0 s'"
proof (induction ops arbitrary: s)
  case (Cons o1 ops)
  obtain t op where o: "o1 = (t, op)" by fastforce
  with Cons.prems(1) obtain s1 where s1: "haz_step R op t s = Inr s1" "P s1" "haz_exec_with P R ops s1 = Inr s'"
    by (auto simp: bind_r_Inr_iff split: if_splits)
  have "haz_run S R P s0 s1" using Cons.prems(2,3) o s1(1,2) by (auto intro: haz_run.go)
  then show ?case using Cons.IH s1(3) Cons.prems(2) by simp
qed simp

text \<open>Two threads create contexts with one hazard pointer and an array of one entry.\<close>

definition two_contexts :: "(nat \<times> haz_op) list" where
  "two_contexts = (0, NewContext) # replicate 3 (0, Run) @ (1, NewContext) # replicate 3 (1, Run)"

text \<open>
  The first one protects an object with its hazard pointer. The second one deletes the object, finds
  it protected, passes it on to the domain in the delete node 8, and collects; it puts the node back.
\<close>

definition protect_16 :: "(nat \<times> haz_op) list" where
  "protect_16 = two_contexts @ [(0, StoreHp 0 16)]"

definition delete_16 :: "(nat \<times> haz_op) list" where
  "delete_16 = (1, DeleteItem 16) # replicate 35 (1, Run) @ (1, NewNode 8) # replicate 6 (1, Run) @
     (1, Collect) # (1, TakeList [8]) # replicate 41 (1, Run)"

definition holds_16 :: "haz_sys \<Rightarrow> bool" where
  "holds_16 s \<longleftrightarrow> haz_ptrs (hpool (hmem s)) ! 0 = 16"

definition counts :: "haz_sys res \<Rightarrow> uptr list \<Rightarrow> uptr list \<Rightarrow> uptr list \<Rightarrow> bool" where
  "counts r rs ns fs = (case r of Inl f \<Rightarrow> False | Inr s \<Rightarrow>
     holds_16 s \<and> retired (hmem s) = rs \<and> nodes_new (hmem s) = ns \<and> freed (hmem s) = fs \<and> act (hthreads s ! 1) = Idle)"

lemma protect_run: "counts (haz_exec 1 protect_16 (haz_init 2 1 1)) [] [] []"
  by code_simp

lemma delete_run: "counts (bind_r (haz_exec 1 protect_16 (haz_init 2 1 1)) (haz_exec_with holds_16 1 delete_16)) [16] [8] []"
  by code_simp

lemma countsE:
  assumes "counts r rs ns fs"
  obtains s where "r = Inr s" "holds_16 s" "retired (hmem s) = rs" "nodes_new (hmem s) = ns" "freed (hmem s) = fs"
  using assms by (cases r) (auto simp: counts_def)

lemma protected_run:
  obtains s0 s where "haz_reach 2 1 1 s0" "retired (hmem s0) = []" "freed (hmem s0) = []"
    "haz_run 1 1 (\<lambda>s. haz_ptrs (hpool (hmem s)) ! 0 = 16) s0 s" "haz_reach 2 1 1 s" "retired (hmem s) = [16]" "nodes_new (hmem s) = [8]"
proof -
  obtain s0 where s0: "haz_exec 1 protect_16 (haz_init 2 1 1) = Inr s0" "holds_16 s0" "retired (hmem s0) = []" "freed (hmem s0) = []"
    using protect_run by (rule countsE)
  have "\<forall>(t, op)\<in>set protect_16. legal 1 op" by (simp add: protect_16_def two_contexts_def)
  from haz_exec_reach [OF s0(1) this haz_reach.init] have r0: "haz_reach 2 1 1 s0" .
  have "counts (haz_exec_with holds_16 1 delete_16 s0) [16] [8] []" using delete_run s0(1) by simp
  then obtain s where s: "haz_exec_with holds_16 1 delete_16 s0 = Inr s" "retired (hmem s) = [16]" "nodes_new (hmem s) = [8]"
    by (rule countsE)
  have l: "\<forall>(t, op)\<in>set delete_16. legal 1 op" by (simp add: delete_16_def)
  have h: "holds_16 = (\<lambda>s. haz_ptrs (hpool (hmem s)) ! 0 = 16)" by (rule ext) (simp add: holds_16_def)
  have "haz_run 1 1 holds_16 s0 s0" using s0(2) by (rule haz_run.stay)
  from haz_exec_run [OF s(1) l this] have "haz_run 1 1 (\<lambda>s. haz_ptrs (hpool (hmem s)) ! 0 = 16) s0 s" unfolding h .
  moreover from haz_run_reach [OF this r0] have "haz_reach 2 1 1 s" .
  ultimately show ?thesis using that r0 s0 s by blast
qed

lemma hazard_protects_witness:
  "\<exists>s. haz_reach 2 1 1 s \<and> retired (hmem s) = [16] \<and> count (mset (freed (hmem s))) 16 = 0"
proof -
  obtain s0 s where r: "haz_reach 2 1 1 s0" "retired (hmem s0) = []" "freed (hmem s0) = []"
    "haz_run 1 1 (\<lambda>s. haz_ptrs (hpool (hmem s)) ! 0 = 16) s0 s" "haz_reach 2 1 1 s" "retired (hmem s) = [16]"
    using protected_run by metis
  have "(16::uptr) = 16 AND mark_bits_maskoff" by code_simp
  from hazard_protects [OF r(1) _ r(4) _ this] r(2,3) have "count (mset (freed (hmem s))) 16 = 0" by simp
  with r(5,6) show ?thesis by blast
qed

lemma objects_conserved_witness:
  "\<exists>s. haz_reach 2 1 1 s \<and> retired (hmem s) = [16] \<and> distinct (freed (hmem s)) \<and>
    {#16#} = (\<Sum>th\<leftarrow>hthreads s. enq_of (act th) + mset (nonnull (dels th))) +
      image_mset (pay (hmem s)) ({#8#} - mset (nodes_del (hmem s))) + mset (freed (hmem s))"
proof -
  obtain s0 s where r: "haz_reach 2 1 1 s" "retired (hmem s) = [16]" "nodes_new (hmem s) = [8]"
    using protected_run by metis
  from objects_conserved [OF r(1)] r show ?thesis by (intro exI [of _ s]) simp
qed

lemma library_runs_parts_witness:
  "\<exists>s. retired (hmem s) = [16] \<and> pool_reach 4 1 (pool_of s) \<and> del_reach 2 (del_of s)"
proof -
  obtain s0 s where r: "haz_reach 2 1 1 s" "retired (hmem s) = [16]" using protected_run by metis
  from library_runs_parts [OF r(1)] r show ?thesis by (intro exI [of _ s]) simp
qed






end
