(* ===== verification/NewPool.thy ===== *)
theory NewPool
  imports LockFree
begin

text \<open>
  Threads that create pools at the same time (\<open>hazptr_domain::pools_new\<close>): each links its pool with
  the lock-free push and then adds the pool's size to \<open>hp_count\<close>, which is a plain \<open>int\<close>: a load
  and a store, between which other threads run.
\<close>

section \<open>The steps\<close>

text \<open>In the loop, before the load of \<open>hp_count\<close>, before its store with the value read, returned.\<close>

datatype new_pc = NLoop push_pc | NLoad | NStore int | NDone

text \<open>The threads, each with the address of the pool it allocated.\<close>

record new_sys =
  nmem :: "uptr pmem"
  nhp_count :: int
  nthreads :: "(uptr \<times> new_pc) list"

fun pools_new_step :: "int \<Rightarrow> nat \<Rightarrow> new_sys \<Rightarrow> new_sys" where
  "pools_new_step cnt t s =
     (case nthreads s ! t of
        (x, NLoop pc) \<Rightarrow>
          (case push_step (\<lambda>w. w) (\<lambda>w p. p) atomic_compare_exchange x pc (nmem s) of
             (Some pc', m) \<Rightarrow> s\<lparr>nmem := m, nthreads := (nthreads s)[t := (x, NLoop pc')]\<rparr>
           | (None, m) \<Rightarrow> s\<lparr>nmem := m, nthreads := (nthreads s)[t := (x, NLoad)]\<rparr>)
      | (x, NLoad) \<Rightarrow> s\<lparr>nthreads := (nthreads s)[t := (x, NStore (nhp_count s))]\<rparr>
      | (x, NStore v) \<Rightarrow> s\<lparr>nhp_count := v + cnt, nthreads := (nthreads s)[t := (x, NDone)]\<rparr>
      | (x, NDone) \<Rightarrow> s)"

definition new_init :: "uptr list \<Rightarrow> new_sys" where
  "new_init xs = \<lparr>nmem = \<lparr>top = nullptr, link = (\<lambda>_. nullptr)\<rparr>, nhp_count = 0,
     nthreads = map (\<lambda>x. (x, NLoop PLoad)) xs\<rparr>"

inductive new_reach :: "int \<Rightarrow> uptr list \<Rightarrow> new_sys \<Rightarrow> bool" for cnt xs where
  init: "new_reach cnt xs (new_init xs)"
| step: "new_reach cnt xs s \<Longrightarrow> t < length (nthreads s) \<Longrightarrow> new_reach cnt xs (pools_new_step cnt t s)"

section \<open>The invariant\<close>

fun linked_pc :: "new_pc \<Rightarrow> bool" where
  "linked_pc (NLoop pc) = False"
| "linked_pc _ = True"

definition linked :: "new_sys \<Rightarrow> uptr multiset" where
  "linked s = (\<Sum>(x, pc)\<leftarrow>nthreads s. if linked_pc pc then {#x#} else {#})"

definition finished :: "new_sys \<Rightarrow> int" where
  "finished s = (\<Sum>(x, pc)\<leftarrow>nthreads s. if pc = NDone then 1 else 0)"

definition new_ok :: "int \<Rightarrow> uptr list \<Rightarrow> new_sys \<Rightarrow> uptr list \<Rightarrow> bool" where
  "new_ok cnt ps s xs \<longleftrightarrow> map fst (nthreads s) = ps \<and> chain (\<lambda>w. w) (link (nmem s)) (top (nmem s)) xs \<and>
     mset xs = linked s \<and> nhp_count s \<le> cnt * finished s \<and>
     (\<forall>t < length (nthreads s). \<forall>x v. nthreads s ! t = (x, NStore v) \<longrightarrow> v \<le> cnt * finished s)"

lemma linked_update:
  assumes "t < length (nthreads s)" "nthreads s ! t = (x, pc)" "nthreads s' = (nthreads s)[t := (x, pc')]"
  shows "linked s' + (if linked_pc pc then {#x#} else {#}) = linked s + (if linked_pc pc' then {#x#} else {#})"
  using sum_list_set [OF assms(1), of "\<lambda>(x, pc). if linked_pc pc then {#x#} else {#}" "(x, pc')"] assms(2,3)
  by (simp add: linked_def)

lemma finished_update:
  assumes "t < length (nthreads s)" "nthreads s ! t = (x, pc)" "nthreads s' = (nthreads s)[t := (x, pc')]"
  shows "finished s' + (if pc = NDone then 1 else 0) = finished s + (if pc' = NDone then 1 else 0)"
  using sum_list_set [OF assms(1), of "\<lambda>(x, pc). if pc = NDone then 1 else (0::int)" "(x, pc')"] assms(2,3)
  by (simp add: finished_def)

lemma names_update:
  "t < length (nthreads s) \<Longrightarrow> nthreads s ! t = (x, pc) \<Longrightarrow> map fst ((nthreads s)[t := (x, pc')]) = map fst (nthreads s)"
  by (simp add: map_update list_update_same_conv)

text \<open>The pool of a thread that is still in the loop is not linked.\<close>

lemma not_linked:
  assumes "distinct (map fst (nthreads s))" "t < length (nthreads s)" "nthreads s ! t = (x, NLoop pc)"
  shows "x \<notin># linked s"
proof
  assume "x \<in># linked s"
  then obtain pc' where p: "(x, pc') \<in> set (nthreads s)" "linked_pc pc'"
    by (auto simp: linked_def in_sum_list split: if_splits)
  moreover have "(x, NLoop pc) \<in> set (nthreads s)" using assms(2,3) by (metis nth_mem)
  ultimately have "pc' = NLoop pc" using assms(1) inj_onD [of fst "set (nthreads s)" "(x, pc')" "(x, NLoop pc)"]
    by (simp add: distinct_map)
  with p(2) show False by simp
qed

lemma count_keep:
  assumes "new_ok cnt ps s xs" "0 \<le> cnt" "t < length (nthreads s)" "nthreads s ! t = (x, pc)"
    "nthreads s' = (nthreads s)[t := (x, pc')]" "pc \<noteq> NDone"
    and "nhp_count s' \<le> cnt * finished s'" "\<And>v. pc' = NStore v \<Longrightarrow> v \<le> cnt * finished s'"
  shows "\<forall>u < length (nthreads s'). \<forall>x v. nthreads s' ! u = (x, NStore v) \<longrightarrow> v \<le> cnt * finished s'"
proof (intro allI impI)
  fix u y v assume u: "u < length (nthreads s')" "nthreads s' ! u = (y, NStore v)"
  have "finished s \<le> finished s'" using finished_update [OF assms(3-5)] assms(6) by (simp split: if_splits)
  then have le: "cnt * finished s \<le> cnt * finished s'" using assms(2) by (rule mult_left_mono)
  show "v \<le> cnt * finished s'"
  proof (cases "u = t")
    case True
    then show ?thesis using u assms(3,5,8) by simp
  next
    case False
    then have "v \<le> cnt * finished s" using u assms(1,5) by (auto simp: new_ok_def)
    with le show ?thesis by simp
  qed
qed

lemma new_step_ok:
  assumes ok: "new_ok cnt ps s xs" and ps: "distinct ps" "nullptr \<notin> set ps" and c: "0 \<le> cnt" and t: "t < length (nthreads s)"
  shows "\<exists>xs'. new_ok cnt ps (pools_new_step cnt t s) xs'"
proof -
  obtain x pc where p: "nthreads s ! t = (x, pc)" by (cases "nthreads s ! t")
  note d = ok [unfolded new_ok_def]
  show ?thesis
  proof (cases pc)
    case (NLoop q)
    obtain r m where st: "push_step (\<lambda>w. w) (\<lambda>w p. p) atomic_compare_exchange x q (nmem s) = (r, m)"
      by (cases "push_step (\<lambda>w. w) (\<lambda>w p. p) atomic_compare_exchange x q (nmem s)")
    have "x \<in> set ps" using d p t by (metis fst_conv in_set_conv_nth length_map nth_map)
    then have x: "x \<notin> set xs" "x \<noteq> nullptr"
      using not_linked [of s t x q] ps d p t NLoop by (auto simp flip: set_mset_mset)
    have "raw.pc_ok q" "raw.mem_ok (nmem s)" by (cases q) (simp_all add: raw.pc_ok_def raw.mem_ok_def)
    moreover have "chain (\<lambda>w. w) (link (nmem s)) (top (nmem s)) xs" using d by blast
    ultimately have ps': "r = Some q' \<Longrightarrow> chain (\<lambda>w. w) (link m) (top m) xs" "r = None \<Longrightarrow> chain (\<lambda>w. w) (link m) (top m) (x # xs)" for q'
      using raw.push_step_ok(3,4) [OF _ _ x TrueI _ st] by blast+
    show ?thesis
    proof (cases r)
      case (Some q')
      let ?s = "s\<lparr>nmem := m, nthreads := (nthreads s)[t := (x, NLoop q')]\<rparr>"
      have e: "pools_new_step cnt t s = ?s" using p NLoop st Some by simp
      have f: "finished ?s = finished s" "linked ?s = linked s"
        using finished_update [OF t p, of ?s "NLoop q'"] linked_update [OF t p, of ?s "NLoop q'"] NLoop by simp_all
      have "new_ok cnt ps ?s xs" unfolding new_ok_def
        using d f ps'(1) Some names_update [OF t p] count_keep [OF ok c t p, of ?s "NLoop q'"] NLoop
        by simp
      then show ?thesis using e by auto
    next
      case None
      let ?s = "s\<lparr>nmem := m, nthreads := (nthreads s)[t := (x, NLoad)]\<rparr>"
      have e: "pools_new_step cnt t s = ?s" using p NLoop st None by simp
      have f: "finished ?s = finished s" "linked ?s = linked s + {#x#}"
        using finished_update [OF t p, of ?s NLoad] linked_update [OF t p, of ?s NLoad] NLoop by simp_all
      have "new_ok cnt ps ?s (x # xs)" unfolding new_ok_def
        using d f ps'(2) None names_update [OF t p] count_keep [OF ok c t p, of ?s NLoad] NLoop
        by simp
      then show ?thesis using e by auto
    qed
  next
    case NLoad
    let ?s = "s\<lparr>nthreads := (nthreads s)[t := (x, NStore (nhp_count s))]\<rparr>"
    have e: "pools_new_step cnt t s = ?s" using p NLoad by simp
    have f: "finished ?s = finished s" "linked ?s = linked s"
      using finished_update [OF t p, of ?s "NStore (nhp_count s)"] linked_update [OF t p, of ?s "NStore (nhp_count s)"] NLoad
      by simp_all
    have "new_ok cnt ps ?s xs" unfolding new_ok_def
      using d f names_update [OF t p] count_keep [OF ok c t p, of ?s "NStore (nhp_count s)"] NLoad by simp
    then show ?thesis using e by auto
  next
    case (NStore v)
    let ?s = "s\<lparr>nhp_count := v + cnt, nthreads := (nthreads s)[t := (x, NDone)]\<rparr>"
    have e: "pools_new_step cnt t s = ?s" using p NStore by simp
    have f: "finished ?s = finished s + 1" "linked ?s = linked s"
      using finished_update [OF t p, of ?s NDone] linked_update [OF t p, of ?s NDone] NStore by simp_all
    have "v \<le> cnt * finished s" using d p t NStore by auto
    then have "nhp_count ?s \<le> cnt * finished ?s" unfolding f by (simp add: distrib_left)
    then have "new_ok cnt ps ?s xs" unfolding new_ok_def
      using d f names_update [OF t p] count_keep [OF ok c t p, of ?s NDone] NStore by simp
    then show ?thesis using e by auto
  next
    case NDone
    then show ?thesis using ok p by auto
  qed
qed


lemma new_reach_ok:
  assumes "new_reach cnt ps s" "distinct ps" "nullptr \<notin> set ps" "0 \<le> cnt"
  shows "\<exists>xs. new_ok cnt ps s xs"
  using assms
proof (induction rule: new_reach.induct)
  case init
  have "linked (new_init ps) = {#}" "finished (new_init ps) = 0"
    by (simp_all add: linked_def finished_def new_init_def comp_def)
  then show ?case by (intro exI [of _ "[]"]) (simp add: new_ok_def new_init_def comp_def)
next
  case (step s t)
  then show ?case using new_step_ok by blast
qed

text \<open>C33: threads that create pools at the same time all get their pool linked: once a thread left the
  loop, its pool is on the list, once. The domain's count of hazard pointers never exceeds the size of
  the pools of the threads that returned, but it can fall behind for good: two threads can
  interleave so that both have returned and the size of only one pool was counted.\<close>

theorem racing_pools:
  assumes "distinct ps" "nullptr \<notin> set ps" "0 < cnt"
  shows "(\<forall>s. new_reach cnt ps s \<longrightarrow> (\<exists>xs. chain (\<lambda>w. w) (link (nmem s)) (top (nmem s)) xs \<and>
      mset xs = (\<Sum>(x, pc)\<leftarrow>nthreads s. if linked_pc pc then {#x#} else {#}) \<and>
      nhp_count s \<le> cnt * (\<Sum>(x, pc)\<leftarrow>nthreads s. if pc = NDone then 1 else 0))) \<and>
    (\<exists>s. new_reach cnt [16, 32] s \<and> nthreads s = [(16, NDone), (32, NDone)] \<and> nhp_count s = cnt)"
proof
  show "\<forall>s. new_reach cnt ps s \<longrightarrow> (\<exists>xs. chain (\<lambda>w. w) (link (nmem s)) (top (nmem s)) xs \<and>
      mset xs = (\<Sum>(x, pc)\<leftarrow>nthreads s. if linked_pc pc then {#x#} else {#}) \<and>
      nhp_count s \<le> cnt * (\<Sum>(x, pc)\<leftarrow>nthreads s. if pc = NDone then 1 else 0))"
    using new_reach_ok [OF _ assms(1,2)] assms(3) unfolding new_ok_def linked_def finished_def
    by (meson less_imp_le)
  let ?sch = "[0, 0, 0, 1, 1, 1, 0, 1, 0, 1] :: nat list"
  have r: "new_reach cnt [16, 32] (fold (pools_new_step cnt) ts s)"
    if "new_reach cnt [16, 32] s" "\<forall>t \<in> set ts. t < 2" "length (nthreads s) = 2" for ts s
    using that
  proof (induction ts arbitrary: s)
    case (Cons t ts)
    have "length (nthreads (pools_new_step cnt t s)) = length (nthreads s)"
      by (auto split: prod.splits new_pc.splits option.splits)
    with Cons.prems have "new_reach cnt [16, 32] (pools_new_step cnt t s)" "length (nthreads (pools_new_step cnt t s)) = 2"
      by (auto intro: new_reach.step simp del: pools_new_step.simps)
    from Cons.IH [OF this(1) _ this(2)] Cons.prems(2) show ?case by (simp del: pools_new_step.simps)
  qed simp
  have "new_reach cnt [16, 32] (fold (pools_new_step cnt) ?sch (new_init [16, 32]))"
    by (rule r [OF new_reach.init]) (simp_all add: new_init_def)
  moreover have "nthreads (fold (pools_new_step cnt) ?sch (new_init [16, 32])) = [(16, NDone), (32, NDone)] \<and>
      nhp_count (fold (pools_new_step cnt) ?sch (new_init [16, 32])) = cnt"
    by (simp add: new_init_def atomic_compare_exchange_def)
  ultimately show "\<exists>s. new_reach cnt [16, 32] s \<and> nthreads s = [(16, NDone), (32, NDone)] \<and> nhp_count s = cnt"
    by blast
qed

lemma racing_pools_witness:
  "\<exists>s. new_reach 96 [16, 32] s \<and> nthreads s = [(16, NDone), (32, NDone)] \<and> nhp_count s = 96"
proof -
  have "distinct [16, 32 :: uptr]" "nullptr \<notin> set [16, 32]" "0 < (96::int)" by simp_all
  from racing_pools [OF this] show ?thesis by blast
qed

end
