(* ===== verification/CasTest.thy ===== *)
theory CasTest
  imports LockFree
begin

text \<open>
  The stress test of \<open>castest.cpp\<close>: \<open>T\<close> threads push \<open>N\<close> nodes each at the head of one list, with
  \<open>mark_ptr_type\<close> words and in every interleaving, then each thread walks the list, asserts that
  its own nodes come in ascending order, and checks that it met all of them (\<open>test_0\<close>, between the
  rendezvous of \<open>class Rendezvous\<close>). The addresses of the nodes are given by the array of the
  thread arguments: \<open>node t x\<close> is \<open>&args[t].b[x]\<close>. The theory shows that no assertion fails and no
  error is reported, for any numbers of threads and nodes.
\<close>

section \<open>The steps of test_0\<close>

text \<open>
  Where a thread is: before \<open>ready\<close>; waiting for \<open>go\<close>; before \<open>start_task\<close>; pushing the node \<open>x\<close>;
  before \<open>end_task\<close>; waiting for the other tasks; before the load of the head; at the node \<open>b\<close> of the
  walk, with the last value \<open>v\<close> of its own and the number of nodes passed; checking its node \<open>x\<close>; before \<open>complete\<close>; returned.
\<close>

datatype ct_pc =
    TReady | TWaitGo | TStart
  | TPush nat push_pc
  | TEnd | TWaitTasks | TLoadHead
  | TScan uptr int nat
  | TCheck nat
  | TComplete | TDone

text \<open>
  The list, the fields of the nodes, the rendezvous, and per thread its place and the number of
  exchanges it tried. \<open>errors\<close> counts the messages about nodes that were not found and about lists
  that are too long.
\<close>

record ct_sys =
  cmem :: "uptr pmem"
  node_v :: "uptr \<Rightarrow> int"
  node_tid :: "uptr \<Rightarrow> nat"
  node_found :: "uptr \<Rightarrow> bool"
  num_ready :: nat
  in_task_count :: int
  num_complete :: nat
  go :: bool
  cplaces :: "ct_pc list"
  cas_counts :: "nat list"
  errors :: nat

abbreviation ct_goto :: "nat \<Rightarrow> ct_pc \<Rightarrow> ct_sys \<Rightarrow> ct_sys" where
  "ct_goto t pc s \<equiv> s\<lparr>cplaces := (cplaces s)[t := pc]\<rparr>"

definition test_0_step :: "nat \<Rightarrow> nat \<Rightarrow> (nat \<Rightarrow> nat \<Rightarrow> uptr) \<Rightarrow> nat \<Rightarrow> ct_sys \<Rightarrow> ct_sys res" where
  "test_0_step T N node t s =
     (case cplaces s ! t of
        TReady \<Rightarrow> Inr ((ct_goto t TWaitGo s)\<lparr>num_ready := Suc (num_ready s)\<rparr>)
      | TWaitGo \<Rightarrow> Inr (if go s then ct_goto t TStart s else s)
      | TStart \<Rightarrow> Inr ((ct_goto t (if 0 < N then TPush (N - 1) PLoad else TEnd) s)\<lparr>in_task_count := in_task_count s + 1\<rparr>)
      | TPush x pc \<Rightarrow>
          (case push_step mp_load mp_assign mp_head_CAS (node t x) pc (cmem s) of (r, m) \<Rightarrow>
             let s = s\<lparr>cmem := m, cas_counts := (if pc = PCas then (cas_counts s)[t := Suc (cas_counts s ! t)] else cas_counts s)\<rparr>
             in Inr (ct_goto t (case r of Some pc' \<Rightarrow> TPush x pc' | None \<Rightarrow> if x = 0 then TEnd else TPush (x - 1) PLoad) s))
      | TEnd \<Rightarrow> Inr ((ct_goto t TWaitTasks s)\<lparr>in_task_count := in_task_count s - 1\<rparr>)
      | TWaitTasks \<Rightarrow> Inr (if in_task_count s \<noteq> 0 then s else ct_goto t TLoadHead s)
      | TLoadHead \<Rightarrow> Inr (ct_goto t (TScan (mp_load (top (cmem s))) (- 1) 0) s)
      | TScan b v x \<Rightarrow>
          if b = nullptr then Inr (ct_goto t (TCheck 0) s)
          else
            let s1 = s\<lparr>errors := (if x > T * N then Suc (errors s) else errors s)\<rparr> in
            if node_tid s b = t
            then if \<not> node_v s b > v then Inl AssertFail
              else Inr ((ct_goto t (TScan (mp_load (link (cmem s) b)) (node_v s b) (Suc x)) s1)\<lparr>node_found := (node_found s)(b := True)\<rparr>)
            else Inr (ct_goto t (TScan (mp_load (link (cmem s) b)) v (Suc x)) s1)
      | TCheck x \<Rightarrow>
          if x < N
          then Inr ((ct_goto t (TCheck (Suc x)) s)\<lparr>
              errors := (if \<not> node_found s (node t x) then Suc (errors s) else errors s),
              node_found := (if \<not> node_found s (node t x) then (node_found s)(node t x := False) else node_found s)\<rparr>)
          else Inr (ct_goto t TComplete s)
      | TComplete \<Rightarrow> Inr ((ct_goto t TDone s)\<lparr>num_complete := Suc (num_complete s)\<rparr>)
      | TDone \<Rightarrow> Inr s)"

text \<open>The main thread lets the others go once all are ready.\<close>

definition main_go :: "nat \<Rightarrow> ct_sys \<Rightarrow> ct_sys" where
  "main_go T s = (if num_ready s < T then s else s\<lparr>go := True\<rparr>)"

text \<open>
  The start: every thread has set \<open>v\<close> and \<open>tid\<close> of its nodes (\<open>test_thread_fn\<close>); the list is empty.
\<close>

definition ct_init :: "nat \<Rightarrow> (uptr \<Rightarrow> int) \<Rightarrow> (uptr \<Rightarrow> nat) \<Rightarrow> ct_sys" where
  "ct_init T v tid = \<lparr>cmem = \<lparr>top = mp_init, link = (\<lambda>_. mp_init)\<rparr>, node_v = v, node_tid = tid,
     node_found = (\<lambda>_. False), num_ready = 0, in_task_count = 0, num_complete = 0, go = False,
     cplaces = replicate T TReady, cas_counts = replicate T 0, errors = 0\<rparr>"

definition fields_set :: "nat \<Rightarrow> nat \<Rightarrow> (nat \<Rightarrow> nat \<Rightarrow> uptr) \<Rightarrow> (uptr \<Rightarrow> int) \<Rightarrow> (uptr \<Rightarrow> nat) \<Rightarrow> bool" where
  "fields_set T N node v tid \<longleftrightarrow> (\<forall>t<T. \<forall>x<N. v (node t x) = int x \<and> tid (node t x) = t)"

text \<open>The nodes are different objects at aligned addresses.\<close>

definition layout :: "nat \<Rightarrow> nat \<Rightarrow> (nat \<Rightarrow> nat \<Rightarrow> uptr) \<Rightarrow> bool" where
  "layout T N node \<longleftrightarrow> inj_on (\<lambda>(t, x). node t x) ({..<T} \<times> {..<N}) \<and>
     (\<forall>t<T. \<forall>x<N. node t x \<noteq> nullptr \<and> aligned_ptr (node t x))"

inductive ct_reach :: "nat \<Rightarrow> nat \<Rightarrow> (nat \<Rightarrow> nat \<Rightarrow> uptr) \<Rightarrow> ct_sys \<Rightarrow> bool" for T N node where
  init: "fields_set T N node v tid \<Longrightarrow> ct_reach T N node (ct_init T v tid)"
| thread: "ct_reach T N node s \<Longrightarrow> t < T \<Longrightarrow> test_0_step T N node t s = Inr s' \<Longrightarrow> ct_reach T N node s'"
| main: "ct_reach T N node s \<Longrightarrow> ct_reach T N node (main_go T s)"

section \<open>The invariant\<close>

definition own :: "ct_sys \<Rightarrow> nat \<Rightarrow> uptr list \<Rightarrow> uptr list" where
  "own s t xs = filter (\<lambda>b. node_tid s b = t) xs"

lemma own_simps [simp]: "own s t [] = []" "own s t (x # xs) = (if node_tid s x = t then x # own s t xs else own s t xs)"
  "own s t (xs @ ys) = own s t xs @ own s t ys"
  by (simp_all add: own_def)

fun thr_ok :: "nat \<Rightarrow> (nat \<Rightarrow> uptr) \<Rightarrow> ct_sys \<Rightarrow> uptr list \<Rightarrow> nat \<Rightarrow> ct_pc \<Rightarrow> bool" where
  "thr_ok N nd s xs t (TPush x pc) \<longleftrightarrow> own s t xs = map nd [Suc x..<N] \<and> x < N \<and> mp.pc_ok pc"
| "thr_ok N nd s xs t (TScan b v x) \<longleftrightarrow> own s t xs = map nd [0..<N] \<and>
     (\<exists>as bs k. xs = as @ bs \<and> chain mp_load (link (cmem s)) b bs \<and> own s t bs = map nd [k..<N] \<and> v = int k - 1 \<and>
        x \<le> length as \<and> k \<le> N \<and> (\<forall>y<k. node_found s (nd y)))"
| "thr_ok N nd s xs t (TCheck x) \<longleftrightarrow> own s t xs = map nd [0..<N] \<and> (\<forall>y<N. node_found s (nd y))"
| "thr_ok N nd s xs t pc \<longleftrightarrow> own s t xs = (if pc \<in> {TReady, TWaitGo, TStart} then [] else map nd [0..<N])"

definition ct_ok :: "nat \<Rightarrow> nat \<Rightarrow> (nat \<Rightarrow> nat \<Rightarrow> uptr) \<Rightarrow> ct_sys \<Rightarrow> uptr list \<Rightarrow> bool" where
  "ct_ok T N node s xs \<longleftrightarrow> mp.mem_ok (cmem s) \<and> chain mp_load (link (cmem s)) (mp_load (top (cmem s))) xs \<and>
     distinct xs \<and> set xs \<subseteq> (\<lambda>(t, x). node t x) ` ({..<T} \<times> {..<N}) \<and> length (cplaces s) = T \<and> errors s = 0 \<and>
     fields_set T N node (node_v s) (node_tid s) \<and> (\<forall>t<T. thr_ok N (node t) s xs t (cplaces s ! t))"

lemma chain_cong: "(\<And>b. b \<in> set xs \<Longrightarrow> lk' b = lk b) \<Longrightarrow> chain load lk' h xs = chain load lk h xs"
  by (induction xs arbitrary: h) auto

text \<open>A thread does not notice what the others do: nodes pushed in front, nodes found.\<close>

lemma thr_ok_mono:
  assumes "thr_ok N nd s xs t pc" "node_tid s' = node_tid s" "own s t ys = []"
    and "\<And>b. b \<in> set xs \<Longrightarrow> link (cmem s') b = link (cmem s) b" "\<And>b. node_found s b \<Longrightarrow> node_found s' b"
  shows "thr_ok N nd s' (ys @ xs) t pc"
proof -
  have o: "own s' t zs = own s t zs" for zs using assms(2) by (simp add: own_def)
  have c: "chain mp_load (link (cmem s')) b bs = chain mp_load (link (cmem s)) b bs" if "set bs \<subseteq> set xs" for b bs
    using that assms(4) by (intro chain_cong) auto
  show ?thesis
  proof (cases pc)
    case (TScan b v x)
    with assms(1) obtain as bs k where w: "xs = as @ bs" "chain mp_load (link (cmem s)) b bs" "own s t bs = map nd [k..<N]"
      "v = int k - 1" "k \<le> N" "\<forall>y<k. node_found s (nd y)" "x \<le> length as" "own s t xs = map nd [0..<N]" by auto
    then have "ys @ xs = (ys @ as) @ bs" "chain mp_load (link (cmem s')) b bs" using c [of bs] by auto
    with w show ?thesis unfolding TScan thr_ok.simps o using assms(3,5) by (intro conjI exI [of _ "ys @ as"] exI [of _ bs] exI [of _ k]) auto
  qed (use assms o in auto)
qed


lemma ct_stepI:
  assumes ok: "ct_ok T N node s xs" and t: "t < T"
    and same: "node_v s' = node_v s" "node_tid s' = node_tid s" "cplaces s' = (cplaces s)[t := pc]" "errors s' = 0"
    and mem: "mp.mem_ok (cmem s')" "chain mp_load (link (cmem s')) (mp_load (top (cmem s'))) (ys @ xs)"
    and ys: "distinct (ys @ xs)" "set ys \<subseteq> (\<lambda>(t, x). node t x) ` ({..<T} \<times> {..<N})" "\<And>u. u \<noteq> t \<Longrightarrow> own s u ys = []"
    and frame: "\<And>b. b \<in> set xs \<Longrightarrow> link (cmem s') b = link (cmem s) b" "\<And>b. node_found s b \<Longrightarrow> node_found s' b"
    and own: "thr_ok N (node t) s' (ys @ xs) t pc"
  shows "ct_ok T N node s' (ys @ xs)"
proof -
  have "thr_ok N (node u) s' (ys @ xs) u (cplaces s' ! u)" if u: "u < T" for u
  proof (cases "u = t")
    case True
    then show ?thesis using own ok t same(3) by (simp add: ct_ok_def)
  next
    case False
    then have "cplaces s' ! u = cplaces s ! u" using same(3) by simp
    moreover have "thr_ok N (node u) s xs u (cplaces s ! u)" using ok u by (simp add: ct_ok_def)
    ultimately show ?thesis using thr_ok_mono [OF _ same(2) ys(3) [OF False] frame] by simp
  qed
  then show ?thesis using ok same mem ys by (auto simp: ct_ok_def)
qed

lemma ct_local:
  assumes ok: "ct_ok T N node s xs" and t: "t < T"
    and same: "node_v s' = node_v s" "node_tid s' = node_tid s" "cplaces s' = (cplaces s)[t := pc]" "errors s' = 0"
      "cmem s' = cmem s" "\<And>b. node_found s b \<Longrightarrow> node_found s' b"
    and own: "thr_ok N (node t) s' xs t pc"
  shows "ct_ok T N node s' xs"
  using ct_stepI [OF ok t same(1-4), of "[]"] ok same own by (simp add: ct_ok_def)

lemma ct_okD:
  assumes "ct_ok T N node s xs" "t < T"
  shows "thr_ok N (node t) s xs t (cplaces s ! t)" "length (cplaces s) = T" "errors s = 0" "mp.mem_ok (cmem s)"
    "chain mp_load (link (cmem s)) (mp_load (top (cmem s))) xs" "\<And>x. x < N \<Longrightarrow> node_tid s (node t x) = t"
    "\<And>x. x < N \<Longrightarrow> node_v s (node t x) = int x"
  using assms by (simp_all add: ct_ok_def fields_set_def)

lemma ct_length:
  assumes "ct_ok T N node s xs"
  shows "length xs \<le> T * N"
proof -
  have "length xs = card (set xs)" using assms by (simp add: ct_ok_def distinct_card)
  also have "\<dots> \<le> card ((\<lambda>(t, x). node t x) ` ({..<T} \<times> {..<N}))" using assms by (intro card_mono) (auto simp: ct_ok_def)
  also have "\<dots> \<le> card ({..<T} \<times> {..<N})" by (rule card_image_le) simp
  finally show ?thesis by (simp add: card_cartesian_product)
qed

lemma own_same: "node_tid s' = node_tid s \<Longrightarrow> own s' t xs = own s t xs"
  by (simp add: own_def)

lemma own_frame [simp]:
  "own (s\<lparr>cplaces := p\<rparr>) t xs = own s t xs" "own (s\<lparr>cplaces := p, node_found := f\<rparr>) t xs = own s t xs"
  by (simp_all add: own_def)

lemma upt_last: "x < N \<Longrightarrow> [x..<N] = x # [Suc x..<N]"
  by (simp add: upt_conv_Cons)

lemma push_ok:
  assumes lay: "layout T N node" and ok: "ct_ok T N node s xs" and t: "t < T" and pl: "cplaces s ! t = TPush x pc"
    and st: "test_0_step T N node t s = Inr s'"
  shows "\<exists>xs'. ct_ok T N node s' xs'"
proof -
  note d = ct_okD [OF ok t]
  from d(1) pl have o: "own s t xs = map (node t) [Suc x..<N]" and x: "x < N" and pc: "mp.pc_ok pc" by simp_all
  have lx: "node t x \<noteq> nullptr" "aligned_ptr (node t x)" using lay t x by (simp_all add: layout_def)
  have notin: "node t x \<notin> set xs"
  proof
    assume "node t x \<in> set xs"
    then have "node t x \<in> set (own s t xs)" using d(6) [OF x] by (simp add: own_def)
    then obtain y where "Suc x \<le> y" "y < N" "node t x = node t y" using o by auto
    moreover from this have "(t, x) = (t, y)"
      using lay t x unfolding layout_def by (intro inj_onD [of "\<lambda>(t, x). node t x" "{..<T} \<times> {..<N}"]) auto
    ultimately show False by simp
  qed
  obtain r m where ps: "push_step mp_load mp_assign mp_head_CAS (node t x) pc (cmem s) = (r, m)"
    by (cases "push_step mp_load mp_assign mp_head_CAS (node t x) pc (cmem s)")
  note p = mp.push_step_ok [OF d(4,5) notin lx pc ps]
  have cm: "cmem s' = m" using st pl ps by (auto simp: test_0_step_def Let_def)
  have lk: "link (cmem s') b = link (cmem s) b" if "b \<in> set xs" for b
    unfolding cm by (rule p(2)) (use that notin in blast)
  show ?thesis
  proof (cases r)
    case (Some pc')
    have "ct_ok T N node s' ([] @ xs)"
    proof (rule ct_stepI [OF ok t, where pc = "TPush x pc'"])
      show "chain mp_load (link (cmem s')) (mp_load (top (cmem s'))) ([] @ xs)" "mp.mem_ok (cmem s')"
        "thr_ok N (node t) s' ([] @ xs) t (TPush x pc')"
        using p(1,3) st pl ps Some o x own_same [of s' s] by (auto simp: test_0_step_def Let_def)
    qed (use lk st pl ps Some d(3) ok in \<open>auto simp: test_0_step_def Let_def ct_ok_def\<close>)
    then show ?thesis by auto
  next
    case None
    let ?pc = "if x = 0 then TEnd else TPush (x - 1) PLoad"
    have "ct_ok T N node s' ([node t x] @ xs)"
    proof (rule ct_stepI [OF ok t, where pc = ?pc])
      have "own s' t ([node t x] @ xs) = map (node t) [x..<N]"
        using own_same [of s' s] o d(6) [OF x] upt_last [OF x] st pl ps by (auto simp: test_0_step_def Let_def)
      then show "thr_ok N (node t) s' ([node t x] @ xs) t ?pc" using x by (auto simp: mp.pc_ok_def)
      show "chain mp_load (link (cmem s')) (mp_load (top (cmem s'))) ([node t x] @ xs)" "mp.mem_ok (cmem s')"
        using p(1,4) st pl ps None by (auto simp: test_0_step_def Let_def)
    qed (use lk st pl ps None d(3,6) ok notin t x in \<open>auto simp: test_0_step_def Let_def ct_ok_def\<close>)
    then show ?thesis by blast
  qed
qed

text \<open>The walk: the assertion holds, and the next own node is the expected one.\<close>

lemma scan_ok:
  assumes ok: "ct_ok T N node s xs" and t: "t < T" and pl: "cplaces s ! t = TScan b v x"
  shows "\<exists>s'. test_0_step T N node t s = Inr s' \<and> ct_ok T N node s' xs"
proof -
  note d = ct_okD [OF ok t]
  from d(1) pl obtain as bs k where w: "xs = as @ bs" "chain mp_load (link (cmem s)) b bs"
    "own s t bs = map (node t) [k..<N]" "v = int k - 1" "k \<le> N" "\<forall>y<k. node_found s (node t y)"
    and x: "x \<le> length as" and o: "own s t xs = map (node t) [0..<N]" by auto
  have "length as \<le> length xs" using w(1) by simp
  with x ct_length [OF ok] have few: "\<not> x > T * N" by simp
  show ?thesis
  proof (cases bs)
    case Nil
    then have "k = N" "b = nullptr" using w by auto
    then have "test_0_step T N node t s = Inr (ct_goto t (TCheck 0) s)" using pl by (simp add: test_0_step_def)
    moreover have "thr_ok N (node t) (ct_goto t (TCheck 0) s) xs t (TCheck 0)"
      using o w(6) \<open>k = N\<close> by simp
    then have "ct_ok T N node (ct_goto t (TCheck 0) s) xs"
      by (intro ct_local [where pc = "TCheck 0", OF ok t]) (use d(3) in simp_all)
    ultimately show ?thesis by blast
  next
    case (Cons c cs)
    then have c: "c = b" "b \<noteq> nullptr" "chain mp_load (link (cmem s)) (mp_load (link (cmem s) b)) cs" using w(2) by auto
    show ?thesis
    proof (cases "node_tid s b = t")
      case False
      let ?pc = "TScan (mp_load (link (cmem s) b)) v (Suc x)"
      have "test_0_step T N node t s = Inr (ct_goto t ?pc s)" using False c pl few by (simp add: test_0_step_def Let_def)
      moreover have "thr_ok N (node t) (ct_goto t ?pc s) xs t ?pc"
        unfolding thr_ok.simps own_frame using w o x c Cons False
        by (intro conjI exI [of _ "as @ [b]"] exI [of _ cs] exI [of _ k]) (auto simp: own_def)
      then have "ct_ok T N node (ct_goto t ?pc s) xs"
        by (intro ct_local [where pc = ?pc, OF ok t]) (use d(3) in simp_all)
      ultimately show ?thesis by blast
    next
      case True
      with w(3) Cons c have h: "b # own s t cs = map (node t) [k..<N]" by (simp add: own_def)
      then have k: "k < N" "b = node t k" "own s t cs = map (node t) [Suc k..<N]"
        using upt_last [of k N] by (cases "k < N"; auto)+
      let ?pc = "TScan (mp_load (link (cmem s) b)) (int k) (Suc x)"
      let ?s = "(ct_goto t ?pc s)\<lparr>node_found := (node_found s)(b := True)\<rparr>"
      have "test_0_step T N node t s = Inr ?s" using True c pl k d(7) [of k] w(4) few by (simp add: test_0_step_def Let_def)
      moreover have "thr_ok N (node t) ?s xs t ?pc"
        unfolding thr_ok.simps own_frame using w o x c Cons k
        by (intro conjI exI [of _ "as @ [b]"] exI [of _ cs] exI [of _ "Suc k"]) (auto simp: own_def less_Suc_eq)
      then have "ct_ok T N node ?s xs" by (intro ct_local [where pc = ?pc, OF ok t]) (use d(3) in simp_all)
      ultimately show ?thesis by blast
    qed
  qed
qed


lemma check_ok:
  assumes ok: "ct_ok T N node s xs" and t: "t < T" and pl: "cplaces s ! t = TCheck x"
  shows "\<exists>s'. test_0_step T N node t s = Inr s' \<and> ct_ok T N node s' xs"
proof -
  note d = ct_okD [OF ok t]
  from d(1) pl have o: "own s t xs = map (node t) [0..<N]" "\<forall>y<N. node_found s (node t y)" by simp_all
  let ?pc = "if x < N then TCheck (Suc x) else TComplete"
  have "test_0_step T N node t s = Inr (ct_goto t ?pc s)" using pl o(2) by (simp add: test_0_step_def)
  moreover have "ct_ok T N node (ct_goto t ?pc s) xs"
    by (intro ct_local [where pc = ?pc, OF ok t]) (use o d(3) in simp_all)
  ultimately show ?thesis by blast
qed

text \<open>The steps that only change the rendezvous.\<close>

lemma meet_ok:
  assumes ok: "ct_ok T N node s xs" and t: "t < T"
    and pl: "cplaces s ! t \<in> {TReady, TWaitGo, TStart, TEnd, TWaitTasks, TLoadHead, TComplete, TDone}"
  shows "\<exists>s'. test_0_step T N node t s = Inr s' \<and> ct_ok T N node s' xs"
proof -
  note d = ct_okD [OF ok t]
  have m: "ct_ok T N node s' xs" if "cmem s' = cmem s" "node_v s' = node_v s" "node_tid s' = node_tid s"
    "node_found s' = node_found s" "errors s' = errors s" "cplaces s' = (cplaces s)[t := pc]" "thr_ok N (node t) s xs t pc" for s' pc
  proof (rule ct_local [OF ok t])
    show "thr_ok N (node t) s' xs t pc" using thr_ok_mono [OF that(7), of s' "[]"] that by simp
  qed (use that d(3) in auto)
  note own = d(1)
  have stay: "cplaces s = (cplaces s)[t := cplaces s ! t]" by simp
  show ?thesis
  proof (cases "cplaces s ! t")
    case TStart
    then have "thr_ok N (node t) s xs t (if 0 < N then TPush (N - 1) PLoad else TEnd)" using own by (auto simp: mp.pc_ok_def)
    then have "ct_ok T N node ((ct_goto t (if 0 < N then TPush (N - 1) PLoad else TEnd) s)\<lparr>in_task_count := in_task_count s + 1\<rparr>) xs"
      by (intro m [where pc = "if 0 < N then TPush (N - 1) PLoad else TEnd"]) simp_all
    with TStart show ?thesis by (simp add: test_0_step_def)
  next
    case TLoadHead
    have "thr_ok N (node t) s xs t (TScan (mp_load (top (cmem s))) (- 1) 0)"
      unfolding thr_ok.simps using own TLoadHead d(5) by (intro conjI exI [of _ "[]"] exI [of _ xs] exI [of _ 0]) auto
    then have "ct_ok T N node (ct_goto t (TScan (mp_load (top (cmem s))) (- 1) 0) s) xs"
      by (intro m [where pc = "TScan (mp_load (top (cmem s))) (- 1) 0"]) simp_all
    with TLoadHead show ?thesis by (simp add: test_0_step_def)
  next
    case TWaitGo
    then show ?thesis using own ok by (auto simp: test_0_step_def intro!: m [where pc = TStart])
  next
    case TWaitTasks
    then show ?thesis using own ok by (auto simp: test_0_step_def intro!: m [where pc = TLoadHead])
  next
    case TReady
    then show ?thesis using own by (auto simp: test_0_step_def intro!: m [where pc = TWaitGo])
  next
    case TEnd
    then show ?thesis using own by (auto simp: test_0_step_def intro!: m [where pc = TWaitTasks])
  next
    case TComplete
    then show ?thesis using own by (auto simp: test_0_step_def intro!: m [where pc = TDone])
  next
    case TDone
    then show ?thesis using ok by (auto simp: test_0_step_def)
  qed (use pl in auto)
qed

lemma ct_step_ok:
  assumes "layout T N node" "ct_ok T N node s xs" "t < T"
  shows "\<exists>s' xs'. test_0_step T N node t s = Inr s' \<and> ct_ok T N node s' xs'"
proof (cases "cplaces s ! t")
  case (TPush x pc)
  then obtain s' where "test_0_step T N node t s = Inr s'"
    by (cases "push_step mp_load mp_assign mp_head_CAS (node t x) pc (cmem s)") (simp add: test_0_step_def Let_def)
  with push_ok [OF assms TPush] show ?thesis by blast
next
  case (TScan b v x)
  with scan_ok [OF assms(2,3)] show ?thesis by blast
next
  case (TCheck x)
  with check_ok [OF assms(2,3)] show ?thesis by blast
qed (use meet_ok [OF assms(2,3)] in auto)

lemma ct_reach_ok: "ct_reach T N node s \<Longrightarrow> layout T N node \<Longrightarrow> \<exists>xs. ct_ok T N node s xs"
proof (induction rule: ct_reach.induct)
  case (init v tid)
  then show ?case
    by (intro exI [of _ "[]"]) (simp add: ct_ok_def ct_init_def mp.mem_ok_def mp_init_def)
next
  case (thread s t s')
  then show ?case using ct_step_ok [of T N node s _ t] by fastforce
next
  case (main s)
  then obtain xs where ok: "ct_ok T N node s xs" by blast
  have "thr_ok N nd (main_go T s) xs t pc = thr_ok N nd s xs t pc" for nd t pc
    by (cases pc) (auto simp: main_go_def own_def)
  then have "ct_ok T N node (main_go T s) xs" using ok unfolding ct_ok_def by (simp add: main_go_def)
  then show ?case ..
qed

text \<open>When all threads have returned, the list holds all nodes.\<close>

lemma ct_all_done:
  assumes lay: "layout T N node" and ok: "ct_ok T N node s xs" and d: "set (cplaces s) \<subseteq> {TDone}"
  shows "length xs = T * N" "t < T \<Longrightarrow> filter (\<lambda>b. node_tid s b = t) xs = map (node t) [0..<N]"
proof -
  have all: "filter (\<lambda>b. node_tid s b = t) xs = map (node t) [0..<N]" if "t < T" for t
  proof -
    have "cplaces s ! t = TDone" using that d ok by (metis ct_ok_def nth_mem singletonD subsetD)
    with ok that show ?thesis by (auto simp: ct_ok_def own_def)
  qed
  then show "t < T \<Longrightarrow> filter (\<lambda>b. node_tid s b = t) xs = map (node t) [0..<N]" .
  have "set xs = (\<lambda>(t, x). node t x) ` ({..<T} \<times> {..<N})"
  proof
    show "(\<lambda>(t, x). node t x) ` ({..<T} \<times> {..<N}) \<subseteq> set xs"
    proof clarsimp
      fix t x assume "t < T" "x < N"
      then have "node t x \<in> set (filter (\<lambda>b. node_tid s b = t) xs)" unfolding all [OF \<open>t < T\<close>] by simp
      then show "node t x \<in> set xs" by simp
    qed
  qed (use ok in \<open>simp add: ct_ok_def\<close>)
  moreover have "distinct xs" using ok by (simp add: ct_ok_def)
  ultimately have "length xs = card ({..<T} \<times> {..<N})"
    using lay by (metis card_image distinct_card layout_def)
  then show "length xs = T * N" by (simp add: card_cartesian_product)
qed

text \<open>The lock-free stress test. However the pushes, walks and rendezvous of any number of threads
  interleave, no step fails its assertion, no thread misses one of its nodes, and the list holds, once
  each, the nodes pushed so far; when all threads have returned it holds all \<open>T * N\<close> nodes, those of
  each thread in ascending order.\<close>

theorem castest_correct:
  assumes "layout T N node" "ct_reach T N node s"
  shows "errors s = 0 \<and> (\<forall>t<T. \<exists>s'. test_0_step T N node t s = Inr s') \<and>
    (\<exists>xs. chain mp_load (link (cmem s)) (mp_load (top (cmem s))) xs \<and> distinct xs \<and>
      (set (cplaces s) \<subseteq> {TDone} \<longrightarrow> length xs = T * N \<and>
        (\<forall>t<T. filter (\<lambda>b. node_tid s b = t) xs = map (node t) [0..<N])))"
proof -
  from ct_reach_ok [OF assms(2,1)] obtain xs where ok: "ct_ok T N node s xs" ..
  have "\<exists>s'. test_0_step T N node t s = Inr s'" if "t < T" for t using ct_step_ok [OF assms(1) ok that] by blast
  moreover note ct_all_done [OF assms(1) ok]
  ultimately show ?thesis using ok by (auto simp: ct_ok_def)
qed


text \<open>A schedule of the test: the steps of threads, and those of the main thread.\<close>

fun ct_run :: "nat \<Rightarrow> nat \<Rightarrow> (nat \<Rightarrow> nat \<Rightarrow> uptr) \<Rightarrow> nat option list \<Rightarrow> ct_sys \<Rightarrow> ct_sys res" where
  "ct_run T N node [] s = Inr s"
| "ct_run T N node (None # ts) s = ct_run T N node ts (main_go T s)"
| "ct_run T N node (Some t # ts) s = bind_r (test_0_step T N node t s) (ct_run T N node ts)"

lemma ct_run_reach:
  assumes "ct_run T N node ts s = Inr s'" "ct_reach T N node s" "\<And>t. Some t \<in> set ts \<Longrightarrow> t < T"
  shows "ct_reach T N node s'"
  using assms
proof (induction T N node ts s rule: ct_run.induct)
  case (3 T N node t ts s)
  then obtain s1 where s1: "test_0_step T N node t s = Inr s1" "ct_run T N node ts s1 = Inr s'"
    by (auto simp: bind_r_Inr_iff)
  have "ct_reach T N node s1" using 3 s1(1) by (auto intro: ct_reach.thread)
  then show ?case using 3 s1 by auto
qed (auto intro: ct_reach.main)

definition demo_node :: "nat \<Rightarrow> nat \<Rightarrow> uptr" where
  "demo_node t x = of_nat (32 * t + 16 * x + 16)"

definition demo_start :: ct_sys where
  "demo_start = ct_init 2 (\<lambda>b. if b = 16 \<or> b = 48 then 0 else 1) (\<lambda>b. if b = 16 \<or> b = 32 then 0 else 1)"

definition demo_schedule :: "nat option list" where
  "demo_schedule = [Some 0, Some 1, None] @ concat (replicate 40 [Some 0, Some 1])"

lemma castest_correct_witness:
  "\<exists>s xs. ct_run 2 2 demo_node demo_schedule demo_start = Inr s \<and> errors s = 0 \<and>
     chain mp_load (link (cmem s)) (mp_load (top (cmem s))) xs \<and> length xs = 4 \<and>
     filter (\<lambda>b. node_tid s b = 0) xs = [16, 32]"
proof -
  have lt: "t < 2 \<longleftrightarrow> t = 0 \<or> t = 1" for t :: nat by auto
  have lay: "layout 2 2 demo_node"
  proof -
    have s: "{..<2} \<times> {..<2} = {(0, 0), (0, 1), (1, 0), (1::nat, 1::nat)}" by (auto simp: lt)
    show ?thesis unfolding layout_def s
      by (auto simp: lt demo_node_def aligned_ptr_def mark_bits_mask_def inj_on_def)
  qed
  have f: "fields_set 2 2 demo_node (\<lambda>b. if b = 16 \<or> b = 48 then 0 else 1) (\<lambda>b. if b = 16 \<or> b = 32 then 0 else 1)"
    by (auto simp: fields_set_def lt demo_node_def)
  have "case ct_run 2 2 demo_node demo_schedule demo_start of Inr s \<Rightarrow> cplaces s = [TDone, TDone] | Inl e \<Rightarrow> False"
    by code_simp
  then obtain s where s: "ct_run 2 2 demo_node demo_schedule demo_start = Inr s" "cplaces s = [TDone, TDone]"
    by (cases "ct_run 2 2 demo_node demo_schedule demo_start") auto
  have "ct_reach 2 2 demo_node s"
    using ct_reach.init [OF f] by (intro ct_run_reach [OF s(1)]) (auto simp: demo_start_def demo_schedule_def)
  from castest_correct [OF lay this] s(2) obtain xs where
    "errors s = 0" "chain mp_load (link (cmem s)) (mp_load (top (cmem s))) xs" "length xs = 2 * 2"
    "filter (\<lambda>b. node_tid s b = 0) xs = map (demo_node 0) [0..<2]" by auto
  moreover have "map (demo_node 0) [0..<2] = [16, 32]" by (simp add: demo_node_def upt_rec)
  ultimately show ?thesis using s(1) by (intro exI [of _ s] exI [of _ xs]) simp
qed

end
