(* ===== verification/CasMain.thy ===== *)
theory CasMain
  imports CasTest SolDbg
begin

text \<open>
  The whole program \<open>castest.cpp\<close>: the threads initialise their nodes and run \<open>test_0\<close> and
  \<open>test_1\<close>, while the main thread waits for them at both rendezvous, checks the list between the
  tests and prints what it found. Every interleaving of the threads and the main thread is a path of
  \<open>cm_reach\<close>. The theory shows that no assertion fails and that the report describes the list of
  all nodes, built with at least one exchange per node.
\<close>

section \<open>The state\<close>

datatype t1_pc = OReady | OWaitGo | OStart | OEnd | OComplete

text \<open>Where a thread is in \<open>test_thread_fn\<close>: before the node \<open>x\<close> is initialised, or in one of the tests.\<close>

datatype th_place = FnInit nat | FnTest0 | FnTest1 t1_pc | FnEnd

text \<open>
  Where the main thread is: reading the flags \<open>tid_set\<close>, with the conjunction of those it read;
  before test \<open>n\<close> and at its steps; joining the threads.
\<close>

datatype main_place =
    MTids nat bool | MTest nat | MWaitReady nat | MGo nat | MWaitComplete nat | MCheck nat | MJoin nat | MEnd

record cm_sys =
  ct :: ct_sys
  r1_ready :: nat
  r1_tasks :: int
  r1_complete :: nat
  r1_go :: bool
  th_places :: "th_place list"
  tid_sets :: "bool list"
  main_place :: main_place
  con :: string

abbreviation fn_goto :: "nat \<Rightarrow> th_place \<Rightarrow> cm_sys \<Rightarrow> cm_sys" where
  "fn_goto t pc s \<equiv> s\<lparr>th_places := (th_places s)[t := pc]\<rparr>"

section \<open>The threads\<close>

definition test_1_step :: "nat \<Rightarrow> t1_pc \<Rightarrow> cm_sys \<Rightarrow> cm_sys" where
  "test_1_step t pc s =
     (case pc of
        OReady \<Rightarrow> (fn_goto t (FnTest1 OWaitGo) s)\<lparr>r1_ready := Suc (r1_ready s)\<rparr>
      | OWaitGo \<Rightarrow> if r1_go s then fn_goto t (FnTest1 OStart) s else s
      | OStart \<Rightarrow> (fn_goto t (FnTest1 OEnd) s)\<lparr>r1_tasks := r1_tasks s + 1\<rparr>
      | OEnd \<Rightarrow> (fn_goto t (FnTest1 OComplete) s)\<lparr>r1_tasks := r1_tasks s - 1\<rparr>
      | OComplete \<Rightarrow> (fn_goto t FnEnd s)\<lparr>r1_complete := Suc (r1_complete s)\<rparr>)"

text \<open>
  \<open>test_thread_fn\<close>. The two fields of a node are set in one step: no other thread reads them before
  the thread is ready.
\<close>

definition thread_step :: "nat \<Rightarrow> nat \<Rightarrow> (nat \<Rightarrow> nat \<Rightarrow> uptr) \<Rightarrow> nat \<Rightarrow> cm_sys \<Rightarrow> cm_sys res" where
  "thread_step T N node t s =
     (case th_places s ! t of
        FnInit x \<Rightarrow>
          if x < N
          then Inr ((fn_goto t (FnInit (Suc x)) s)\<lparr>ct := (ct s)\<lparr>node_v := (node_v (ct s))(node t x := int x),
                 node_tid := (node_tid (ct s))(node t x := t)\<rparr>\<rparr>)
          else Inr ((fn_goto t FnTest0 s)\<lparr>tid_sets := (tid_sets s)[t := True]\<rparr>)
      | FnTest0 \<Rightarrow>
          if cplaces (ct s) ! t = TDone then Inr (fn_goto t (FnTest1 OReady) s)
          else bind_r (test_0_step T N node t (ct s)) (\<lambda>c. Inr (s\<lparr>ct := c\<rparr>))
      | FnTest1 pc \<Rightarrow> Inr (test_1_step t pc s)
      | FnEnd \<Rightarrow> Inr s)"

section \<open>The main thread\<close>

text \<open>
  The walk of \<open>check_test_0\<close> that counts the places where the thread of the nodes changes. Its
  counter \<open>x\<close> is compared with the length of the list but never incremented.
\<close>

fun count_interleaves :: "nat \<Rightarrow> ct_sys \<Rightarrow> nat \<Rightarrow> uptr \<Rightarrow> nat \<Rightarrow> nat \<Rightarrow> nat \<Rightarrow> (nat \<times> string) res" where
  "count_interleaves 0 c max_list_len b x tid n = Inl NoFuel"
| "count_interleaves (Suc f) c max_list_len b x tid n =
     (if nullptr = b then Inr (n, [])
      else
        let n = (if node_tid c b \<noteq> tid then Suc n else n); tid = node_tid c b;
            msg = (if x > max_list_len then ''********** Aborting *** '' @ endl else []) in
        bind_r (count_interleaves f c max_list_len (mp_load (link (cmem c) b)) x tid n) (\<lambda>(n, r). Inr (n, msg @ r)))"

definition percent :: "nat \<Rightarrow> nat \<Rightarrow> string res" where
  "percent n len = (if len = 0 then Inl DivByZero else Inr (dec_digits (n * 100 div len) @ ''%'' @ endl))"

definition check_test_0 :: "nat \<Rightarrow> nat \<Rightarrow> nat \<Rightarrow> ct_sys \<Rightarrow> string res" where
  "check_test_0 f T N c =
     (let max_list_len = T * N; b = mp_load (top (cmem c)) in
      if b = nullptr then Inl NullDeref
      else
        bind_r (count_interleaves f c max_list_len b 0 (node_tid c b) 0) (\<lambda>(interleaves, msgs).
        bind_r (percent interleaves max_list_len) (\<lambda>p.
        let cas_count = sum_list (cas_counts c) in
        bind_r (percent cas_count max_list_len) (\<lambda>q.
          Inr (msgs @ ''Interleaves '' @ dec_digits interleaves @ '' of '' @ dec_digits max_list_len @ '' '' @ p @
            ''CAS counts '' @ dec_digits cas_count @ '', '' @ q)))))"

definition main_to :: "main_place \<Rightarrow> string \<Rightarrow> cm_sys \<Rightarrow> cm_sys" where
  "main_to pc x s = s\<lparr>main_place := pc, con := con s @ x\<rparr>"

text \<open>
  The loops of \<open>main\<close>, one step at a time; \<open>head\<close> is how the head node is printed. The check runs
  in one step: the threads do not touch the list any more.
\<close>

definition main_step :: "nat \<Rightarrow> nat \<Rightarrow> nat \<Rightarrow> string \<Rightarrow> cm_sys \<Rightarrow> cm_sys res" where
  "main_step f T N head s =
     (case main_place s of
        MTids i ready \<Rightarrow>
          if i < T then Inr (main_to (MTids (Suc i) (ready \<and> tid_sets s ! i)) [] s)
          else if ready then Inr (main_to (MTest 0) (''main '' @ head @ endl) s)
          else Inr (main_to (MTids 0 True) [] s)
      | MTest n \<Rightarrow>
          if n < 2 then Inr (main_to (MWaitReady n) (''Test '' @ dec_digits n @ '')'' @ endl) s)
          else Inr (main_to (MJoin 0) [] s)
      | MWaitReady n \<Rightarrow>
          Inr (if (if n = 0 then num_ready (ct s) else r1_ready s) < T then s else main_to (MGo n) [] s)
      | MGo n \<Rightarrow>
          let s = main_to (MWaitComplete n) ([CHR 0x09] @ ''All threads ready, GO!'' @ endl) s in
          Inr (if n = 0 then s\<lparr>ct := (ct s)\<lparr>go := True\<rparr>\<rparr> else s\<lparr>r1_go := True\<rparr>)
      | MWaitComplete n \<Rightarrow>
          Inr (if (if n = 0 then num_complete (ct s) else r1_complete s) < T then s
               else main_to (MCheck n) ([CHR 0x09] @ ''Checking...!'' @ endl) s)
      | MCheck n \<Rightarrow>
          bind_r (if n = 0 then check_test_0 f T N (ct s) else Inr []) (\<lambda>r.
            Inr (main_to (MTest (Suc n)) (r @ [CHR 0x09] @ ''Done.'' @ endl) s))
      | MJoin i \<Rightarrow>
          if i < T then Inr (if th_places s ! i = FnEnd then main_to (MJoin (Suc i)) [] s else s)
          else Inr (main_to MEnd (endl @ ''All Done. '' @ endl) s)
      | MEnd \<Rightarrow> Inr s)"

text \<open>The start: nothing initialised by the threads yet, the nodes made by the main thread.\<close>

definition cm_init :: "nat \<Rightarrow> cm_sys" where
  "cm_init T = \<lparr>ct = ct_init T (\<lambda>_. - 1) (\<lambda>_. T), r1_ready = 0, r1_tasks = 0, r1_complete = 0, r1_go = False,
     th_places = replicate T (FnInit 0), tid_sets = replicate T False, main_place = MTids 0 True, con = []\<rparr>"

inductive cm_reach :: "nat \<Rightarrow> nat \<Rightarrow> nat \<Rightarrow> (nat \<Rightarrow> nat \<Rightarrow> uptr) \<Rightarrow> string \<Rightarrow> cm_sys \<Rightarrow> bool" for f T N node head where
  init: "cm_reach f T N node head (cm_init T)"
| thread: "cm_reach f T N node head s \<Longrightarrow> t < T \<Longrightarrow> thread_step T N node t s = Inr s' \<Longrightarrow> cm_reach f T N node head s'"
| main: "cm_reach f T N node head s \<Longrightarrow> main_step f T N head s = Inr s' \<Longrightarrow> cm_reach f T N node head s'"

section \<open>The first test\<close>

lemma count_set:
  "t < length ps \<Longrightarrow> length (filter P (ps[t := p])) + of_bool (P (ps ! t)) = length (filter P ps) + of_bool (P p)"
proof (induction ps arbitrary: t)
  case (Cons a ps)
  then show ?case by (cases t) auto
qed simp

text \<open>The nodes a thread at a place has pushed.\<close>

fun pushed :: "nat \<Rightarrow> ct_pc \<Rightarrow> nat" where
  "pushed N (TPush x pc) = N - Suc x"
| "pushed N pc = (if pc \<in> {TReady, TWaitGo, TStart} then 0 else N)"

text \<open>The counters of the rendezvous count threads; every node pushed took an exchange.\<close>

definition ct_counts :: "nat \<Rightarrow> nat \<Rightarrow> ct_sys \<Rightarrow> bool" where
  "ct_counts T N c \<longleftrightarrow> length (cplaces c) = T \<and> length (cas_counts c) = T \<and>
     num_ready c = length (filter (\<lambda>p. p \<noteq> TReady) (cplaces c)) \<and>
     num_complete c = length (filter (\<lambda>p. p = TDone) (cplaces c)) \<and>
     (\<forall>t<T. pushed N (cplaces c ! t) \<le> cas_counts c ! t)"

lemma ct_counts_step:
  assumes c: "ct_counts T N c" and t: "t < T" and st: "test_0_step T N node t c = Inr c'"
    and x: "\<And>x pc. cplaces c ! t = TPush x pc \<Longrightarrow> x < N"
  shows "ct_counts T N c'"
proof -
  have keep: "ct_counts T N c'" if "cplaces c' = (cplaces c)[t := p]" "cas_counts c' = (cas_counts c)[t := k]"
    "num_ready c' + of_bool (cplaces c ! t \<noteq> TReady) = num_ready c + of_bool (p \<noteq> TReady)"
    "num_complete c' + of_bool (cplaces c ! t = TDone) = num_complete c + of_bool (p = TDone)"
    "pushed N p \<le> k" for p k
    using c t that count_set [of t "cplaces c" "\<lambda>p. p \<noteq> TReady" p] count_set [of t "cplaces c" "\<lambda>p. p = TDone" p]
    unfolding ct_counts_def by (auto simp: nth_list_update)
  have own: "pushed N (cplaces c ! t) \<le> cas_counts c ! t" "cas_counts c = (cas_counts c)[t := cas_counts c ! t]"
    "cplaces c = (cplaces c)[t := cplaces c ! t]" using c t by (simp_all add: ct_counts_def)
  show ?thesis
  proof (cases "cplaces c ! t")
    case (TPush x pc)
    obtain r m where ps: "push_step mp_load mp_assign mp_head_CAS (node t x) pc (cmem c) = (r, m)"
      by (cases "push_step mp_load mp_assign mp_head_CAS (node t x) pc (cmem c)")
    have last: "r = None \<Longrightarrow> pc = PCas" using ps by (cases pc) auto
    let ?p = "case r of Some pc' \<Rightarrow> TPush x pc' | None \<Rightarrow> if x = 0 then TEnd else TPush (x - 1) PLoad"
    let ?k = "if pc = PCas then Suc (cas_counts c ! t) else cas_counts c ! t"
    show ?thesis
    proof (rule keep [where p = ?p and k = ?k])
      show "pushed N ?p \<le> ?k" using own(1) TPush last by (cases r) auto
    qed (use st TPush ps own(2) in \<open>auto simp: test_0_step_def Let_def split: option.splits\<close>)
  next
    case (TScan b v n)
    let ?p = "if b = nullptr then TCheck 0 else TScan (mp_load (link (cmem c) b)) (if node_tid c b = t then node_v c b else v) (Suc n)"
    show ?thesis
      by (rule keep [where p = ?p and k = "cas_counts c ! t"])
        (use st TScan own in \<open>auto simp: test_0_step_def Let_def split: if_splits\<close>)
  next
    case (TCheck n)
    let ?p = "if n < N then TCheck (Suc n) else TComplete"
    show ?thesis
      by (rule keep [where p = ?p and k = "cas_counts c ! t"]) (use st TCheck own in \<open>auto simp: test_0_step_def split: if_splits\<close>)
  next
    case TReady
    show ?thesis
      by (rule keep [where p = TWaitGo and k = "cas_counts c ! t"]) (use st TReady own in \<open>auto simp: test_0_step_def\<close>)
  next
    case TWaitGo
    show ?thesis
      by (rule keep [where p = "if go c then TStart else TWaitGo" and k = "cas_counts c ! t"])
        (use st TWaitGo own in \<open>auto simp: test_0_step_def split: if_splits\<close>)
  next
    case TStart
    show ?thesis
      by (rule keep [where p = "if 0 < N then TPush (N - 1) PLoad else TEnd" and k = "cas_counts c ! t"])
        (use st TStart own in \<open>auto simp: test_0_step_def split: if_splits\<close>)
  next
    case TEnd
    show ?thesis
      by (rule keep [where p = TWaitTasks and k = "cas_counts c ! t"]) (use st TEnd own in \<open>auto simp: test_0_step_def\<close>)
  next
    case TWaitTasks
    show ?thesis
      by (rule keep [where p = "if in_task_count c \<noteq> 0 then TWaitTasks else TLoadHead" and k = "cas_counts c ! t"])
        (use st TWaitTasks own in \<open>auto simp: test_0_step_def split: if_splits\<close>)
  next
    case TLoadHead
    show ?thesis
      by (rule keep [where p = "TScan (mp_load (top (cmem c))) (- 1) 0" and k = "cas_counts c ! t"])
        (use st TLoadHead own in \<open>auto simp: test_0_step_def\<close>)
  next
    case TComplete
    show ?thesis
      by (rule keep [where p = TDone and k = "cas_counts c ! t"]) (use st TComplete own in \<open>auto simp: test_0_step_def\<close>)
  next
    case TDone
    then show ?thesis using st c by (simp add: test_0_step_def)
  qed
qed

text \<open>
  The fields of the nodes do not matter to a step, except those of the node a walk has reached.
  \<open>virt c v d\<close> has the fields all threads will have set.
\<close>

abbreviation virt :: "ct_sys \<Rightarrow> (uptr \<Rightarrow> int) \<Rightarrow> (uptr \<Rightarrow> nat) \<Rightarrow> ct_sys" where
  "virt c v d \<equiv> c\<lparr>node_v := v, node_tid := d\<rparr>"

lemma virt_step:
  assumes "\<And>b w n. cplaces c ! t = TScan b w n \<Longrightarrow> b \<noteq> nullptr \<Longrightarrow> node_v c b = v b \<and> node_tid c b = d b"
  shows "test_0_step T N node t (virt c v d) = bind_r (test_0_step T N node t c) (\<lambda>c. Inr (virt c v d))"
  using assms by (auto simp: test_0_step_def Let_def split: ct_pc.splits prod.splits)

lemma step_frame:
  assumes "test_0_step T N node t c = Inr c'"
  shows "node_v c' = node_v c \<and> node_tid c' = node_tid c \<and> go c' = go c \<and> (\<exists>p. cplaces c' = (cplaces c)[t := p])"
  using assms by (auto simp: test_0_step_def Let_def intro!: exI list_update_id [symmetric] split: ct_pc.splits prod.splits if_splits)

text \<open>Before \<open>go\<close> no thread gets any further.\<close>

lemma step_waits:
  assumes "test_0_step T N node t c = Inr c'" "\<not> go c" "cplaces c ! t \<in> {TReady, TWaitGo}"
  shows "\<exists>p\<in>{TReady, TWaitGo}. cplaces c' = (cplaces c)[t := p]"
  using assms by (auto simp: test_0_step_def) (metis list_update_id)

section \<open>The report of the check\<close>

definition changes :: "nat \<Rightarrow> nat list \<Rightarrow> nat" where
  "changes tid ts = length (remdups_adj (tid # ts)) - 1"

lemma changes_simps [simp]: "changes tid [] = 0" "changes tid (t # ts) = (if t = tid then changes t ts else Suc (changes t ts))"
proof -
  have "remdups_adj (t # ts) \<noteq> []" by simp
  then obtain u us where "remdups_adj (t # ts) = u # us" by (cases "remdups_adj (t # ts)") simp
  then show "changes tid (t # ts) = (if t = tid then changes t ts else Suc (changes t ts))"
    by (simp add: changes_def)
qed (simp add: changes_def)

lemma count_interleaves_chain:
  "chain mp_load (link (cmem c)) b xs \<Longrightarrow> length xs < f \<Longrightarrow>
    count_interleaves f c len b 0 tid n = Inr (n + changes tid (map (node_tid c) xs), [])"
proof (induction xs arbitrary: b f tid n)
  case Nil
  then show ?case by (cases f) auto
next
  case (Cons x xs)
  then obtain f' where "f = Suc f'" by (cases f) auto
  with Cons show ?case by (simp add: Let_def)
qed

text \<open>
  The number of changes of the thread along the list \<open>xs\<close> and the number \<open>k\<close> of exchanges, both
  also in percent of the number of nodes.
\<close>

definition report :: "nat \<Rightarrow> nat \<Rightarrow> nat \<Rightarrow> string" where
  "report len n k =
     ''Interleaves '' @ dec_digits n @ '' of '' @ dec_digits len @ '' '' @ dec_digits (n * 100 div len) @ ''%'' @ endl @
     ''CAS counts '' @ dec_digits k @ '', '' @ dec_digits (k * 100 div len) @ ''%'' @ endl"

definition list_changes :: "ct_sys \<Rightarrow> uptr list \<Rightarrow> nat" where
  "list_changes c xs = length (remdups_adj (map (node_tid c) xs)) - 1"

lemma check_test_0_reports:
  assumes "chain mp_load (link (cmem c)) (mp_load (top (cmem c))) xs" "xs \<noteq> []" "length xs < f" "0 < T * N"
  shows "check_test_0 f T N c = Inr (report (T * N) (list_changes c xs) (sum_list (cas_counts c)))"
proof -
  obtain x ys where xs: "xs = x # ys" using assms(2) by (cases xs) auto
  have h: "mp_load (top (cmem c)) = x" "x \<noteq> nullptr" using assms(1) xs by auto
  have "count_interleaves f c (T * N) x 0 (node_tid c x) 0 = Inr (changes (node_tid c x) (map (node_tid c) xs), [])"
    using count_interleaves_chain [OF assms(1,3)] h by simp
  moreover have "changes (node_tid c x) (map (node_tid c) xs) = list_changes c xs"
    by (simp add: xs list_changes_def changes_def)
  ultimately show ?thesis
    using assms(4) h by (simp add: check_test_0_def percent_def report_def Let_def)
qed

section \<open>The invariant\<close>

text \<open>The output of the main thread, with the report \<open>r\<close>.\<close>

definition test_head :: "nat \<Rightarrow> string" where
  "test_head n = ''Test '' @ dec_digits n @ '')'' @ endl"

definition go_line :: string where
  "go_line = [CHR 0x09] @ ''All threads ready, GO!'' @ endl"

definition check_line :: string where
  "check_line = [CHR 0x09] @ ''Checking...!'' @ endl"

definition test_output :: "string \<Rightarrow> nat \<Rightarrow> string" where
  "test_output r n = test_head n @ go_line @ check_line @ (if n = 0 then r else []) @ [CHR 0x09] @ ''Done.'' @ endl"

definition tests_output :: "string \<Rightarrow> string \<Rightarrow> nat \<Rightarrow> string" where
  "tests_output head r n = ''main '' @ head @ endl @ concat (map (test_output r) [0..<n])"

definition whole_output :: "string \<Rightarrow> string \<Rightarrow> string" where
  "whole_output head r = tests_output head r 2 @ endl @ ''All Done. '' @ endl"

fun con_at :: "string \<Rightarrow> string \<Rightarrow> main_place \<Rightarrow> string" where
  "con_at head r (MTids i b) = []"
| "con_at head r (MTest n) = tests_output head r n"
| "con_at head r (MWaitReady n) = tests_output head r n @ test_head n"
| "con_at head r (MGo n) = tests_output head r n @ test_head n"
| "con_at head r (MWaitComplete n) = tests_output head r n @ test_head n @ go_line"
| "con_at head r (MCheck n) = tests_output head r n @ test_head n @ go_line @ check_line"
| "con_at head r (MJoin i) = tests_output head r 2"
| "con_at head r MEnd = whole_output head r"

text \<open>How far the main thread is, in the order of its places.\<close>

fun rank :: "main_place \<Rightarrow> nat" where
  "rank (MTids i b) = 0"
| "rank (MTest n) = 10 * n + 1"
| "rank (MWaitReady n) = 10 * n + 2"
| "rank (MGo n) = 10 * n + 3"
| "rank (MWaitComplete n) = 10 * n + 4"
| "rank (MCheck n) = 10 * n + 5"
| "rank (MJoin i) = 30"
| "rank MEnd = 31"

fun main_n :: "nat \<Rightarrow> main_place \<Rightarrow> bool" where
  "main_n T (MTest n) \<longleftrightarrow> n \<le> 2"
| "main_n T (MTids i b) \<longleftrightarrow> True"
| "main_n T (MJoin i) \<longleftrightarrow> i \<le> T"
| "main_n T MEnd \<longleftrightarrow> True"
| "main_n T (MWaitReady n) \<longleftrightarrow> n < 2"
| "main_n T (MGo n) \<longleftrightarrow> n < 2"
| "main_n T (MWaitComplete n) \<longleftrightarrow> n < 2"
| "main_n T (MCheck n) \<longleftrightarrow> n < 2"

fun joined :: "nat \<Rightarrow> main_place \<Rightarrow> nat" where
  "joined T (MJoin i) = i"
| "joined T MEnd = T"
| "joined T pc = 0"

definition main_ok :: "nat \<Rightarrow> nat \<Rightarrow> string \<Rightarrow> cm_sys \<Rightarrow> uptr list \<Rightarrow> bool" where
  "main_ok T N head s xs \<longleftrightarrow> main_n T (main_place s) \<and>
     (go (ct s) \<longleftrightarrow> 4 \<le> rank (main_place s)) \<and>
     (3 \<le> rank (main_place s) \<longrightarrow> TReady \<notin> set (cplaces (ct s))) \<and>
     (5 \<le> rank (main_place s) \<longrightarrow> set (cplaces (ct s)) \<subseteq> {TDone}) \<and>
     (\<forall>t<joined T (main_place s). th_places s ! t = FnEnd) \<and>
     con s = con_at head (report (T * N) (list_changes (ct s) xs) (sum_list (cas_counts (ct s)))) (main_place s)"

fun place_ok :: "nat \<Rightarrow> th_place \<Rightarrow> ct_pc \<Rightarrow> bool" where
  "place_ok N (FnInit x) p \<longleftrightarrow> x \<le> N \<and> p = TReady"
| "place_ok N FnTest0 p \<longleftrightarrow> True"
| "place_ok N (FnTest1 q) p \<longleftrightarrow> p = TDone"
| "place_ok N FnEnd p \<longleftrightarrow> p = TDone"

fun fields_done :: "nat \<Rightarrow> th_place \<Rightarrow> nat" where
  "fields_done N (FnInit x) = x"
| "fields_done N pc = N"

definition cm_ok :: "nat \<Rightarrow> nat \<Rightarrow> (nat \<Rightarrow> nat \<Rightarrow> uptr) \<Rightarrow> string \<Rightarrow> (uptr \<Rightarrow> int) \<Rightarrow> (uptr \<Rightarrow> nat) \<Rightarrow> cm_sys \<Rightarrow> uptr list \<Rightarrow> bool" where
  "cm_ok T N node head v d s xs \<longleftrightarrow> ct_counts T N (ct s) \<and> ct_ok T N node (virt (ct s) v d) xs \<and> length (th_places s) = T \<and>
     (\<forall>t<T. place_ok N (th_places s ! t) (cplaces (ct s) ! t) \<and>
        (\<forall>x<fields_done N (th_places s ! t). node_v (ct s) (node t x) = v (node t x) \<and> node_tid (ct s) (node t x) = d (node t x))) \<and>
     (go (ct s) \<or> set (cplaces (ct s)) \<subseteq> {TReady, TWaitGo}) \<and> main_ok T N head s xs"

lemma step_place:
  assumes "test_0_step T N node t c = Inr c'" "t < length (cplaces c)"
  shows "cplaces c' ! t \<noteq> TReady"
  using assms by (auto simp: test_0_step_def Let_def split: ct_pc.splits prod.splits if_splits option.splits)

lemma ct_ok_go: "ct_ok T N node (c\<lparr>go := g\<rparr>) xs = ct_ok T N node c xs"
proof -
  have "thr_ok N nd (c\<lparr>go := g\<rparr>) xs t pc = thr_ok N nd c xs t pc" for nd t pc
    by (cases pc) (auto simp: own_def)
  then show ?thesis by (simp add: ct_ok_def)
qed

lemma con_low: "rank pc < 10 \<Longrightarrow> con_at head r pc = con_at head r' pc"
  by (cases pc) (auto simp: tests_output_def)

lemma cm_okD:
  assumes "cm_ok T N node head v d s xs"
  shows "ct_counts T N (ct s)" "ct_ok T N node (virt (ct s) v d) xs" "length (th_places s) = T" "length (cplaces (ct s)) = T"
    "\<And>t. t < T \<Longrightarrow> place_ok N (th_places s ! t) (cplaces (ct s) ! t)"
    "\<And>t x. t < T \<Longrightarrow> x < fields_done N (th_places s ! t) \<Longrightarrow> node_v (ct s) (node t x) = v (node t x) \<and> node_tid (ct s) (node t x) = d (node t x)"
    "go (ct s) \<or> set (cplaces (ct s)) \<subseteq> {TReady, TWaitGo}" "main_ok T N head s xs"
  using assms by (auto simp: cm_ok_def ct_counts_def)

text \<open>Steps of a thread that do not touch the first test.\<close>

lemma cm_outside:
  assumes ok: "cm_ok T N node head v d s xs" and t: "t < T" and s: "ct s' = ct s" "th_places s' = (th_places s)[t := p]"
    "main_place s' = main_place s" "con s' = con s"
    and p: "place_ok N p (cplaces (ct s) ! t)" "fields_done N p \<le> fields_done N (th_places s ! t)"
    and run: "th_places s ! t \<noteq> FnEnd"
  shows "cm_ok T N node head v d s' xs"
proof -
  note o = cm_okD [OF ok]
  have "\<not> t < joined T (main_place s)" using o(8) run unfolding main_ok_def by blast
  then have "main_ok T N head s' xs" using o(8) s by (auto simp: main_ok_def nth_list_update)
  moreover have "place_ok N (th_places s' ! u) (cplaces (ct s) ! u) \<and> (\<forall>x<fields_done N (th_places s' ! u).
      node_v (ct s) (node u x) = v (node u x) \<and> node_tid (ct s) (node u x) = d (node u x))" if "u < T" for u
    using o(5,6) [OF that] t p s(2) that by (cases "u = t") (auto simp: o(3))
  ultimately show ?thesis using o s by (simp add: cm_ok_def)
qed

lemma thread_init_ok:
  assumes lay: "layout T N node" and ok: "cm_ok T N node head v d s xs" and t: "t < T" and pl: "th_places s ! t = FnInit x"
  shows "\<exists>s'. thread_step T N node t s = Inr s' \<and> cm_ok T N node head v d s' xs"
proof (cases "x < N")
  case False
  let ?s = "(fn_goto t FnTest0 s)\<lparr>tid_sets := (tid_sets s)[t := True]\<rparr>"
  have "x = N" using cm_okD(5) [OF ok t] pl False by simp
  then have "cm_ok T N node head v d ?s xs"
    by (intro cm_outside [OF ok t, where p = FnTest0]) (simp_all add: pl)
  then show ?thesis using False pl by (simp add: thread_step_def)
next
  case True
  note o = cm_okD [OF ok]
  let ?c = "(ct s)\<lparr>node_v := (node_v (ct s))(node t x := int x), node_tid := (node_tid (ct s))(node t x := t)\<rparr>"
  let ?s = "(fn_goto t (FnInit (Suc x)) s)\<lparr>ct := ?c\<rparr>"
  have ready: "cplaces (ct s) ! t = TReady" using o(5) [OF t] pl by simp
  then have "TReady \<in> set (cplaces (ct s))" using o(4) t by (metis nth_mem)
  then have low: "rank (main_place s) < 3" using o(8) unfolding main_ok_def by (meson not_le)
  have nj: "\<not> t < joined T (main_place s)" using o(8) pl by (auto simp: main_ok_def)
  have "main_ok T N head ?s xs"
    using o(8) low nj con_low [of "main_place s" head] unfolding main_ok_def by (auto simp: nth_list_update)
  moreover have "place_ok N (th_places ?s ! u) (cplaces (ct s) ! u) \<and> (\<forall>y<fields_done N (th_places ?s ! u).
      node_v ?c (node u y) = v (node u y) \<and> node_tid ?c (node u y) = d (node u y))" if u: "u < T" for u
  proof (cases "u = t")
    case True
    have "v (node t x) = int x" "d (node t x) = t" using o(2) t \<open>x < N\<close> by (auto simp: ct_ok_def fields_set_def)
    then show ?thesis using o(5,6) [OF t] o(3) t pl ready \<open>x < N\<close> True by (auto simp: less_Suc_eq)
  next
    case False
    have "node u y \<noteq> node t x" if "y < N" for y
      proof
      assume "node u y = node t x"
      then have "(u, y) = (t, x)"
        using lay u t that \<open>x < N\<close> unfolding layout_def by (intro inj_onD [of "\<lambda>(t, x). node t x" "{..<T} \<times> {..<N}"]) auto
      with False show False by simp
    qed
    moreover have "fields_done N (th_places s ! u) \<le> N" using o(5) [OF u] by (cases "th_places s ! u") auto
    ultimately show ?thesis using o(5,6) [OF u] False by auto
  qed
  ultimately have "cm_ok T N node head v d ?s xs"
    using o(1,2,3,7) by (simp add: cm_ok_def ct_counts_def)
  then show ?thesis using True pl by (simp add: thread_step_def)
qed

lemma thread_test0_ok:
  assumes lay: "layout T N node" and ok: "cm_ok T N node head v d s xs" and t: "t < T" and pl: "th_places s ! t = FnTest0"
    and run: "cplaces (ct s) ! t \<noteq> TDone"
  shows "\<exists>s' xs'. thread_step T N node t s = Inr s' \<and> cm_ok T N node head v d s' xs'"
proof -
  note o = cm_okD [OF ok]
  let ?c = "ct s"
  have agree: "node_v ?c b = v b \<and> node_tid ?c b = d b" if sc: "cplaces ?c ! t = TScan b w n" "b \<noteq> nullptr" for b w n
  proof -
    have "thr_ok N (node t) (virt ?c v d) xs t (TScan b w n)" using o(2) t sc by (auto simp: ct_ok_def)
    then obtain as bs where "xs = as @ bs" "chain mp_load (link (cmem ?c)) b bs" by auto
    with sc(2) have "b \<in> set xs" by (cases bs) auto
    then obtain u y where b: "b = node u y" "u < T" "y < N" using o(2) by (auto simp: ct_ok_def)
    have "cplaces ?c ! t \<in> set (cplaces ?c)" using o(4) t by simp
    with sc have "go ?c" using o(7) by auto
    then have "TReady \<notin> set (cplaces ?c)" using o(8) by (auto simp: main_ok_def)
    moreover have "cplaces ?c ! u \<in> set (cplaces ?c)" using o(4) b(2) by simp
    ultimately have "fields_done N (th_places s ! u) = N" using o(5) [OF b(2)] by (cases "th_places s ! u") auto
    then show ?thesis using o(6) [OF b(2)] b by simp
  qed
  obtain c2 xs' where c2: "test_0_step T N node t (virt ?c v d) = Inr c2" "ct_ok T N node c2 xs'"
    using ct_step_ok [OF lay o(2) t] by blast
  then obtain c1 where c1: "test_0_step T N node t ?c = Inr c1" "c2 = virt c1 v d"
    using virt_step [of ?c t v d T N node] agree by (auto simp: bind_r_Inr_iff)
  note f = step_frame [OF c1(1)]
  have place: "cplaces c1 ! t \<noteq> TReady" using step_place [OF c1(1)] o(4) t by simp
  obtain p where p: "cplaces c1 = (cplaces ?c)[t := p]" using f by blast
  have np: "p \<noteq> TReady" using place p o(4) t by simp
  have in_set: "cplaces ?c ! t \<in> set (cplaces ?c)" using o(4) t by simp
  have low: "rank (main_place s) < 5" using o(8) run in_set unfolding main_ok_def by (metis not_le singletonD subsetD)
  let ?s = "s\<lparr>ct := c1\<rparr>"
  have "main_ok T N head ?s xs'"
    using o(8) low f np p con_low [of "main_place s" head] unfolding main_ok_def
    by (auto dest!: subsetD [OF set_update_subset_insert])
  moreover have "ct_counts T N c1"
    using ct_counts_step [OF o(1) t c1(1)] o(2) t by (fastforce simp: ct_ok_def)
  moreover have "go c1 \<or> set (cplaces c1) \<subseteq> {TReady, TWaitGo}"
  proof (cases "go ?c")
    case False
    then have "set (cplaces ?c) \<subseteq> {TReady, TWaitGo}" using o(7) by blast
    moreover from this step_waits [OF c1(1) False] in_set obtain q where "q \<in> {TReady, TWaitGo}" "cplaces c1 = (cplaces ?c)[t := q]" by blast
    ultimately show ?thesis using set_update_subset_insert [of "cplaces ?c" t q] by auto
  qed (use f in simp)
  moreover have "place_ok N (th_places s ! u) (cplaces c1 ! u)" if "u < T" for u
    using o(5) [OF that] pl p by (cases "u = t") auto
  ultimately have "cm_ok T N node head v d ?s xs'"
    using o(3,6) c2(2) c1(2) f by (simp add: cm_ok_def)
  then show ?thesis using c1(1) pl run by (auto simp: thread_step_def)
qed

lemma thread_ok:
  assumes lay: "layout T N node" and ok: "cm_ok T N node head v d s xs" and t: "t < T"
  shows "\<exists>s' xs'. thread_step T N node t s = Inr s' \<and> cm_ok T N node head v d s' xs'"
proof -
  note o = cm_okD [OF ok]
  show ?thesis
  proof (cases "th_places s ! t")
    case (FnInit x)
    then show ?thesis using thread_init_ok [OF lay ok t] by blast
  next
    case FnTest0
    show ?thesis
    proof (cases "cplaces (ct s) ! t = TDone")
      case True
      have "cm_ok T N node head v d (fn_goto t (FnTest1 OReady) s) xs"
        by (rule cm_outside [OF ok t, where p = "FnTest1 OReady"]) (simp_all add: FnTest0 True)
      then show ?thesis using True FnTest0 by (auto simp: thread_step_def)
    next
      case False
      then show ?thesis using thread_test0_ok [OF lay ok t FnTest0] by blast
    qed
  next
    case (FnTest1 q)
    have d: "cplaces (ct s) ! t = TDone" using o(5) [OF t] FnTest1 by simp
    have stay: "(th_places s)[t := FnTest1 q] = th_places s" using FnTest1 list_update_id [of "th_places s" t] by simp
    have "\<exists>p. th_places (test_1_step t q s) = (th_places s)[t := p] \<and> (p = FnEnd \<or> (\<exists>q'. p = FnTest1 q'))"
    proof (cases "q = OWaitGo \<and> \<not> r1_go s")
      case True
      then show ?thesis using stay by (auto simp: test_1_step_def intro!: exI [of _ "FnTest1 q"])
    qed (cases q; auto simp: test_1_step_def)
    then obtain p where p: "th_places (test_1_step t q s) = (th_places s)[t := p]" "p = FnEnd \<or> (\<exists>q'. p = FnTest1 q')" by blast
    have "ct (test_1_step t q s) = ct s" "main_place (test_1_step t q s) = main_place s" "con (test_1_step t q s) = con s"
      by (cases q; simp add: test_1_step_def)+
    then have "cm_ok T N node head v d (test_1_step t q s) xs"
      by (rule cm_outside [OF ok t _ p(1)]) (use p(2) FnTest1 d in auto)
    then show ?thesis using FnTest1 by (auto simp: thread_step_def)
  next
    case FnEnd
    then show ?thesis using ok by (auto simp: thread_step_def)
  qed
qed

text \<open>The main thread.\<close>

lemma all_of_count: "length ps \<le> length (filter P ps) \<Longrightarrow> x \<in> set ps \<Longrightarrow> P x"
  using length_filter_less [of x ps P] by (meson not_le)

lemma cm_main_move:
  assumes ok: "cm_ok T N node head v d s xs" and s: "ct s' = ct s" "th_places s' = th_places s" and m: "main_ok T N head s' xs"
  shows "cm_ok T N node head v d s' xs"
  using ok s m by (simp add: cm_ok_def)

lemma tests_output_Suc: "tests_output head r (Suc n) = tests_output head r n @ test_output r n"
  by (simp add: tests_output_def)

lemma main_thread_ok:
  assumes lay: "layout T N node" and ok: "cm_ok T N node head v d s xs" and f: "T * N < f" and pos: "0 < T" "0 < N"
  shows "\<exists>s'. main_step f T N head s = Inr s' \<and> cm_ok T N node head v d s' xs"
proof -
  note o = cm_okD [OF ok]
  note m = o(8) [unfolded main_ok_def]
  note c = o(1) [unfolded ct_counts_def]
  show ?thesis
  proof (cases "main_place s")
    case (MTids i b)
    then show ?thesis using m
      by (auto simp: main_step_def main_to_def main_ok_def tests_output_def intro!: cm_main_move [OF ok])
  next
    case (MTest n)
    then show ?thesis using m
      by (cases "n < 2") (auto simp: main_step_def main_to_def main_ok_def test_head_def intro!: cm_main_move [OF ok])
  next
    case (MWaitReady n)
    have "TReady \<notin> set (cplaces (ct s))" if "\<not> num_ready (ct s) < T"
      using all_of_count [of "cplaces (ct s)" "\<lambda>p. p \<noteq> TReady" TReady] that c by auto
    moreover have "n = 0 \<or> n = 1" using MWaitReady m by auto
    ultimately show ?thesis using m ok MWaitReady
      by (auto simp: main_step_def main_to_def main_ok_def intro!: cm_main_move [OF ok])
  next
    case (MGo n)
    have n: "n = 0 \<or> n = 1" using MGo m by auto
    show ?thesis
    proof (cases "n = 0")
      case True
      let ?s = "main_to (MWaitComplete 0) go_line s"
      have sw: "virt ((ct s)\<lparr>go := True\<rparr>) v d = (virt (ct s) v d)\<lparr>go := True\<rparr>" by simp
      have g: "ct_ok T N node (virt ((ct s)\<lparr>go := True\<rparr>) v d) xs" unfolding sw ct_ok_go by (rule o(2))
      have "cm_ok T N node head v d (?s\<lparr>ct := (ct s)\<lparr>go := True\<rparr>\<rparr>) xs"
        using o m MGo True g
        by (simp add: cm_ok_def ct_counts_def main_ok_def main_to_def list_changes_def)
      then show ?thesis using True MGo by (simp add: main_step_def main_to_def go_line_def Let_def)
    next
      case False
      then show ?thesis using n m MGo
        by (auto simp: main_step_def main_to_def main_ok_def go_line_def Let_def intro!: cm_main_move [OF ok])
    qed
  next
    case (MWaitComplete n)
    have "set (cplaces (ct s)) \<subseteq> {TDone}" if "\<not> num_complete (ct s) < T"
      using all_of_count [of "cplaces (ct s)" "\<lambda>p. p = TDone"] that c by auto
    moreover have "n = 0 \<or> n = 1" using MWaitComplete m by auto
    ultimately show ?thesis using m ok MWaitComplete
      by (auto simp: main_step_def main_to_def main_ok_def check_line_def intro!: cm_main_move [OF ok])
  next
    case (MCheck n)
    have n: "n = 0 \<or> n = 1" using MCheck m by auto
    have done': "set (cplaces (ct s)) \<subseteq> {TDone}" using MCheck m by simp
    then have "length xs = T * N" using ct_all_done(1) [OF lay o(2)] by simp
    moreover have "0 < T * N" using pos by simp
    moreover have "chain mp_load (link (cmem (ct s))) (mp_load (top (cmem (ct s)))) xs" using o(2) by (simp add: ct_ok_def)
    ultimately have r: "check_test_0 f T N (ct s) = Inr (report (T * N) (list_changes (ct s) xs) (sum_list (cas_counts (ct s))))"
      using f by (intro check_test_0_reports) auto
    show ?thesis using n m MCheck
      by (auto simp: main_step_def r main_to_def main_ok_def tests_output_Suc test_output_def intro!: cm_main_move [OF ok])
  next
    case (MJoin i)
    then show ?thesis using m
      by (auto simp: main_step_def main_to_def main_ok_def whole_output_def less_Suc_eq intro!: cm_main_move [OF ok])
  next
    case MEnd
    then show ?thesis using ok by (auto simp: main_step_def)
  qed
qed

section \<open>The whole program\<close>

lemma fields_exist:
  assumes "layout T N node"
  obtains v d where "fields_set T N node v d"
proof -
  let ?i = "the_inv_into ({..<T} \<times> {..<N}) (\<lambda>(t, x). node t x)"
  have "?i (node t x) = (t, x)" if "t < T" "x < N" for t x
    using the_inv_into_f_f [of "\<lambda>(t, x). node t x" "{..<T} \<times> {..<N}" "(t, x)"] assms that by (simp add: layout_def)
  then have "fields_set T N node (\<lambda>b. int (snd (?i b))) (\<lambda>b. fst (?i b))"
    by (simp add: fields_set_def)
  with that show ?thesis by blast
qed

lemma cm_init_ok:
  assumes "fields_set T N node v d"
  shows "cm_ok T N node head v d (cm_init T) []"
proof -
  have "ct_ok T N node (virt (ct (cm_init T)) v d) []"
    using assms by (simp add: ct_ok_def cm_init_def ct_init_def mp.mem_ok_def mp_init_def)
  then show ?thesis
    by (auto simp: cm_ok_def cm_init_def ct_init_def ct_counts_def main_ok_def)
qed

lemma cm_reach_ok:
  assumes "cm_reach f T N node head s" "layout T N node" "fields_set T N node v d" "T * N < f" "0 < T" "0 < N"
  shows "\<exists>xs. cm_ok T N node head v d s xs"
  using assms
proof (induction rule: cm_reach.induct)
  case init
  then show ?case using cm_init_ok by blast
next
  case (thread s t s')
  then obtain xs where "cm_ok T N node head v d s xs" by blast
  from thread_ok [OF thread.prems(1) this thread.hyps(2)] thread.hyps(3) show ?case by auto
next
  case (main s s')
  then obtain xs where "cm_ok T N node head v d s xs" by blast
  from main_thread_ok [OF main.prems(1) this main.prems(3-5)] main.hyps(2) show ?case by auto
qed

text \<open>C20: the program \<open>castest\<close>, in every interleaving of the main thread with the others, and for any
  numbers of threads and nodes: no thread and no step of the main thread fails, no error is
  reported, and when the main thread has printed its last line all threads have returned. The list
  then holds each node once, those of each thread in ascending order; the report of
  \<open>check_test_0\<close> in the output gives the number of places of this list where the thread changes, and
  the number of exchanges, which is at least the number of nodes.\<close>

theorem castest_program:
  assumes "layout T N node" "T * N < f" "0 < T" "0 < N" "cm_reach f T N node head s"
  shows "errors (ct s) = 0 \<and> (\<forall>t<T. \<exists>s'. thread_step T N node t s = Inr s') \<and> (\<exists>s'. main_step f T N head s = Inr s') \<and>
    (main_place s = MEnd \<longrightarrow> (\<forall>t<T. th_places s ! t = FnEnd) \<and>
      (\<exists>xs. chain mp_load (link (cmem (ct s))) (mp_load (top (cmem (ct s)))) xs \<and> distinct xs \<and> length xs = T * N \<and>
        (\<forall>t<T. filter (\<lambda>b. node_tid (ct s) b = t) xs = map (node t) [0..<N]) \<and>
        T * N \<le> sum_list (cas_counts (ct s)) \<and>
        con s = whole_output head (report (T * N) (list_changes (ct s) xs) (sum_list (cas_counts (ct s))))))"
proof -
  obtain v d where vd: "fields_set T N node v d" using fields_exist [OF assms(1)] .
  obtain xs where ok: "cm_ok T N node head v d s xs" using cm_reach_ok [OF assms(5,1) vd assms(2-4)] ..
  note o = cm_okD [OF ok]
  have e: "errors (ct s) = 0" using o(2) by (simp add: ct_ok_def)
  have th: "\<exists>s'. thread_step T N node t s = Inr s'" if "t < T" for t using thread_ok [OF assms(1) ok that] by blast
  have mn: "\<exists>s'. main_step f T N head s = Inr s'" using main_thread_ok [OF assms(1) ok assms(2-4)] by blast
  have fin: "(\<forall>t<T. th_places s ! t = FnEnd) \<and>
      (\<exists>xs. chain mp_load (link (cmem (ct s))) (mp_load (top (cmem (ct s)))) xs \<and> distinct xs \<and> length xs = T * N \<and>
        (\<forall>t<T. filter (\<lambda>b. node_tid (ct s) b = t) xs = map (node t) [0..<N]) \<and>
        T * N \<le> sum_list (cas_counts (ct s)) \<and>
        con s = whole_output head (report (T * N) (list_changes (ct s) xs) (sum_list (cas_counts (ct s)))))" if "main_place s = MEnd"
  proof -
    have m: "set (cplaces (ct s)) \<subseteq> {TDone}" "\<forall>t<T. th_places s ! t = FnEnd"
      "con s = whole_output head (report (T * N) (list_changes (ct s) xs) (sum_list (cas_counts (ct s))))"
      using o(8) that by (simp_all add: main_ok_def)
    note all = ct_all_done [OF assms(1) o(2)]
    have tid: "node_tid (ct s) b = d b" if "b \<in> set xs" for b
    proof -
      from that o(2) obtain u y where "b = node u y" "u < T" "y < N" by (auto simp: ct_ok_def)
      then show ?thesis using o(6) [of u y] m(2) by simp
    qed
    then have "filter (\<lambda>b. node_tid (ct s) b = t) xs = filter (\<lambda>b. d b = t) xs" for t
      by (intro filter_cong) simp_all
    then have "filter (\<lambda>b. node_tid (ct s) b = t) xs = map (node t) [0..<N]" if "t < T" for t using all(2) [of t] that m(1) by simp
    moreover have "T * N \<le> sum_list (cas_counts (ct s))"
    proof -
      have len: "length (cas_counts (ct s)) = T" using o(1) by (simp add: ct_counts_def)
      have "N \<le> cas_counts (ct s) ! t" if "t < T" for t
      proof -
        have "cplaces (ct s) ! t = TDone" using m(1) o(4) that by (metis nth_mem singletonD subsetD)
        then show ?thesis using o(1) that by (fastforce simp: ct_counts_def)
      qed
      then have "sum_list (replicate T N) \<le> sum_list (cas_counts (ct s))"
        using len by (intro sum_list_mono2) simp_all
      then show ?thesis by (simp add: sum_list_replicate)
    qed
    ultimately show ?thesis using m all(1) o(2) by (intro conjI exI [of _ xs]) (simp_all add: ct_ok_def)
  qed
  show ?thesis using e th mn fin by blast
qed

text \<open>A schedule of the program: steps of threads, and of the main thread.\<close>

fun cm_run :: "nat \<Rightarrow> nat \<Rightarrow> nat \<Rightarrow> (nat \<Rightarrow> nat \<Rightarrow> uptr) \<Rightarrow> string \<Rightarrow> nat option list \<Rightarrow> cm_sys \<Rightarrow> cm_sys res" where
  "cm_run f T N node head [] s = Inr s"
| "cm_run f T N node head (None # ts) s = bind_r (main_step f T N head s) (cm_run f T N node head ts)"
| "cm_run f T N node head (Some t # ts) s = bind_r (thread_step T N node t s) (cm_run f T N node head ts)"

lemma cm_run_reach:
  assumes "cm_run f T N node head ts s = Inr s'" "cm_reach f T N node head s" "\<And>t. Some t \<in> set ts \<Longrightarrow> t < T"
  shows "cm_reach f T N node head s'"
  using assms
proof (induction f T N node head ts s rule: cm_run.induct)
  case (2 f T N node head ts s)
  then obtain s1 where "main_step f T N head s = Inr s1" "cm_run f T N node head ts s1 = Inr s'" by (auto simp: bind_r_Inr_iff)
  with 2 show ?case by (auto intro: cm_reach.main)
next
  case (3 f T N node head t ts s)
  then obtain s1 where s1: "thread_step T N node t s = Inr s1" "cm_run f T N node head ts s1 = Inr s'" by (auto simp: bind_r_Inr_iff)
  have "cm_reach f T N node head s1" using 3 s1(1) by (auto intro: cm_reach.thread)
  then show ?case using 3 s1 by auto
qed auto

definition demo_turns :: "nat option list" where
  "demo_turns = concat (replicate 40 [Some 0, None, Some 1])"

lemma castest_program_witness:
  "\<exists>s n k. cm_run 3 2 1 demo_node ''head'' demo_turns (cm_init 2) = Inr s \<and> main_place s = MEnd \<and> 2 \<le> k \<and>
     con s = whole_output ''head'' (report 2 n k)"
proof -
  have lt: "t < 2 \<longleftrightarrow> t = 0 \<or> t = 1" for t :: nat by auto
  have lay: "layout 2 1 demo_node"
  proof -
    have s: "{..<2} \<times> {..<1} = {(0, 0), (1::nat, 0::nat)}" by (auto simp: lt)
    show ?thesis unfolding layout_def s
      by (auto simp: lt demo_node_def aligned_ptr_def mark_bits_mask_def inj_on_def)
  qed
  have "case cm_run 3 2 1 demo_node ''head'' demo_turns (cm_init 2) of Inr s \<Rightarrow> main_place s = MEnd | Inl e \<Rightarrow> False"
    by code_simp
  then obtain s where s: "cm_run 3 2 1 demo_node ''head'' demo_turns (cm_init 2) = Inr s" "main_place s = MEnd"
    by (cases "cm_run 3 2 1 demo_node ''head'' demo_turns (cm_init 2)") auto
  have "cm_reach 3 2 1 demo_node ''head'' s"
    using cm_reach.init by (intro cm_run_reach [OF s(1)]) (auto simp: demo_turns_def)
  from castest_program [OF lay _ _ _ this] s(2) obtain n k where "2 \<le> k" "con s = whole_output ''head'' (report 2 n k)" by auto
  with s show ?thesis by blast
qed

end
