(* ===== verification/HpTest.thy ===== *)
theory HpTest
  imports SolTest HazSystem
begin

text \<open>
  The test program of the hazard pointers, \<open>hptest.cpp\<close>. Its objects, of type \<open>B\<close>, report their
  construction and destruction on the standard output stream, indented by the depth of the scopes.
  The library writes nothing itself, so the destructor lines of an operation follow each other, in
  the order in which it reclaims the objects.
\<close>

section \<open>Objects and output\<close>

record hp_env =
  bv_new :: "nat \<Rightarrow> uptr"
  bv_fmt :: "uptr \<Rightarrow> string"
  bv_fuel :: nat

text \<open>
  The state: the domain with the objects that are alive, the variable \<open>scope\<close>, the output, the
  number of objects created so far, and their members \<open>v\<close>. \<open>bv_new e n\<close> is the address of object
  number \<open>n\<close>.
\<close>

record hp_world =
  t_dom :: domain
  t_scope :: nat
  t_out :: string
  t_new :: nat
  t_val :: "uptr \<Rightarrow> u32"

definition say :: "string \<Rightarrow> hp_world \<Rightarrow> hp_world" where
  "say x t = t\<lparr>t_out := t_out t @ replicate (t_scope t) (CHR 0x09) @ x @ endl\<rparr>"

definition new_B :: "hp_env \<Rightarrow> u32 \<Rightarrow> hp_world \<Rightarrow> uptr \<times> hp_world" where
  "new_B e x t =
     (let b = bv_new e (t_new t) in
      (b, say (''CTOR B '' @ bv_fmt e b @ '', v='' @ fmt_u x)
        (t\<lparr>t_dom := (t_dom t)\<lparr>objs := insert b (objs (t_dom t))\<rparr>, t_new := Suc (t_new t), t_val := (t_val t)(b := x)\<rparr>)))"

definition dtor_B :: "hp_env \<Rightarrow> uptr \<Rightarrow> hp_world \<Rightarrow> hp_world" where
  "dtor_B e b t = say (''DTOR B '' @ bv_fmt e b @ '', v='' @ fmt_u (t_val t b)) t"

text \<open>An operation of the library, with the output of the destructors it runs.\<close>

definition lib :: "hp_env \<Rightarrow> (domain \<Rightarrow> ('a \<times> domain) res) \<Rightarrow> hp_world \<Rightarrow> ('a \<times> hp_world) res" where
  "lib e op t =
     bind_r (op (t_dom t)) (\<lambda>(x, d).
       Inr (x, fold (dtor_B e) (rev (take (length (reclaimed d) - length (reclaimed (t_dom t))) (reclaimed d))) (t\<lparr>t_dom := d\<rparr>)))"

definition lib_do :: "hp_env \<Rightarrow> (domain \<Rightarrow> domain res) \<Rightarrow> hp_world \<Rightarrow> hp_world res" where
  "lib_do e op t = bind_r (lib e (\<lambda>d. bind_r (op d) (\<lambda>d. Inr ((), d))) t) (\<lambda>(_, t). Inr t)"

definition enter :: "hp_world \<Rightarrow> hp_world" where
  "enter t = t\<lparr>t_scope := Suc (t_scope t)\<rparr>"

definition leave :: "string \<Rightarrow> hp_world \<Rightarrow> hp_world" where
  "leave x t = say x (t\<lparr>t_scope := t_scope t - 1\<rparr>)"

text \<open>\<open>hazard_pointer_domain<B>::make()\<close>\<close>

definition hp_make :: "hp_world \<Rightarrow> hp_world" where
  "hp_make t = t\<lparr>t_dom := dom_make (objs (t_dom t))\<rparr>"

text \<open>\<open>hazard_pointers()[i] = b\<close>, without a check of the index.\<close>

definition hps_set :: "nat \<Rightarrow> uptr \<Rightarrow> hpcontext \<Rightarrow> domain \<Rightarrow> domain res" where
  "hps_set i b c d = bind_r (hp_store (fst (hazard_ptrs c), snd (hazard_ptrs c) + i) b (pools d)) (\<lambda>ps. Inr (d\<lparr>pools := ps\<rparr>))"

definition say_hazps :: "hp_env \<Rightarrow> hpcontext \<Rightarrow> hp_world \<Rightarrow> hp_world res" where
  "say_hazps e c t =
     bind_r (ctx_at 0 c (t_dom t)) (\<lambda>p0. bind_r (ctx_at 1 c (t_dom t)) (\<lambda>p1. bind_r (ctx_at 2 c (t_dom t)) (\<lambda>p2.
       Inr (say (''hp1 hazps are '' @ bv_fmt e p0 @ '', '' @ bv_fmt e p1 @ '', '' @ bv_fmt e p2) t))))"

text \<open>The statement that announces the second context shows a hazard pointer of the first one.\<close>

definition say_hp2 :: "hp_env \<Rightarrow> hpcontext \<Rightarrow> hp_world \<Rightarrow> hp_world res" where
  "say_hp2 e c1 t = bind_r (ctx_at 0 c1 (t_dom t)) (\<lambda>p. Inr (say (''hp2 hazps are '' @ bv_fmt e p) t))"

fun delete_each :: "hp_env \<Rightarrow> (uptr \<Rightarrow> hp_world \<Rightarrow> hp_world) \<Rightarrow> nat \<Rightarrow> uptr list \<Rightarrow> hpcontext \<Rightarrow> hp_world \<Rightarrow> (hpcontext \<times> hp_world) res" where
  "delete_each e announce R [] c t = Inr (c, t)"
| "delete_each e announce R (b # bs) c t =
     bind_r (lib e (delete_item (bv_fuel e) R b c) (announce b t)) (\<lambda>(c, t). delete_each e announce R bs c t)"

text \<open>The scopes end: the contexts and the domain are destroyed, inside out.\<close>

definition end_hp2 :: "hp_env \<Rightarrow> hpcontext \<Rightarrow> hp_world \<Rightarrow> hp_world res" where
  "end_hp2 e c t = bind_r (lib_do e (ctx_dtor (bv_fuel e) 3 c) t) (\<lambda>t. Inr (leave ''hp2 scope end'' t))"

definition end_hp1 :: "hp_env \<Rightarrow> hpcontext \<Rightarrow> hp_world \<Rightarrow> hp_world res" where
  "end_hp1 e c t =
     bind_r (lib_do e (ctx_dtor (bv_fuel e) 3 c) t) (\<lambda>t.
     let t = leave ''hp1 scope end'' t in
     bind_r (lib_do e hpd_dtor t) (\<lambda>t. Inr (leave ''hpdom scope end'' t)))"

section \<open>The tests\<close>

definition say_delete :: "hp_env \<Rightarrow> uptr \<Rightarrow> hp_world \<Rightarrow> hp_world" where
  "say_delete e b = say (''hp2 delete '' @ bv_fmt e b)"

definition hp_test0 :: "hp_env \<Rightarrow> hp_world \<Rightarrow> hp_world res" where
  "hp_test0 e t =
     (let t = say ''test0 nested hazard_pointer_context scopes, use public members functions at and store to access hazard pointers.'' t;
          t = hp_make (enter (say ''hpdom scope start'' t));
          t = enter (say ''hp1 scope start'' t) in
      bind_r (lib e (assoc_context (bv_fuel e) 3 3) t) (\<lambda>(hpc1, t).
      let (b1, t) = new_B e 1 t; (b2, t) = new_B e 2 t; (b3, t) = new_B e 3 t in
      bind_r (lib_do e (ctx_store 0 b1 hpc1) t) (\<lambda>t.
      bind_r (lib_do e (ctx_store 1 b2 hpc1) t) (\<lambda>t.
      bind_r (lib_do e (ctx_store 2 b3 hpc1) t) (\<lambda>t.
      bind_r (say_hazps e hpc1 t) (\<lambda>t.
      let t = enter (say ''hp2 scope start'' t) in
      bind_r (lib e (assoc_context (bv_fuel e) 3 3) t) (\<lambda>(hpc2, t).
      let (b4, t) = new_B e 4 t in
      bind_r (lib_do e (ctx_store 0 b4 hpc2) t) (\<lambda>t.
      bind_r (say_hp2 e hpc1 t) (\<lambda>t.
      bind_r (delete_each e (say_delete e) 3 [b1, b2, b3, b4] hpc2 t) (\<lambda>(hpc2, t).
      bind_r (end_hp2 e hpc2 t) (end_hp1 e hpc1)))))))))))"

definition hp_test1 :: "hp_env \<Rightarrow> hp_world \<Rightarrow> hp_world res" where
  "hp_test1 e t =
     (let t = say ''test2 nested hazard_pointer_context scopes, use public member hazard_pointers() to access.'' t;
          t = hp_make (enter (say ''hpdom scope start'' t));
          t = enter (say ''hp1 scope start'' t) in
      bind_r (lib e (ctx_ctor (bv_fuel e) 3 6) t) (\<lambda>(hpc1, t).
      let (b1, t) = new_B e 1 t; (b2, t) = new_B e 2 t; (b3, t) = new_B e 3 t in
      bind_r (lib_do e (hps_set 0 b1 hpc1) t) (\<lambda>t.
      bind_r (lib_do e (hps_set 1 b2 hpc1) t) (\<lambda>t.
      bind_r (lib_do e (hps_set 2 b3 hpc1) t) (\<lambda>t.
      bind_r (say_hazps e hpc1 t) (\<lambda>t.
      let t = enter (say ''hp2 scope start'' t) in
      bind_r (lib e (ctx_ctor (bv_fuel e) 3 6) t) (\<lambda>(hpc2, t).
      let (b4, t) = new_B e 4 t in
      bind_r (lib_do e (hps_set 0 b4 hpc2) t) (\<lambda>t.
      bind_r (say_hp2 e hpc1 t) (\<lambda>t.
      bind_r (delete_each e (say_delete e) 6 [b1, b2, b3, b4] hpc2 t) (\<lambda>(hpc2, t).
      bind_r (end_hp2 e hpc2 t) (end_hp1 e hpc1)))))))))))"

text \<open>\<open>tcs[i] = new B(i)\<close> for \<open>k\<close> indices from \<open>i\<close> on.\<close>

fun make_tcs :: "hp_env \<Rightarrow> nat \<Rightarrow> u32 \<Rightarrow> hp_world \<Rightarrow> uptr list \<times> hp_world" where
  "make_tcs e 0 i t = ([], t)"
| "make_tcs e (Suc k) i t =
     (case new_B e i t of (b, t) \<Rightarrow> case make_tcs e k (i + 1) t of (bs, t) \<Rightarrow> (b # bs, t))"

definition hp_test2 :: "hp_env \<Rightarrow> hp_world \<Rightarrow> hp_world res" where
  "hp_test2 e t =
     (let t = say ''test2 nested hazard_pointer_context scopes, innermost scope has R=0'' t;
          (tcs, t) = make_tcs e 4 0 t;
          t = hp_make (enter (say ''hpdom scope start'' t));
          t = enter (say ''hp1 scope start'' t) in
      bind_r (lib e (ctx_ctor (bv_fuel e) 3 6) t) (\<lambda>(hpc1, t).
      bind_r (lib_do e (hps_set 0 (tcs ! 0) hpc1) t) (\<lambda>t.
      bind_r (lib_do e (hps_set 1 (tcs ! 1) hpc1) t) (\<lambda>t.
      bind_r (lib_do e (hps_set 2 (tcs ! 3) hpc1) t) (\<lambda>t.
      bind_r (say_hazps e hpc1 t) (\<lambda>t.
      let t = enter (say ''hp2 scope start'' t) in
      bind_r (lib e (ctx_ctor (bv_fuel e) 3 0) t) (\<lambda>(hpc2, t).
      bind_r (lib_do e (hps_set 0 (tcs ! 3) hpc2) t) (\<lambda>t.
      bind_r (say_hp2 e hpc1 t) (\<lambda>t.
      bind_r (delete_each e (\<lambda>b. say (''hp2 delete all '' @ bv_fmt e b)) 0 tcs hpc2 t) (\<lambda>(hpc2, t).
      let t = say ''hp2 delete all complete.'' t in
      bind_r (end_hp2 e hpc2 t) (end_hp1 e hpc1)))))))))))"

definition hp_test3 :: "hp_env \<Rightarrow> hp_world \<Rightarrow> hp_world res" where
  "hp_test3 e t =
     (let t = say ''test2 nested hazard_pointer_context scopes, innermost scope has R=0, trigger collect cycle on delete item.'' t;
          (tcs, t) = make_tcs e 120 0 t;
          t = hp_make (enter (say ''hpdom scope start'' t));
          t = enter (say ''hp1 scope start'' t) in
      bind_r (lib e (ctx_ctor (bv_fuel e) 3 0) t) (\<lambda>(hpc1, t).
      bind_r (lib_do e (hps_set 0 (tcs ! 1) hpc1) t) (\<lambda>t.
      bind_r (lib_do e (hps_set 1 (tcs ! 2) hpc1) t) (\<lambda>t.
      bind_r (lib_do e (hps_set 2 (tcs ! 3) hpc1) t) (\<lambda>t.
      bind_r (say_hazps e hpc1 t) (\<lambda>t.
      let t = enter (say ''hp2 scope start'' t) in
      bind_r (lib e (ctx_ctor (bv_fuel e) 3 0) t) (\<lambda>(hpc2, t).
      bind_r (lib_do e (hps_set 0 (tcs ! 4) hpc2) t) (\<lambda>t.
      bind_r (say_hp2 e hpc1 t) (\<lambda>t.
      let t = say ''hp2 deleting all '' t in
      bind_r (delete_each e (\<lambda>b t. t) 0 tcs hpc2 t) (\<lambda>(hpc2, t).
      bind_r (end_hp2 e hpc2 t) (end_hp1 e hpc1)))))))))))"

text \<open>
  \<open>main\<close>: without arguments the four tests run, otherwise those whose numbers are given. \<open>strtoul\<close>
  stands for the function of the C library with base 0, with the part of its argument it did not
  convert; its result is cut to the 32 bits of \<open>unsigned\<close>.
\<close>

definition put :: "string \<Rightarrow> hp_world \<Rightarrow> hp_world" where
  "put x t = t\<lparr>t_out := t_out t @ x\<rparr>"

fun run_tests :: "(hp_world \<Rightarrow> hp_world res) list \<Rightarrow> hp_world \<Rightarrow> hp_world res" where
  "run_tests [] t = Inr t"
| "run_tests (f # fs) t = bind_r (f t) (\<lambda>t. run_tests fs (put (endl @ endl) t))"

definition testfuncs :: "hp_env \<Rightarrow> (hp_world \<Rightarrow> hp_world res) list" where
  "testfuncs e = [hp_test0 e, hp_test1 e, hp_test2 e, hp_test3 e]"

fun run_args :: "hp_env \<Rightarrow> (string \<Rightarrow> 64 word \<times> string) \<Rightarrow> string list \<Rightarrow> hp_world \<Rightarrow> hp_world res" where
  "run_args e strtoul [] t = Inr t"
| "run_args e strtoul (a # as) t =
     (case strtoul a of (n, ep) \<Rightarrow>
        let v = ucast n :: u32 in
        if ep \<noteq> [] then run_args e strtoul as (put (''garbage test number? '' @ a @ endl) t)
        else if unat v < length (testfuncs e)
        then bind_r ((testfuncs e ! unat v) t) (\<lambda>t. run_args e strtoul as (put (ep @ endl @ endl) t))
        else run_args e strtoul as (put (''Unknown test number '' @ fmt_u v @ endl) t))"

definition hp_main :: "hp_env \<Rightarrow> (string \<Rightarrow> 64 word \<times> string) \<Rightarrow> string list \<Rightarrow> hp_world \<Rightarrow> hp_world res" where
  "hp_main e strtoul args t =
     bind_r (if args = [] then run_tests (testfuncs e) t else run_args e strtoul args t) (\<lambda>t.
       Inr (put (''All Done. '' @ endl) t))"

section \<open>The domain in the tests\<close>

text \<open>
  In all tests the domain has one pool of 32 blocks with three hazard pointers, of which the first
  two blocks are used.
\<close>

definition tdom :: "uptr list \<Rightarrow> uptr list \<Rightarrow> u32 \<Rightarrow> uptr list \<Rightarrow> int \<Rightarrow> uptr set \<Rightarrow> uptr list \<Rightarrow> domain" where
  "tdom xs ys bm dl dc ob rc =
     \<lparr>pools = [\<lparr>pool_id = 0, haz_ptrs = xs @ ys @ replicate 90 nullptr, bitmap = bm, blk_size = 3, pool_count = 96\<rparr>],
      hp_count = 96, delete_list = dl, delete_count = dc, next_id = 1, objs = ob, reclaimed = rc\<rparr>"

definition tctx :: "nat \<Rightarrow> uptr list \<Rightarrow> nat \<Rightarrow> hpcontext" where
  "tctx i del n = \<lparr>deleted = del, del_index = n, hazard_ptrs = (0, i), ctx_size = 3, has_domain = True\<rparr>"

lemma tdom_sel [simp]:
  "pools (tdom xs ys bm dl dc ob rc) = [\<lparr>pool_id = 0, haz_ptrs = xs @ ys @ replicate 90 nullptr, bitmap = bm, blk_size = 3, pool_count = 96\<rparr>]"
  "hp_count (tdom xs ys bm dl dc ob rc) = 96" "delete_list (tdom xs ys bm dl dc ob rc) = dl"
  "delete_count (tdom xs ys bm dl dc ob rc) = dc" "objs (tdom xs ys bm dl dc ob rc) = ob" "reclaimed (tdom xs ys bm dl dc ob rc) = rc"
  by (simp_all add: tdom_def)

text \<open>The blocks in use, and that the others hold null pointers.\<close>

definition blocks_ok :: "uptr list \<Rightarrow> uptr list \<Rightarrow> u32 \<Rightarrow> bool" where
  "blocks_ok xs ys bm \<longleftrightarrow> length xs = 3 \<and> length ys = 3 \<and> (\<not> bit bm 0 \<longrightarrow> xs = [0, 0, 0]) \<and> (\<not> bit bm 1 \<longrightarrow> ys = [0, 0, 0])"

lemma tdom_ok:
  assumes "blocks_ok xs ys bm"
  shows "dom_ok 3 (tdom xs ys bm dl dc ob rc)"
proof -
  have x: "length xs = 3" "length ys = 3" using assms by (simp_all add: blocks_ok_def)
  have n: "(xs @ ys @ replicate 90 nullptr) ! (ix * 3 + k) = nullptr" if "ix < 32" "k < 3" "\<not> bit bm ix" for ix k :: nat
  proof -
    consider "ix = 0" | "ix = 1" | "2 \<le> ix" by linarith
    then show ?thesis
    proof cases
      case 1
      then have "xs = [0, 0, 0]" using assms that(3) by (simp add: blocks_ok_def)
      with 1 that(2) show ?thesis by (auto simp: nth_append nth_Cons' split: if_splits)
    next
      case 2
      then have "ys = [0, 0, 0]" using assms that(3) by (simp add: blocks_ok_def)
      with 2 that(2) x show ?thesis by (auto simp: nth_append nth_Cons' split: if_splits)
    next
      case 3
      then have "6 \<le> ix * 3 + k" by simp
      moreover from this have "\<not> ix * 3 + k - 3 < 3" "\<not> ix * 3 + k < 3" by simp_all
      moreover have "ix * 3 + k - 6 < 90" using that by simp
      ultimately show ?thesis using x by (simp add: nth_append)
    qed
  qed
  show ?thesis unfolding dom_ok_def pools_ok_def pool_ok_def
    using x n by (auto simp: tdom_def)
qed

lemma tdom_upd: "(tdom xs ys bm dl dc ob rc)\<lparr>delete_list := dl', delete_count := dc'\<rparr> = tdom xs ys bm dl' dc' ob rc"
  "(tdom xs ys bm dl dc ob rc)\<lparr>delete_count := dc'\<rparr> = tdom xs ys bm dl dc' ob rc"
  "(tdom xs ys bm dl dc ob rc)\<lparr>objs := ob'\<rparr> = tdom xs ys bm dl dc ob' rc"
  "(tdom xs ys bm dl dc ob rc)\<lparr>reclaimed := rc'\<rparr> = tdom xs ys bm dl dc ob rc'"
  "(tdom xs ys bm dl dc ob rc)\<lparr>delete_list := dl', delete_count := dc', objs := ob', reclaimed := rc'\<rparr> = tdom xs ys bm dl' dc' ob' rc'"
  by (simp_all add: tdom_def)

text \<open>The objects the hazard pointers hold, all of them unmarked.\<close>

definition held :: "uptr list \<Rightarrow> uptr list \<Rightarrow> uptr set" where
  "held xs ys = set xs \<union> set ys - {nullptr}"

lemma aligned_maskoff: "aligned_ptr v \<Longrightarrow> v AND mark_bits_maskoff = v"
  using mp_load_aligned by (simp add: mp_load_def)

lemma tdom_protected:
  assumes "\<forall>v\<in>set xs \<union> set ys. aligned_ptr v"
  shows "protected (pools (tdom xs ys bm dl dc ob rc)) = held xs ys"
  using assms by (auto simp: in_protected held_def aligned_maskoff Ball_def)

lemma tdom_collect:
  assumes "blocks_ok xs ys bm" "\<forall>v\<in>set xs \<union> set ys. aligned_ptr v" "distinct dl" "set dl \<subseteq> ob" "nullptr \<notin> ob"
  shows "collect (tdom xs ys bm dl dc ob rc) = Inr (tdom xs ys bm (rev (filter (\<lambda>x. x \<in> held xs ys) dl))
      (dc + int (length (filter (\<lambda>x. x \<in> held xs ys) dl))) (ob - (set dl - held xs ys)) (rev (filter (\<lambda>x. x \<notin> held xs ys) dl) @ rc))"
proof -
  let ?d = "tdom xs ys bm dl dc ob rc"
  have "collect ?d = Inr (collected ?d)"
    using assms by (intro collect_eq dom_okD(1) [OF tdom_ok]) (simp_all add: pending_ok_def)
  then show ?thesis
    unfolding collected_def tdom_protected [OF assms(2)] by (simp add: Let_def tdom_upd)
qed

lemma hp_clear3: "hp_clear 3 r ps = bind_r (hp_store r nullptr ps) (\<lambda>ps.
    bind_r (hp_store (fst r, Suc (snd r)) nullptr ps) (\<lambda>ps. hp_store (fst r, Suc (Suc (snd r))) nullptr ps))"
proof -
  have "bind_r x Inr = x" for x :: "pool list res" by (cases x) simp_all
  moreover have "hp_clear 0 q = Inr" "hp_clear (Suc k) q = (\<lambda>ps. bind_r (hp_store q nullptr ps) (hp_clear k (fst q, Suc (snd q))))" for k q
    by (simp_all add: fun_eq_iff)
  ultimately show ?thesis by (simp add: numeral_3_eq_3)
qed

lemma first_context:
  "ctx_ctor (Suc f) 3 R (dom_make ob) = Inr (tctx 0 (replicate R 0) 0, tdom [0, 0, 0] [0, 0, 0] 1 [] 0 ob [])"
proof -
  have r: "replicate 96 (0 :: uptr) = [0, 0, 0] @ [0, 0, 0] @ replicate 90 0" by (simp add: numeral_eq_Suc)
  show ?thesis
    by (simp add: ctx_ctor_def hpd_reserve_def dom_reserve_def dom_make_def pools_new_def Let_def reserve_impl_def pool_ctor_def
        HAZPTR_POOL_BLOCKS_def HAZPTR_POOL_BITMAP_FULL_def free_block.simps atomic_compare_exchange_def tdom_def tctx_def r hp_clear3)
qed

lemma second_context:
  assumes "blocks_ok xs [0, 0, 0] 1"
  shows "ctx_ctor (Suc f) 3 R (tdom xs [0, 0, 0] 1 dl dc ob rc) = Inr (tctx 3 (replicate R 0) 0, tdom xs [0, 0, 0] 3 dl dc ob rc)"
proof -
  from assms obtain a b c where xs: "xs = [a, b, c]" by (auto simp: blocks_ok_def numeral_3_eq_3 length_Suc_conv)
  show ?thesis unfolding xs
    by (simp add: ctx_ctor_def hpd_reserve_def dom_reserve_def Let_def reserve_impl_def tdom_def
        HAZPTR_POOL_BLOCKS_def HAZPTR_POOL_BITMAP_FULL_def free_block.simps atomic_compare_exchange_def tctx_def hp_clear3)
qed

lemma set_hp:
  "length xs = 3 \<Longrightarrow> i < 3 \<Longrightarrow> hps_set i b (tctx 0 del n) (tdom xs ys bm dl dc ob rc) = Inr (tdom (xs[i := b]) ys bm dl dc ob rc)"
  "length xs = 3 \<Longrightarrow> length ys = 3 \<Longrightarrow> i < 3 \<Longrightarrow>
    hps_set i b (tctx 3 del n) (tdom xs ys bm dl dc ob rc) = Inr (tdom xs (ys[i := b]) bm dl dc ob rc)"
  by (simp_all add: hps_set_def tctx_def tdom_def list_update_append)

lemma store_hp: "i < 3 \<Longrightarrow> ctx_store i b (tctx k del n) d = hps_set i b (tctx k del n) d"
  by (simp add: ctx_store_def hps_set_def tctx_def)

lemma at_hp: "length xs = 3 \<Longrightarrow> i < 3 \<Longrightarrow> ctx_at i (tctx 0 del n) (tdom xs ys bm dl dc ob rc) = Inr (xs ! i)"
  by (simp add: ctx_at_def tctx_def nth_append)

section \<open>Deletions and destructors\<close>

text \<open>What a collection with the hazard pointers \<open>H\<close> leaves.\<close>

definition sweep :: "uptr set \<Rightarrow> (uptr list \<Rightarrow> int \<Rightarrow> uptr set \<Rightarrow> uptr list \<Rightarrow> domain) \<Rightarrow>
    uptr list \<Rightarrow> int \<Rightarrow> uptr set \<Rightarrow> uptr list \<Rightarrow> domain" where
  "sweep H D dl dc ob rc = D (rev (filter (\<lambda>x. x \<in> H) dl)) (dc + int (length (filter (\<lambda>x. x \<in> H) dl)))
     (ob - (set dl - H)) (rev (filter (\<lambda>x. x \<notin> H) dl) @ rc)"

definition tidy :: "uptr list \<Rightarrow> uptr list \<Rightarrow> u32 \<Rightarrow> uptr list \<Rightarrow> uptr set \<Rightarrow> bool" where
  "tidy xs ys bm dl ob \<longleftrightarrow> blocks_ok xs ys bm \<and> (\<forall>v\<in>set xs \<union> set ys. aligned_ptr v) \<and> distinct dl \<and> set dl \<subseteq> ob \<and> nullptr \<notin> ob"

lemma tidy_collect:
  "tidy xs ys bm dl ob \<Longrightarrow> collect (tdom xs ys bm dl dc ob rc) = Inr (sweep (held xs ys) (tdom xs ys bm) dl dc ob rc)"
  by (simp add: tidy_def tdom_collect sweep_def)

lemma tidy_collect_if:
  assumes "tidy xs ys bm dl ob"
  shows "collect_if_required (Suc (Suc f)) (tdom xs ys bm dl dc ob rc) =
    Inr (if 96 < dc then sweep (held xs ys) (tdom xs ys bm) dl 0 ob rc else tdom xs ys bm dl dc ob rc)"
proof -
  have e: "collect_if_required (Suc (Suc f)) (tdom xs ys bm dl dc ob rc) = (if 96 < dc then collect (tdom xs ys bm dl 0 ob rc) else Inr (tdom xs ys bm dl dc ob rc))"
    by (simp add: collect_if_required_def atomic_compare_exchange_def Let_def tdom_upd)
  show ?thesis unfolding e by (simp add: tidy_collect [OF assms])
qed

lemma delete_in_array:
  "n + 1 < R \<Longrightarrow> n < length del \<Longrightarrow> delete_item f R b (tctx k del n) d = Inr (tctx k (del[n := b]) (n + 1), d)"
  by (simp add: delete_item_def tctx_def)

lemma delete_no_array:
  assumes "tidy xs ys bm (b # dl) ob"
  shows "delete_item (Suc (Suc f)) 0 b (tctx k del n) (tdom xs ys bm dl dc ob rc) =
    Inr (tctx k del n, if 96 < dc + 1 then sweep (held xs ys) (tdom xs ys bm) (b # dl) 0 ob rc else tdom xs ys bm (b # dl) (dc + 1) ob rc)"
  using tidy_collect_if [OF assms]
  by (simp add: delete_item_def hpd_enqueue_def dom_enqueue_def push_delete_node_def Let_def tdom_upd)

lemma enqueue_all:
  assumes "tidy xs ys bm (rev (nonnull bs) @ dl) ob" "dc + int (length (nonnull bs)) \<le> 96"
  shows "hpd_enqueue_all (Suc (Suc f)) bs True (tdom xs ys bm dl dc ob rc) =
    Inr (replicate (length bs) nullptr, tdom xs ys bm (rev (nonnull bs) @ dl) (dc + int (length (nonnull bs))) ob rc)"
  using tidy_collect_if [OF assms(1)] assms(2)
  by (simp add: hpd_enqueue_all_def dom_enqueue_all_eq push_all_eq tdom_upd)

text \<open>A full array all of whose objects are held is moved to the delete list of the domain.\<close>

lemma delete_full_held:
  assumes "tidy xs ys bm (rev (bs @ [b]) @ dl) ob" "set (bs @ [b]) \<subseteq> held xs ys" "dc + int (length (bs @ [b])) \<le> 96"
  shows "delete_item (Suc (Suc f)) (Suc (length bs)) b (tctx k (bs @ [x]) (length bs)) (tdom xs ys bm dl dc ob rc) =
    Inr (tctx k (replicate (Suc (length bs)) 0) 0, tdom xs ys bm (rev (bs @ [b]) @ dl) (dc + int (Suc (length bs))) ob rc)"
proof -
  let ?d = "tdom xs ys bm dl dc ob rc" and ?del = "bs @ [b]" and ?c = "tctx k (bs @ [b]) (Suc (length bs))"
  have al: "\<forall>v\<in>set xs \<union> set ys. aligned_ptr v" and ok: "blocks_ok xs ys bm" using assms(1) by (simp_all add: tidy_def)
  from snapshot_correct [OF pool_lengths [OF dom_okD(1) [OF tdom_ok [OF ok]]]] obtain h where
    h: "take_snapshot (pools ?d) = Inr h" "\<And>x. snapshot_search h x = Inr (x \<in> held xs ys)"
    unfolding tdom_protected [OF al] by blast
  have held: "\<And>x. x \<in> set ?del \<Longrightarrow> x \<in> held xs ys" using assms(2) by blast
  have "reclaim_scan h (length ?del) (length ([] :: uptr list)) ?c ?d = Inr (?c, ?d)"
  proof -
    have e: "filter (\<lambda>x. x \<notin> held xs ys) ?del = []" "map (\<lambda>x. if x \<in> held xs ys then x else nullptr) ?del = ?del" "set ?del - held xs ys = {}"
      using held by (auto intro!: map_idI)
    have "distinct ?del" "set ?del \<subseteq> objs ?d" "nullptr \<notin> set ?del" using assms(1) by (auto simp: tidy_def)
    then have "reclaim_scan h (length ?del) (length ([] :: uptr list)) ?c ?d =
        Inr (?c\<lparr>deleted := [] @ map (\<lambda>x. if x \<in> held xs ys then x else nullptr) ?del,
               del_index := del_index ?c - length (filter (\<lambda>x. x \<notin> held xs ys) ?del)\<rparr>,
             ?d\<lparr>objs := objs ?d - (set ?del - held xs ys), reclaimed := rev (filter (\<lambda>x. x \<notin> held xs ys) ?del) @ reclaimed ?d\<rparr>)"
      by (subst reclaim_scan_eq [OF h(2), where ys = "[]" and xs = ?del]) (simp_all add: tctx_def)
    then show ?thesis unfolding e by (simp add: tctx_def tdom_def)
  qed
  then have scan: "reclaim_scan h (Suc (length bs)) 0 ?c ?d = Inr (?c, ?d)" by simp
  have nn: "nonnull ?del = ?del" using held by (auto simp: nonnull_def filter_id_conv held_def)
  have "hpd_enqueue_all (Suc (Suc f)) ?del True ?d =
      Inr (replicate (length ?del) nullptr, tdom xs ys bm (rev ?del @ dl) (dc + int (length ?del)) ob rc)"
    using enqueue_all [of xs ys bm ?del dl ob dc f rc, unfolded nn] assms(1,3) by simp
  with scan h(1) show ?thesis
    by (simp add: delete_item_def ctx_reclaim_def tctx_def Let_def)
qed

lemma drop_context:
  assumes "tidy xs [0, 0, 0] 1 (rev (nonnull bs) @ dl) ob" "blocks_ok xs ys 3" "dc + int (length (nonnull bs)) \<le> 96"
  shows "ctx_dtor (Suc (Suc f)) 3 (tctx 3 bs n) (tdom xs ys 3 dl dc ob rc) =
    Inr (sweep (held xs [0, 0, 0]) (tdom xs [0, 0, 0] 1) (rev (nonnull bs) @ dl) (dc + int (length (nonnull bs))) ob rc)"
proof -
  let ?p = "\<lparr>pool_id = 0, haz_ptrs = xs @ ys @ replicate 90 nullptr, bitmap = 3, blk_size = 3, pool_count = 96\<rparr>"
  have "hpd_release (Suc (Suc f)) (pool_id ?p, 1 * 3) 3 (tdom xs ys 3 dl dc ob rc) =
      Inr ((tdom xs ys 3 dl dc ob rc)\<lparr>pools := upd_pool (pool_id ?p) (give_back 1) (pools (tdom xs ys 3 dl dc ob rc))\<rparr>)"
    by (rule hpd_release_eq [OF tdom_ok [OF assms(2)]]) simp_all
  then have "hpd_release (Suc (Suc f)) (0, 3) 3 (tdom xs ys 3 dl dc ob rc) = Inr (tdom xs [0, 0, 0] 1 dl dc ob rc)"
    using assms(2) by (simp add: blocks_ok_def give_back_def blank_def tdom_def numeral_3_eq_3)
  then show ?thesis using enqueue_all [OF assms(1,3), of f rc] tidy_collect [OF assms(1)]
    by (simp add: ctx_dtor_def tctx_def)
qed

lemma drop_last_context:
  assumes "nonnull bs = []" "distinct dl" "set dl \<subseteq> ob" "nullptr \<notin> ob" "blocks_ok xs [0, 0, 0] 1" "dc \<le> 96"
  shows "ctx_dtor (Suc (Suc f)) 3 (tctx 0 bs n) (tdom xs [0, 0, 0] 1 dl dc ob rc) =
    Inr (tdom [0, 0, 0] [0, 0, 0] 0 [] dc (ob - set dl) (rev dl @ rc))"
proof -
  let ?p = "\<lparr>pool_id = 0, haz_ptrs = xs @ [0, 0, 0] @ replicate 90 nullptr, bitmap = 1, blk_size = 3, pool_count = 96\<rparr>"
  have "hpd_release (Suc (Suc f)) (pool_id ?p, 0 * 3) 3 (tdom xs [0, 0, 0] 1 dl dc ob rc) =
      Inr ((tdom xs [0, 0, 0] 1 dl dc ob rc)\<lparr>pools := upd_pool (pool_id ?p) (give_back 0) (pools (tdom xs [0, 0, 0] 1 dl dc ob rc))\<rparr>)"
    by (rule hpd_release_eq [OF tdom_ok [OF assms(5)]]) simp_all
  then have r: "hpd_release (Suc (Suc f)) (0, 0) 3 (tdom xs [0, 0, 0] 1 dl dc ob rc) = Inr (tdom [0, 0, 0] [0, 0, 0] 0 dl dc ob rc)"
    using assms(5) by (simp add: blocks_ok_def give_back_def blank_def tdom_def numeral_3_eq_3)
  have t: "tidy [0, 0, 0] [0, 0, 0] 0 (rev (nonnull bs) @ dl) ob"
    using assms by (simp add: tidy_def blocks_ok_def)
  from enqueue_all [OF t, of dc f rc] tidy_collect [OF t] r assms(1,6) show ?thesis
    by (simp add: ctx_dtor_def tctx_def held_def sweep_def)
qed

lemma drop_domain: "hpd_dtor (tdom xs ys 0 [] dc ob rc) = Inr ((tdom xs ys 0 [] dc ob rc)\<lparr>pools := []\<rparr>)"
  by (simp add: hpd_dtor_def collect_def dom_dtor_def has_reservations_def Let_def)

section \<open>Steps of the tests\<close>

definition after :: "hp_env \<Rightarrow> domain \<Rightarrow> hp_world \<Rightarrow> hp_world" where
  "after e d t = fold (dtor_B e) (rev (take (length (reclaimed d) - length (reclaimed (t_dom t))) (reclaimed d))) (t\<lparr>t_dom := d\<rparr>)"

lemma lib_eq: "lib e op t = bind_r (op (t_dom t)) (\<lambda>(x, d). Inr (x, after e d t))"
  "lib_do e op' t = bind_r (op' (t_dom t)) (\<lambda>d. Inr (after e d t))"
  by (simp_all add: lib_def lib_do_def after_def bind_r_assoc split_beta)

lemma say_simps [simp]: "t_dom (say x t) = t_dom t" "t_new (say x t) = t_new t" "t_scope (say x t) = t_scope t"
  by (simp_all add: say_def)

lemma after_simps [simp]: "t_dom (after e d t) = d" "t_new (after e d t) = t_new t" "t_scope (after e d t) = t_scope t"
proof -
  have "t_dom (fold (dtor_B e) bs t) = t_dom t \<and> t_new (fold (dtor_B e) bs t) = t_new t \<and> t_scope (fold (dtor_B e) bs t) = t_scope t" for bs t
    by (induction bs arbitrary: t) (simp_all add: dtor_B_def)
  then show "t_dom (after e d t) = d" "t_new (after e d t) = t_new t" "t_scope (after e d t) = t_scope t"
    by (simp_all add: after_def)
qed

lemma scope_simps [simp]: "t_dom (enter t) = t_dom t" "t_new (enter t) = t_new t" "t_scope (enter t) = Suc (t_scope t)"
  "t_dom (leave x t) = t_dom t" "t_new (leave x t) = t_new t" "t_scope (leave x t) = t_scope t - 1"
  "t_dom (hp_make t) = dom_make (objs (t_dom t))" "t_new (hp_make t) = t_new t" "t_scope (hp_make t) = t_scope t"
  by (simp_all add: enter_def leave_def hp_make_def)

text \<open>
  What a test needs: two rounds of fuel, and that the next \<open>n\<close> objects have addresses of their own.
\<close>

definition fresh_Bs :: "hp_env \<Rightarrow> nat \<Rightarrow> hp_world \<Rightarrow> bool" where
  "fresh_Bs e n t \<longleftrightarrow> 2 \<le> bv_fuel e \<and> nullptr \<notin> objs (t_dom t) \<and> inj_on (\<lambda>i. bv_new e (t_new t + i)) {..<n} \<and>
     (\<forall>i<n. aligned_ptr (bv_new e (t_new t + i)) \<and> bv_new e (t_new t + i) \<noteq> nullptr \<and> bv_new e (t_new t + i) \<notin> objs (t_dom t))"

text \<open>
  How a test ends: the objects alive are those from before, the domain is empty, and it reclaimed
  the objects \<open>bs\<close> of the test, the latest first.
\<close>

definition test_ends :: "hp_env \<Rightarrow> (nat list) \<Rightarrow> hp_world \<Rightarrow> hp_world \<Rightarrow> bool" where
  "test_ends e bs t t' \<longleftrightarrow> objs (t_dom t') = objs (t_dom t) \<and> pools (t_dom t') = [] \<and> delete_list (t_dom t') = [] \<and>
     reclaimed (t_dom t') = map (\<lambda>i. bv_new e (t_new t + i)) bs \<and> t_scope t' = t_scope t \<and> t_new t' = t_new t + length bs"

definition made :: "hp_env \<Rightarrow> u32 \<Rightarrow> hp_world \<Rightarrow> hp_world" where
  "made e x t = snd (new_B e x t)"

lemma new_B_eq: "new_B e x t = (bv_new e (t_new t), made e x t)"
  by (simp add: made_def new_B_def Let_def)

lemma made_simps [simp]: "t_dom (made e x t) = (t_dom t)\<lparr>objs := insert (bv_new e (t_new t)) (objs (t_dom t))\<rparr>"
  "t_new (made e x t) = Suc (t_new t)" "t_scope (made e x t) = t_scope t"
  by (simp_all add: made_def new_B_def Let_def)

lemma four_fresh:
  assumes "fresh_Bs e 4 t"
  obtains b0 b1 b2 b3 f where "bv_fuel e = Suc (Suc f)" "bv_new e (t_new t) = b0" "bv_new e (Suc (t_new t)) = b1"
    "bv_new e (Suc (Suc (t_new t))) = b2" "bv_new e (Suc (Suc (Suc (t_new t)))) = b3"
    "distinct [b0, b1, b2, b3, nullptr]" "distinct [nullptr, b3, b2, b1, b0]" "\<forall>b\<in>{b0, b1, b2, b3}. aligned_ptr b"
    "\<forall>b\<in>{b0, b1, b2, b3, nullptr}. b \<notin> objs (t_dom t)"
proof -
  have l: "{..<4::nat} = {0, 1, 2, 3}" "(\<forall>i<4::nat. P i) \<longleftrightarrow> P 0 \<and> P 1 \<and> P 2 \<and> P 3" for P
    by (auto simp: less_Suc_eq numeral_eq_Suc)
  have f: "bv_fuel e = Suc (Suc (bv_fuel e - 2))" using assms by (auto simp: fresh_Bs_def)
  have s: "t_new t + 2 = Suc (Suc (t_new t))" "t_new t + 3 = Suc (Suc (Suc (t_new t)))" by simp_all
  show ?thesis
    by (rule that [OF f refl refl refl refl]) (use assms in \<open>auto simp: fresh_Bs_def l s inj_on_def\<close>)
qed

lemma three: "length xs = 3 \<longleftrightarrow> (\<exists>a b c. xs = [a, b, c])"
  by (auto simp: numeral_3_eq_3 length_Suc_conv)

lemma delete_third_held:
  assumes "tidy xs ys bm [b2, b1, b0] ob" "{b0, b1, b2} \<subseteq> held xs ys"
  shows "delete_item (Suc (Suc f)) 3 b2 (tctx k [b0, b1, x] 2) (tdom xs ys bm [] 0 ob rc) =
    Inr (tctx k [0, 0, 0] 0, tdom xs ys bm [b2, b1, b0] 3 ob rc)"
  using delete_full_held [of xs ys bm "[b0, b1]" b2 "[]" ob 0 f k x rc] assms by (simp add: numeral_3_eq_3 numeral_2_eq_2)

lemma delete_in_array3: "delete_item f 3 b (tctx k [x, y, z] 0) d = Inr (tctx k [b, y, z] (Suc 0), d)"
  "delete_item f 3 b (tctx k [x, y, z] (Suc 0)) d = Inr (tctx k [x, b, z] 2, d)"
  using delete_in_array [of 0 3 "[x, y, z]" f b k d] delete_in_array [of 1 3 "[x, y, z]" f b k d] by (simp_all add: numeral_2_eq_2)

lemmas hp_steps = Let_def new_B_eq lib_eq assoc_context_eq first_context second_context store_hp set_hp tdom_upd blocks_ok_def
  say_hazps_def at_hp say_hp2_def say_delete_def end_hp2_def end_hp1_def tidy_def held_def drop_domain drop_context drop_last_context sweep_def
  nonnull_def

lemma delete_in_array6: "delete_item f 6 b (tctx k [x0, x1, x2, x3, x4, x5] 0) d = Inr (tctx k [b, x1, x2, x3, x4, x5] (Suc 0), d)"
  "delete_item f 6 b (tctx k [x0, x1, x2, x3, x4, x5] (Suc 0)) d = Inr (tctx k [x0, b, x2, x3, x4, x5] 2, d)"
  "delete_item f 6 b (tctx k [x0, x1, x2, x3, x4, x5] 2) d = Inr (tctx k [x0, x1, b, x3, x4, x5] 3, d)"
  "delete_item f 6 b (tctx k [x0, x1, x2, x3, x4, x5] 3) d = Inr (tctx k [x0, x1, x2, b, x4, x5] 4, d)"
  by (simp_all add: delete_in_array eval_nat_numeral)

lemmas delete_steps = delete_third_held delete_in_array3 delete_in_array6 delete_no_array

lemma replicate_nulls: "replicate 3 nullptr = [0, 0, 0]" "replicate 6 nullptr = [0, 0, 0, 0, 0, 0]"
  by (simp_all add: eval_nat_numeral)

lemma test0_reclaims:
  assumes "fresh_Bs e 4 t"
  shows "\<exists>t'. hp_test0 e t = Inr t' \<and> test_ends e [2, 1, 0, 3] t t'"
  using assms
proof (rule four_fresh)
  fix b0 b1 b2 b3 f
  assume b: "bv_fuel e = Suc (Suc f)" "bv_new e (t_new t) = b0" "bv_new e (Suc (t_new t)) = b1"
    "bv_new e (Suc (Suc (t_new t))) = b2" "bv_new e (Suc (Suc (Suc (t_new t)))) = b3"
    "distinct [b0, b1, b2, b3, nullptr]" "distinct [nullptr, b3, b2, b1, b0]" "\<forall>b\<in>{b0, b1, b2, b3}. aligned_ptr b"
    "\<forall>b\<in>{b0, b1, b2, b3, nullptr}. b \<notin> objs (t_dom t)"
  show ?thesis
    by (simp add: hp_test0_def hp_steps b delete_steps replicate_nulls b [simplified] cong: bind_weak_cong)
      (simp add: test_ends_def b numeral_2_eq_2 numeral_3_eq_3, use b in auto)
qed

lemma test1_reclaims:
  assumes "fresh_Bs e 4 t"
  shows "\<exists>t'. hp_test1 e t = Inr t' \<and> test_ends e [2, 1, 0, 3] t t'"
  using assms
proof (rule four_fresh)
  fix b0 b1 b2 b3 f
  assume b: "bv_fuel e = Suc (Suc f)" "bv_new e (t_new t) = b0" "bv_new e (Suc (t_new t)) = b1"
    "bv_new e (Suc (Suc (t_new t))) = b2" "bv_new e (Suc (Suc (Suc (t_new t)))) = b3"
    "distinct [b0, b1, b2, b3, nullptr]" "distinct [nullptr, b3, b2, b1, b0]" "\<forall>b\<in>{b0, b1, b2, b3}. aligned_ptr b"
    "\<forall>b\<in>{b0, b1, b2, b3, nullptr}. b \<notin> objs (t_dom t)"
  show ?thesis
    by (simp add: hp_test1_def hp_steps b delete_steps replicate_nulls b [simplified] cong: bind_weak_cong)
      (simp add: test_ends_def b numeral_2_eq_2 numeral_3_eq_3, use b in auto)
qed

text \<open>The arrays of objects of the other tests.\<close>

primrec tcs_made :: "hp_env \<Rightarrow> nat \<Rightarrow> u32 \<Rightarrow> hp_world \<Rightarrow> hp_world" where
  "tcs_made e 0 i t = t"
| "tcs_made e (Suc k) i t = tcs_made e k (i + 1) (made e i t)"

lemma tcs_made_counts [simp]: "t_new (tcs_made e k i t) = t_new t + k" "t_scope (tcs_made e k i t) = t_scope t"
  by (induction k arbitrary: i t) simp_all

lemma tcs_made_objs [simp]: "objs (t_dom (tcs_made e k i t)) = (\<lambda>j. bv_new e (t_new t + j)) ` {..<k} \<union> objs (t_dom t)"
proof (induction k arbitrary: i t)
  case (Suc k)
  have "{..<Suc k} = insert 0 (Suc ` {..<k})" by (rule lessThan_Suc_eq_insert_0)
  then have "(\<lambda>j. bv_new e (t_new t + j)) ` {..<Suc k} = insert (bv_new e (t_new t)) ((\<lambda>j. bv_new e (Suc (t_new t) + j)) ` {..<k})"
    by (simp add: image_image)
  with Suc show ?case by simp
qed simp

lemma make_tcs_eq: "make_tcs e k i t = (map (\<lambda>j. bv_new e (t_new t + j)) [0..<k], tcs_made e k i t)"
proof (induction k arbitrary: i t)
  case (Suc k)
  have "map (\<lambda>j. bv_new e (t_new t + j)) [0..<Suc k] = bv_new e (t_new t) # map (\<lambda>j. bv_new e (Suc (t_new t) + j)) [0..<k]"
    by (simp add: upt_conv_Cons map_Suc_upt [symmetric] del: upt_Suc)
  with Suc show ?case by (simp add: new_B_eq)
qed simp

lemma test2_reclaims:
  assumes "fresh_Bs e 4 t"
  shows "\<exists>t'. hp_test2 e t = Inr t' \<and> test_ends e [3, 1, 0, 2] t t'"
  using assms
proof (rule four_fresh)
  fix b0 b1 b2 b3 f
  assume b: "bv_fuel e = Suc (Suc f)" "bv_new e (t_new t) = b0" "bv_new e (Suc (t_new t)) = b1"
    "bv_new e (Suc (Suc (t_new t))) = b2" "bv_new e (Suc (Suc (Suc (t_new t)))) = b3"
    "distinct [b0, b1, b2, b3, nullptr]" "distinct [nullptr, b3, b2, b1, b0]" "\<forall>b\<in>{b0, b1, b2, b3}. aligned_ptr b"
    "\<forall>b\<in>{b0, b1, b2, b3, nullptr}. b \<notin> objs (t_dom t)"
  have l: "{..<4::nat} = {0, Suc 0, Suc (Suc 0), Suc (Suc (Suc 0))}" "[0..<4] = [0, Suc 0, Suc (Suc 0), Suc (Suc (Suc 0))]"
    by (auto simp: less_Suc_eq numeral_eq_Suc)
  show ?thesis
    by (simp add: hp_test2_def make_tcs_eq l hp_steps b delete_steps replicate_nulls b [simplified] cong: bind_weak_cong)
      (simp add: test_ends_def b numeral_2_eq_2 numeral_3_eq_3, use b in auto)
qed

lemma upt_split: "i \<le> j \<Longrightarrow> j \<le> k \<Longrightarrow> [i..<k] = [i..<j] @ [j..<k]"
  using upt_add_eq_append [of i j "k - j"] by simp

lemma delete_each_append:
  "delete_each e a R (xs @ ys) c t = bind_r (delete_each e a R xs c t) (\<lambda>(c, t). delete_each e a R ys c t)"
proof (induction xs arbitrary: c t)
  case (Cons b xs)
  then show ?case by (cases "lib e (delete_item (bv_fuel e) R b c) (a b t)") auto
qed simp

lemma delete_each_pushes:
  assumes "bv_fuel e = Suc (Suc f)"
  shows "t_dom t = tdom xs ys bm dl dc ob rc \<Longrightarrow> tidy xs ys bm (rev bs @ dl) ob \<Longrightarrow> dc + int (length bs) \<le> 96 \<Longrightarrow>
    \<exists>t'. delete_each e (\<lambda>b t. t) 0 bs (tctx k del n) t = Inr (tctx k del n, t') \<and>
      t_dom t' = tdom xs ys bm (rev bs @ dl) (dc + int (length bs)) ob rc \<and> t_new t' = t_new t \<and> t_scope t' = t_scope t"
proof (induction bs arbitrary: t dl dc)
  case (Cons b bs)
  have td: "tidy xs ys bm (b # dl) ob" using Cons.prems(2) by (auto simp: tidy_def)
  let ?t = "after e (tdom xs ys bm (b # dl) (dc + 1) ob rc) t"
  have "lib e (delete_item (bv_fuel e) 0 b (tctx k del n)) t = Inr (tctx k del n, ?t)"
    using delete_no_array [OF td, of f k del n dc rc] Cons.prems(1,3) by (simp add: lib_eq assms)
  moreover have "\<exists>t'. delete_each e (\<lambda>b t. t) 0 bs (tctx k del n) ?t = Inr (tctx k del n, t') \<and>
      t_dom t' = tdom xs ys bm (rev bs @ b # dl) (dc + 1 + int (length bs)) ob rc \<and> t_new t' = t_new ?t \<and> t_scope t' = t_scope ?t"
    using Cons.prems by (intro Cons.IH) simp_all
  ultimately show ?case by (auto simp: ac_simps)
qed auto

text \<open>
  The deletions of \<open>test3\<close>: the 97th exceeds the 96 hazard pointers and starts a collection, which
  spares the four objects that are held; the others wait for the destructor of the context.
\<close>

lemma test3_deletes:
  assumes f: "bv_fuel e = Suc (Suc f)" and t: "t_dom t = tdom [a 1, a 2, a 3] [a 4, 0, 0] 3 [] 0 ob []"
    and a: "inj_on a {..<120}" "\<forall>i<120. aligned_ptr (a i) \<and> a i \<noteq> nullptr" "a ` {..<120} \<subseteq> ob" "nullptr \<notin> ob"
  shows "\<exists>t'. delete_each e (\<lambda>b t. t) 0 (map a [0..<120]) (tctx 3 [] 0) t = Inr (tctx 3 [] 0, t') \<and>
    t_dom t' = tdom [a 1, a 2, a 3] [a 4, 0, 0] 3 (rev (map a [97..<120]) @ map a [1, 2, 3, 4]) 27
      (ob - a ` ({..<97} - {1, 2, 3, 4})) (map a (0 # [5..<97])) \<and> t_new t' = t_new t \<and> t_scope t' = t_scope t"
proof -
  let ?xs = "[a 1, a 2, a 3]" and ?ys = "[a 4, 0, 0]"
  have held: "held ?xs ?ys = a ` {1, 2, 3, 4}" using a(2) by (auto simp: held_def)
  have inj: "a i = a j \<longleftrightarrow> i = j" if "i < 120" "j < 120" for i j using inj_onD [OF a(1), of i j] that by auto
  have ok: "blocks_ok ?xs ?ys 3" "\<forall>v\<in>set ?xs \<union> set ?ys. aligned_ptr v" using a(2) by (simp_all add: blocks_ok_def)
  have dist: "distinct (map a is)" "set (map a is) \<subseteq> ob" if "distinct is" "set is \<subseteq> {..<120}" for "is"
    using that a(1,3) by (auto simp: distinct_map intro: inj_on_subset)
  have tidy1: "tidy ?xs ?ys 3 (rev (map a [0..<96]) @ []) ob"
    using dist [of "[0..<96]"] ok a(4) by (simp add: tidy_def subset_eq)
  obtain t1 where t1: "delete_each e (\<lambda>b t. t) 0 (map a [0..<96]) (tctx 3 [] 0) t = Inr (tctx 3 [] 0, t1)"
    "t_dom t1 = tdom ?xs ?ys 3 (rev (map a [0..<96])) 96 ob []" "t_new t1 = t_new t" "t_scope t1 = t_scope t"
    using delete_each_pushes [OF f t tidy1, where k = 3 and del = "[]" and n = 0] by auto
  have tidy2: "tidy ?xs ?ys 3 (a 96 # rev (map a [0..<96])) ob"
    using dist [of "96 # [0..<96]"] ok a(4) by (simp add: tidy_def subset_eq)
  let ?d = "tdom ?xs ?ys 3 (map a [1, 2, 3, 4]) 4 (ob - a ` ({..<97} - {1, 2, 3, 4})) (map a (0 # [5..<97]))"
  have del: "delete_item (bv_fuel e) 0 (a 96) (tctx 3 [] 0) (t_dom t1) = Inr (tctx 3 [] 0, ?d)"
  proof -
    have l: "a 96 # rev (map a [0..<96]) = rev (map a ([0, 1, 2, 3, 4] @ [5..<97]))"
    proof -
      have "a 96 # rev (map a [0..<96]) = rev (map a ([0..<96] @ [96]))" by simp
      also have "[0..<96] @ [96] = [0..<97]" using upt_Suc_append [of 0 96] by simp
      also have "[0..<97] = [0, 1, 2, 3, 4] @ [5..<97]"
      proof -
        have "[0..<5] = [0, 1, 2, 3, 4 :: nat]" by (simp add: upt_rec)
        then show ?thesis using upt_split [of 0 5 97] by simp
      qed
      finally show ?thesis .
    qed
    have "filter (\<lambda>x. x \<in> a ` {1, 2, 3, 4}) (map a [5..<97]) = []" "filter (\<lambda>x. x \<notin> a ` {1, 2, 3, 4}) (map a [5..<97]) = map a [5..<97]"
      by (auto simp: filter_empty_conv filter_id_conv inj)
    then have fl: "filter (\<lambda>x. x \<in> a ` {1, 2, 3, 4}) (rev (map a ([0, 1, 2, 3, 4] @ [5..<97]))) = rev (map a [1, 2, 3, 4])"
      "filter (\<lambda>x. x \<notin> a ` {1, 2, 3, 4}) (rev (map a ([0, 1, 2, 3, 4] @ [5..<97]))) = rev (map a (0 # [5..<97]))"
      unfolding rev_filter [symmetric] by (simp_all add: inj)
    have st: "set (rev (map a ([0, 1, 2, 3, 4] @ [5..<97]))) - a ` {1, 2, 3, 4} = a ` ({..<97} - {1, 2, 3, 4})"
    proof -
      have "set ([0, 1, 2, 3, 4] @ [5..<97]) = {..<97::nat}" by (auto simp del: upt_rec_numeral)
      then have "set (rev (map a ([0, 1, 2, 3, 4] @ [5..<97]))) = a ` {..<97}" by (simp only: set_rev set_map)
      moreover have "a ` {..<97} - a ` {1, 2, 3, 4} = a ` ({..<97} - {1, 2, 3, 4})"
        by (rule inj_on_image_set_diff [OF a(1), symmetric]) auto
      ultimately show ?thesis by (simp only:)
    qed
    show ?thesis
      using delete_no_array [OF tidy2, of f 3 "[]" 0 96 "[]"]
      unfolding t1(2) f held l sweep_def fl st by simp
  qed
  have tidy3: "tidy ?xs ?ys 3 (rev (map a [97..<120]) @ map a [1, 2, 3, 4]) (ob - a ` ({..<97} - {1, 2, 3, 4}))"
  proof -
    have e: "rev (map a [97..<120]) @ map a [1, 2, 3, 4] = map a (rev [97..<120] @ [1, 2, 3, 4])" by (simp add: rev_map)
    have "a i \<notin> a ` ({..<97} - {1, 2, 3, 4})" if "i < 120" "97 \<le> i \<or> i \<in> {1, 2, 3, 4}" for i
      using that inj by auto
    then show ?thesis unfolding e using dist [of "rev [97..<120] @ [1, 2, 3, 4]"] ok a(4) by (simp add: tidy_def subset_eq)
  qed
  let ?t2 = "after e ?d t1"
  obtain t3 where t3: "delete_each e (\<lambda>b t. t) 0 (map a [97..<120]) (tctx 3 [] 0) ?t2 = Inr (tctx 3 [] 0, t3)"
    "t_dom t3 = tdom ?xs ?ys 3 (rev (map a [97..<120]) @ map a [1, 2, 3, 4]) 27 (ob - a ` ({..<97} - {1, 2, 3, 4})) (map a (0 # [5..<97]))"
    "t_new t3 = t_new t" "t_scope t3 = t_scope t"
    using delete_each_pushes [OF f _ tidy3, where t = ?t2 and dc = 4 and rc = "map a (0 # [5..<97])" and k = 3 and del = "[]" and n = 0] t1(3,4) by auto
  have split: "map a [0..<120] = map a [0..<96] @ a 96 # map a [97..<120]"
    using upt_split [of 0 96 120] upt_conv_Cons [of 96 120] by simp
  show ?thesis unfolding split delete_each_append
    using t1(1) del t3 by (simp add: lib_eq)
qed

lemma test3_reclaims:
  assumes "fresh_Bs e 120 t"
  shows "\<exists>t'. hp_test3 e t = Inr t' \<and> test_ends e ([1, 2, 3, 4] @ [97..<120] @ 0 # [5..<97]) t t'"
proof -
  define a where "a i = bv_new e (t_new t + i)" for i
  have al: "inj_on a {..<120}" "\<forall>i<120. aligned_ptr (a i) \<and> a i \<noteq> nullptr" "\<forall>i<120. a i \<notin> objs (t_dom t)" "nullptr \<notin> objs (t_dom t)"
    using assms by (auto simp: fresh_Bs_def a_def [abs_def])
  define f where "f = bv_fuel e - 2"
  have f: "bv_fuel e = Suc (Suc f)" using assms by (auto simp: fresh_Bs_def f_def)
  define tcs where "tcs = map a [0..<120]"
  have nth: "tcs ! i = a i" if "i < 120" for i using that by (simp add: tcs_def del: upt_rec_numeral)
  define ob where "ob = a ` {..<120} \<union> objs (t_dom t)"
  have ob: "a ` {..<120} \<subseteq> ob" "nullptr \<notin> ob" using al by (auto simp: ob_def)
  have made: "make_tcs e 120 i t' = (tcs, tcs_made e 120 i t')" if "t_new t' = t_new t" for i t'
    using that by (simp add: make_tcs_eq tcs_def a_def [abs_def] del: upt_rec_numeral)
  have obs: "objs (t_dom (tcs_made e 120 i t')) = ob" if "t_new t' = t_new t" "t_dom t' = t_dom t" for i t'
    using that by (simp add: ob_def a_def [abs_def])
  have a4: "aligned_ptr (a 1)" "aligned_ptr (a 2)" "aligned_ptr (a 3)" "aligned_ptr (a 4)" using al(2) by simp_all
  have first: "\<exists>T. hp_test3 e t = bind_r (delete_each e (\<lambda>b t. t) 0 tcs (tctx 3 [] 0) T) (\<lambda>(c, t). bind_r (end_hp2 e c t) (end_hp1 e (tctx 0 [] 0))) \<and>
    t_dom T = tdom [a 1, a 2, a 3] [a 4, 0, 0] 3 [] 0 ob [] \<and> t_new T = t_new t + 120 \<and> t_scope T = t_scope t + 3"
    apply (rule exI)
    apply (rule conjI)
     apply (simp add: hp_test3_def Let_def made obs lib_eq first_context second_context set_hp blocks_ok_def say_hazps_def at_hp say_hp2_def nth f
        cong: bind_weak_cong)
    apply (simp add: ob_def a_def)
    done
  then obtain T where T: "hp_test3 e t = bind_r (delete_each e (\<lambda>b t. t) 0 tcs (tctx 3 [] 0) T) (\<lambda>(c, t). bind_r (end_hp2 e c t) (end_hp1 e (tctx 0 [] 0)))"
    "t_dom T = tdom [a 1, a 2, a 3] [a 4, 0, 0] 3 [] 0 ob []" "t_new T = t_new t + 120" "t_scope T = t_scope t + 3" by blast
  let ?ob = "ob - a ` ({..<97} - {1, 2, 3, 4})"
  obtain t1 where t1: "delete_each e (\<lambda>b t. t) 0 tcs (tctx 3 [] 0) T = Inr (tctx 3 [] 0, t1)"
    "t_dom t1 = tdom [a 1, a 2, a 3] [a 4, 0, 0] 3 (rev (map a [97..<120]) @ map a [1, 2, 3, 4]) 27 ?ob (map a (0 # [5..<97]))"
    "t_new t1 = t_new t + 120" "t_scope t1 = t_scope t + 3"
    using test3_deletes [OF f T(2) al(1,2) ob] T(3,4) by (auto simp: tcs_def simp del: upt_rec_numeral)
  have inj: "a i = a j \<longleftrightarrow> i = j" if "i < 120" "j < 120" for i j using inj_onD [OF al(1), of i j] that by auto
  let ?xs = "[a 1, a 2, a 3]" and ?dl = "rev (map a [97..<120]) @ map a [1, 2, 3, 4]"
  have held: "held ?xs [0, 0, 0] = a ` {1, 2, 3}" using al(2) by (auto simp: held_def)
  have "filter (\<lambda>x. x \<in> a ` {1, 2, 3}) (map a [97..<120]) = []" "filter (\<lambda>x. x \<notin> a ` {1, 2, 3}) (map a [97..<120]) = map a [97..<120]"
    by (auto simp: filter_empty_conv filter_id_conv inj simp del: upt_rec_numeral)
  then have fl: "filter (\<lambda>x. x \<in> a ` {1, 2, 3}) ?dl = map a [1, 2, 3]" "filter (\<lambda>x. x \<notin> a ` {1, 2, 3}) ?dl = rev (map a [97..<120]) @ [a 4]"
    by (simp_all add: inj rev_filter [symmetric] del: upt_rec_numeral)
  have ok: "blocks_ok ?xs [a 4, 0, 0] 3" "blocks_ok ?xs [0, 0, 0] 1" by (simp_all add: blocks_ok_def)
  have e: "?dl = map a (rev [97..<120] @ [1, 2, 3, 4])" by (simp add: rev_map del: upt_rec_numeral)
  have "inj_on a (set (rev [97..<120] @ [1, 2, 3, 4]))" by (rule inj_on_subset [OF al(1)]) auto
  then have "distinct ?dl" unfolding e by (simp add: distinct_map del: upt_rec_numeral)
  moreover have "a i \<in> ?ob" if "i < 120" "97 \<le> i \<or> i \<in> {1, 2, 3, 4}" for i
    using that inj ob(1) by auto
  ultimately have td: "tidy ?xs [0, 0, 0] 1 (rev (nonnull []) @ ?dl) ?ob"
    using ok ob(2) a4 by (auto simp: tidy_def nonnull_def inj simp del: upt_rec_numeral)
  let ?ob2 = "?ob - (set ?dl - a ` {1, 2, 3})" and ?rc = "a 4 # map a [97..<120] @ map a (0 # [5..<97])"
  let ?d2 = "tdom ?xs [0, 0, 0] 1 (rev (map a [1, 2, 3])) 30 ?ob2 ?rc"
  have d2: "ctx_dtor (bv_fuel e) 3 (tctx 3 [] 0) (t_dom t1) = Inr ?d2"
  proof -
    have nn: "rev (nonnull []) @ ?dl = ?dl" "int (length (nonnull [])) = 0" by (simp_all add: nonnull_def del: upt_rec_numeral)
    show ?thesis using drop_context [OF td ok(1), of 27 f 0 "map a (0 # [5..<97])"]
      unfolding t1(2) f held sweep_def nn fl by (simp del: upt_rec_numeral)
  qed
  let ?d3 = "tdom [0, 0, 0] [0, 0, 0] 0 [] 30 (?ob2 - set (rev (map a [1, 2, 3]))) (map a [1, 2, 3] @ ?rc)"
  have d3: "ctx_dtor (bv_fuel e) 3 (tctx 0 [] 0) ?d2 = Inr ?d3"
    unfolding f
  proof (subst drop_last_context)
    show "distinct (rev (map a [1, 2, 3]))" by (simp add: inj)
    have "a i \<in> ?ob2" if "i \<in> {1, 2, 3}" for i
      using that ob(1) inj by auto
    then show "set (rev (map a [1, 2, 3])) \<subseteq> ?ob2" by (simp del: upt_rec_numeral)
  qed (use ok(2) ob(2) in \<open>simp_all add: nonnull_def del: upt_rec_numeral\<close>)
  have obs3: "?ob2 - set (rev (map a [1, 2, 3])) = objs (t_dom t)"
  proof -
    have "set ?dl = a ` ({97..<120} \<union> {1, 2, 3, 4})" unfolding e by (auto simp del: upt_rec_numeral)
    moreover have "set (rev (map a [1, 2, 3])) = a ` {1, 2, 3}" by auto
    ultimately have "?ob2 - set (rev (map a [1, 2, 3])) =
        ob - (a ` ({..<97} - {1, 2, 3, 4}) \<union> a ` ({97..<120} \<union> {1, 2, 3, 4}) \<union> a ` {1, 2, 3})" by auto
    also have "\<dots> = ob - a ` (({..<97} - {1, 2, 3, 4}) \<union> ({97..<120} \<union> {1, 2, 3, 4}) \<union> {1, 2, 3})" by (simp only: image_Un)
    also have "({..<97} - {1, 2, 3, 4}) \<union> ({97..<120} \<union> {1, 2, 3, 4}) \<union> {1, 2, 3} = {..<120 :: nat}" by auto
    also have "ob - a ` {..<120} = objs (t_dom t)" using al(3) by (auto simp: ob_def)
    finally show ?thesis .
  qed
  define D2 where "D2 = ?d2"
  define D3 where "D3 = ?d3"
  have D: "ctx_dtor (bv_fuel e) 3 (tctx 3 [] 0) (t_dom t1) = Inr D2" "ctx_dtor (bv_fuel e) 3 (tctx 0 [] 0) D2 = Inr D3"
    "hpd_dtor D3 = Inr (D3\<lparr>pools := []\<rparr>)"
    unfolding D2_def D3_def by (rule d2, rule d3, rule drop_domain)
  have D3: "objs D3 = objs (t_dom t)" "delete_list D3 = []" "reclaimed D3 = map a ([1, 2, 3, 4] @ [97..<120] @ 0 # [5..<97])"
    unfolding D3_def tdom_sel obs3 by (simp_all del: upt_rec_numeral)
  have al: "(\<lambda>i. bv_new e (t_new t + i)) = a" by (simp add: a_def [abs_def])
  show ?thesis unfolding T(1) t1(1)
    using t1(3,4) by (simp add: end_hp2_def end_hp1_def lib_eq D Let_def test_ends_def D3 al del: upt_rec_numeral)
qed

section \<open>The whole program\<close>

lemma fresh_mono: "fresh_Bs e n t \<Longrightarrow> k \<le> n \<Longrightarrow> fresh_Bs e k t"
  unfolding fresh_Bs_def by (auto intro: inj_on_subset)

lemma fresh_next:
  assumes "fresh_Bs e (k + n) t" "test_ends e bs t t'" "length bs = k"
  shows "fresh_Bs e n (put x t')"
proof -
  let ?b = "\<lambda>i. bv_new e (t_new t + i)"
  have inj: "inj_on ?b {..<k + n}" using assms(1) by (simp add: fresh_Bs_def)
  have "inj_on (\<lambda>i. ?b (k + i)) {..<n}"
  proof (rule inj_onI)
    fix x y assume "x \<in> {..<n}" "y \<in> {..<n}" "?b (k + x) = ?b (k + y)"
    then have "k + x = k + y" by (intro inj_onD [OF inj]) auto
    then show "x = y" by simp
  qed
  moreover have "aligned_ptr (?b (k + i)) \<and> ?b (k + i) \<noteq> nullptr \<and> ?b (k + i) \<notin> objs (t_dom t)" if "i < n" for i
    using assms(1) that by (simp add: fresh_Bs_def)
  ultimately show ?thesis using assms by (simp add: fresh_Bs_def test_ends_def put_def add.assoc)
qed

lemma run_next:
  assumes "fresh_Bs e (k + n) t" "\<exists>t'. f t = Inr t' \<and> test_ends e bs t t'" "length bs = k"
    and "\<And>t'. fresh_Bs e n t' \<Longrightarrow> objs (t_dom t') = objs (t_dom t) \<Longrightarrow> \<exists>t2. run_tests fs t' = Inr t2 \<and> objs (t_dom t2) = objs (t_dom t)"
  shows "\<exists>t2. run_tests (f # fs) t = Inr t2 \<and> objs (t_dom t2) = objs (t_dom t)"
proof -
  from assms(2) obtain t' where t': "f t = Inr t'" "test_ends e bs t t'" by blast
  have "\<exists>t2. run_tests fs (put (endl @ endl) t') = Inr t2 \<and> objs (t_dom t2) = objs (t_dom t)"
    using assms(4) [OF fresh_next [OF assms(1) t'(2) assms(3)]] t'(2) by (simp add: test_ends_def put_def)
  with t'(1) show ?thesis by simp
qed

text \<open>\<open>main\<close> without arguments returns with its last line written, and no object of the tests is left.\<close>

lemma hp_main_ends:
  assumes "fresh_Bs e 132 t"
  shows "\<exists>t' x. hp_main e strtoul [] t = Inr t' \<and> objs (t_dom t') = objs (t_dom t) \<and> t_out t' = x @ ''All Done. '' @ endl"
proof -
  have "\<exists>t2. run_tests [hp_test0 e, hp_test1 e, hp_test2 e, hp_test3 e] t = Inr t2 \<and> objs (t_dom t2) = objs (t_dom t)"
  proof (rule run_next [of e 4 128 t _ "[2, 1, 0, 3]"])
    fix t1 assume t1: "fresh_Bs e 128 t1" "objs (t_dom t1) = objs (t_dom t)"
    show "\<exists>t2. run_tests [hp_test1 e, hp_test2 e, hp_test3 e] t1 = Inr t2 \<and> objs (t_dom t2) = objs (t_dom t)"
      unfolding t1(2) [symmetric]
    proof (rule run_next [of e 4 124 t1 _ "[2, 1, 0, 3]"])
      fix t2 assume t2: "fresh_Bs e 124 t2" "objs (t_dom t2) = objs (t_dom t1)"
      show "\<exists>t3. run_tests [hp_test2 e, hp_test3 e] t2 = Inr t3 \<and> objs (t_dom t3) = objs (t_dom t1)"
        unfolding t2(2) [symmetric]
      proof (rule run_next [of e 4 120 t2 _ "[3, 1, 0, 2]"])
        fix t3 assume t3: "fresh_Bs e 120 t3" "objs (t_dom t3) = objs (t_dom t2)"
        from test3_reclaims [OF t3(1)] t3(2)
        show "\<exists>t4. run_tests [hp_test3 e] t3 = Inr t4 \<and> objs (t_dom t4) = objs (t_dom t2)"
          by (auto simp: test_ends_def put_def)
      qed (use t2(1) in simp, rule test2_reclaims, rule fresh_mono [OF t2(1)], simp_all)
    qed (use t1(1) in simp, rule test1_reclaims, rule fresh_mono [OF t1(1)], simp_all)
  qed (use assms in simp, rule test0_reclaims, rule fresh_mono [OF assms], simp_all)
  then show ?thesis by (auto simp: hp_main_def testfuncs_def put_def)
qed

text \<open>C21: the four tests of the hazard pointers return without a failing assertion and reclaim every object
  they created exactly once, in the order listed here with the latest first, and no other object. An object
  in a hazard pointer outlives its deletion: in the first two tests object 3 goes with the inner
  context, whose hazard pointer held it, and the objects 0, 1 and 2 with the outer one; in the third
  test object 2, which no hazard pointer holds, goes first; in the fourth the 97th deletion collects
  all of the first 97 objects but the four that are held.\<close>

theorem hp_tests_reclaim:
  assumes "fresh_Bs e 120 t"
  shows "(\<exists>t'. hp_test0 e t = Inr t' \<and> test_ends e [2, 1, 0, 3] t t') \<and>
    (\<exists>t'. hp_test1 e t = Inr t' \<and> test_ends e [2, 1, 0, 3] t t') \<and>
    (\<exists>t'. hp_test2 e t = Inr t' \<and> test_ends e [3, 1, 0, 2] t t') \<and>
    (\<exists>t'. hp_test3 e t = Inr t' \<and> test_ends e ([1, 2, 3, 4] @ [97..<120] @ 0 # [5..<97]) t t')"
proof -
  have "fresh_Bs e 4 t" by (rule fresh_mono [OF assms]) simp
  from test0_reclaims [OF this] test1_reclaims [OF this] test2_reclaims [OF this] test3_reclaims [OF assms]
  show ?thesis by (intro conjI)
qed

text \<open>An environment that hands out the addresses 16, 32, 48, \<dots>\<close>

definition demo_hp_env :: hp_env where
  "demo_hp_env = \<lparr>bv_new = (\<lambda>i. word_of_nat (16 * Suc i)), bv_fmt = (\<lambda>_. ''p''), bv_fuel = 2\<rparr>"

definition demo_world :: hp_world where
  "demo_world = \<lparr>t_dom = dom_make {}, t_scope = 0, t_out = [], t_new = 0, t_val = (\<lambda>_. 0)\<rparr>"

lemma demo_fresh: "fresh_Bs demo_hp_env 120 demo_world"
proof -
  have n: "unat (word_of_nat k :: uptr) = k" if "k < 2 ^ 64" for k
    using that by (simp add: unat_of_nat take_bit_nat_eq_self)
  have u: "unat (word_of_nat (16 * Suc i) :: uptr) = 16 * Suc i" if "i < 120" for i
    by (rule n) (use that in simp)
  have "inj_on (\<lambda>i. word_of_nat (16 * Suc i) :: uptr) {..<120}"
    by (rule inj_onI) (metis u lessThan_iff mult_cancel1 nat.inject zero_neq_numeral)
  moreover have "aligned_ptr (word_of_nat (16 * Suc i))" for i
    by (simp add: aligned_ptr_iff bit_0)
  moreover have "word_of_nat (16 * Suc i) \<noteq> (0 :: uptr)" if "i < 120" for i
    using u [OF that] by (metis nat.distinct(1) mult_is_0 unat_0 zero_neq_numeral)
  ultimately show ?thesis by (simp add: fresh_Bs_def demo_hp_env_def demo_world_def dom_make_def del: mult_Suc_right)
qed

lemma hp_tests_reclaim_witness:
  "\<exists>t'. hp_test0 demo_hp_env demo_world = Inr t' \<and> reclaimed (t_dom t') = [48, 32, 16, 64]"
  using hp_tests_reclaim [OF demo_fresh] by (auto simp: test_ends_def demo_hp_env_def demo_world_def)

end
