(* ===== verification/Spec2Isabelle.thy ===== *)
theory Spec2Isabelle
  imports SolTest SolLin SolRace SolSolo HazProps HazSafe NewPool CasMain HpTest
begin

text \<open>
  The library of the repository is a hash table without locks, the split-ordered list of Shalev and
  Shavit, and a hazard pointer library for the safe reclamation of memory. This development models
  both, with their test programs, and proves what they promise and where they break that promise.

  \<^bold>\<open>The program and its parts.\<close>
  A \<open>solist\<close> (\<open>src/solist.hpp\<close>) is one sorted linked list of dummy nodes and data nodes and a
  table of pointers to its dummy nodes, the buckets. A node is sorted by its key, the bit-reversed hash
  (\<open>src/solist.cpp\<close>), so that doubling the table splits each bucket in two without moving a node.
  Its nodes are linked by \<open>mark_ptr_type\<close> words (\<open>src/mark_ptr_type.hpp\<close>), whose lowest bit marks a
  node as deleted. Threads use the list through a \<open>solist_accessor\<close>, which holds the cursor of a
  search. \<open>src/solist_dbg.hpp\<close> prints and checks a list. The hazard pointer library
  (\<open>src/hazard_pointer.hpp\<close>, \<open>src/hazard_pointer.cpp\<close>) is separate: a domain keeps pools of hazard
  pointers and a list of deleted objects, a context gives a thread a block of hazard pointers and a
  private array of deleted objects, and an object is reclaimed when a snapshot of all hazard pointers
  does not hold its address. Four programs test the two: \<open>src/test1.cpp\<close> and
  \<open>src/test_expansion.cpp\<close> the list, \<open>src/hptest.cpp\<close> the contexts, \<open>src/castest.cpp\<close> the
  compare-exchange of \<open>mark_ptr_type\<close> with 32 threads.

  \<^bold>\<open>The theories.\<close>
  \<^item> \<open>Prelude\<close>: machine words, the failures of an operation (\<open>fault\<close>, \<open>'a res\<close>), checked array
    accesses, the atomic compare-exchange, and the two ways to say that an operation succeeds
    (\<open>returns\<close>, \<open>returns_or_oom\<close>).
  \<^item> \<open>BitReverse\<close>: \<open>brev_classic\<close>, \<open>brev_knuth\<close>, \<open>reverse_hasht_bits\<close>, \<open>sol_node_key\<close>,
    \<open>sol_bucket_key\<close>; the two routines agree, and when keys collide.
  \<^item> \<open>MarkPtr\<close>: every operation of \<open>mark_ptr_type\<close> on its word, refined to pairs of a pointer and a mark.
  \<^item> \<open>SolHeap\<close>: nodes, the heap as a map from addresses, allocation and deletion with their
    failures; the allocator is a parameter with the locale \<open>operator_new\<close> as its contract.
  \<^item> \<open>Solist\<close>: \<open>solist\<close> and \<open>solist_accessor\<close>, one definition per member function, its loops apart.
  \<^item> \<open>SolInv\<close>: the invariant \<open>sol_wf\<close>: the list is sorted by distinct keys, the table points to the
    dummy nodes of its buckets, the counters are right. \<open>SolBucket\<close>, \<open>SolOps\<close>, \<open>SolInsert\<close>, \<open>SolDelete\<close>,
    \<open>SolLife\<close>: every operation keeps it and what the operation returns, on each of its branches.
  \<^item> \<open>SolSpec\<close>: the list as a finite map from hashes to items, \<open>sol_rel\<close> and \<open>dict_rel\<close>, with locales
    for a dictionary and its client, interpreted on the operations of \<open>Solist\<close>.
  \<^item> \<open>SolDbg\<close>: the dumps and \<open>check_solist\<close> as the text they write. \<open>SolTest\<close>: \<open>test1\<close> and
    \<open>test_expansion\<close> with their two output streams.
  \<^item> \<open>SolConc\<close>: the same operations as atomic steps of threads, one for each access to
    shared memory; \<open>SolLin\<close>: insertions and searches in every interleaving behave as a finite map;
    \<open>SolRace\<close>: schedules with deletions, initialisations and expansions that break the list;
    \<open>SolSolo\<close>: the steps of a thread that runs alone are the operation of \<open>Solist\<close>.
  \<^item> \<open>HazPool\<close>, \<open>HazSnapshot\<close>, \<open>HazDomain\<close>, \<open>HazReserve\<close>, \<open>HazContext\<close>: the classes of the hazard pointer
    library bottom-up, and what their operations do. \<open>HazSystem\<close>: programs as sequences of operations of
    many contexts, and the locale \<open>reclamation\<close> of a reclamation scheme. \<open>HazProps\<close>: their properties.
    \<open>HpTest\<close>: \<open>hptest\<close> with its output.
  \<^item> \<open>LockFree\<close>: the lock-free push, which the program uses for three lists, as the locale \<open>atomic_word\<close>.
    \<open>DelConc\<close>, \<open>PoolConc\<close>, \<open>NewPool\<close>: the delete list, the blocks and snapshots of a pool, and the
    creation of pools, in every interleaving of their atomic steps. \<open>HazConc\<close>: the whole hazard
    pointer library as atomic steps of threads, one definition per operation (\<open>delete_item_step\<close>,
    \<open>check_step\<close> for \<open>reclaim\<close>, \<open>collect_step\<close>, \<open>flush_step\<close> and \<open>node_step\<close> for
    \<open>enqueue_for_delete\<close>, \<open>release_act\<close>), the places of a thread as \<open>haz_act\<close>, well-formed threads
    \<open>hthread_ok\<close>, and the run of the pool in a run of the library; \<open>HazSafe\<close>: the run of the delete
    list in it, and what the library promises in every interleaving. \<open>CasTest\<close> and
    \<open>CasMain\<close>: \<open>castest\<close>, the first test and the whole program.
  \<^item> This theory holds the properties of the list that span its components.

  \<^bold>\<open>What is proved.\<close>
  Used by one thread, the list answers any sequence of requests as a finite map does, whatever
  expansions happen on the way, unless the allocator refuses memory; the growth policy, the order of the
  list, the life of item pointers and the release of all nodes by the destructor are stated on their
  own. The hazard pointer library never reclaims an object in a hazard pointer and reclaims every
  deleted object exactly once, in any sequence of the operations of any contexts. In every interleaving of
  the atomic steps of any number of threads, no step of the library fails, each deleted object waits in
  one place or was reclaimed, and an object is not reclaimed while a hazard pointer that was set before
  its deletion holds it; a run of the library is a run of its pool and of its delete list, whose own
  promises are stated for them. Insertions and searches of the list
  are linearisable, and an operation that no other thread disturbs returns. The errors found are stated
  as theorems too: the loop of \<open>pools_reserve\<close> that never moves on, the \<open>store\<close> that reads the
  pointer itself and may protect a reclaimed object, the races of \<open>delete_node\<close>,
  \<open>initialise_bucket\<close> and \<open>expand\<close>, the count of hazard pointers
  that loses updates, hashes from \<open>2\<^sup>3\<^sup>1\<close> on, table sizes that are no power of two.

  \<^bold>\<open>Integers, fuel and memory.\<close>
  \<open>uint32_t\<close> and addresses are words of 32 and 64 bits. \<open>std::size_t\<close> is \<open>nat\<close>, with \<open>dec_size\<close>
  for its decrement; the counters \<open>hp_count\<close> and \<open>delete_count\<close> are \<open>int\<close>, since no run makes
  \<open>2\<^sup>3\<^sup>1\<close> deletions between two collections in memory. Loops over shared memory get fuel. The loops of the
  list need as many turns as it has nodes, and the keys of the nodes are different 32-bit words, so
  \<open>2\<^sup>3\<^sup>3\<close> is enough (\<open>fuel_enough\<close>). The loops of the contexts need at most \<open>R + 2\<close> turns for an array of
  \<open>R\<close> objects. That a loop never ends is the statement that no fuel is enough. The heap of the list is a
  map from addresses to nodes; a read of an address that is not allocated is a failure, and so is its
  deletion. An allocation may fail (\<open>BadAlloc\<close>) and \<open>scarce\<close> says that the allocator can.

  \<^bold>\<open>Not modelled.\<close>
  Atomic steps are sequentially consistent; the weaker orders some accesses ask for are not
  distinguished. In \<open>SolConc\<close> the table is a value: that \<open>expand\<close> deletes the array it replaces, which
  another thread may be reading, is not modelled. In \<open>HazConc\<close> the domain has one pool, which is
  there from the start, and the local list of \<open>collect\<close> is a list of nodes; the constructor of a
  context and its destructor are steps of its thread, and the destruction of the domain,
  after the last context, is only in \<open>HazDomain\<close>. The allocations of the hazard pointer library
  succeed. Of the test programs \<open>setlocale\<close>, \<open>srand\<close>, sleeping and yielding are left
  out, and \<open>rand\<close>, \<open>strtoul\<close>, the printing of addresses and the allocator are parameters.
  The class \<open>solist_traverse\<close>, which nothing uses, deleted and defaulted members, and the
  build files have no model.
\<close>

section \<open>The split-ordered list\<close>

lemma take_bit_Suc_cases:
  "take_bit (Suc k) (h::u32) = take_bit k h \<or> take_bit (Suc k) h = take_bit k h + 2 ^ k"
proof -
  have "take_bit (Suc k) h = take_bit k h OR (if bit h k then 2 ^ k else 0)"
    by (rule bit_word_eqI) (auto simp: bit_simps less_Suc_eq)
  moreover have "take_bit k h + 2 ^ k = take_bit k h OR 2 ^ k"
    by (rule disjunctive_add_eq_or, rule bit_word_eqI) (auto simp: bit_and_iff bit_take_bit_iff bit_exp_iff)
  ultimately show ?thesis by (cases "bit h k") simp_all
qed

text \<open>C14: split ordering. With \<open>2^k\<close> buckets a node lies behind the dummy node of its bucket
  \<open>h mod 2^k\<close> and in front of the dummy node of every other bucket with a greater key; and when
  the table doubles, the nodes of a bucket stay in it or move to the bucket \<open>2^k\<close> further on,
  whose dummy node lies between them.\<close>

theorem split_order:
  assumes "k < 31"
  shows "reverse_hasht_bits (h mod 2 ^ k) \<le> sol_node_key h \<and>
    \<not> (\<exists>b < 2 ^ k. reverse_hasht_bits (h mod 2 ^ k) < reverse_hasht_bits b \<and> reverse_hasht_bits b \<le> sol_node_key h) \<and>
    (h mod 2 ^ Suc k = h mod 2 ^ k \<or> h mod 2 ^ Suc k = h mod 2 ^ k + 2 ^ k)"
proof -
  have k: "k < 32" "Suc k < 32" using assms by simp_all
  have nb: False if b: "b < 2 ^ k" "reverse_hasht_bits (h mod 2 ^ k) < reverse_hasht_bits b"
    "reverse_hasht_bits b \<le> sol_node_key h" for b
  proof -
    have "take_bit k b = b" using b(1) k by (simp add: take_bit_less_pow2 less_pow2_iff)
    from no_bucket_between [OF k(1) this b(3)] b(2) k show False by (simp add: mod_pow2)
  qed
  note take_bit_Suc_cases [of k h]
  with nb show ?thesis
    using k slot_key_le_node_key [of k h] by (auto simp: mod_pow2 simp del: power_Suc)
qed

lemma split_order_witness:
  "reverse_hasht_bits (13 mod 2 ^ 2) \<le> sol_node_key 13"
  using split_order [of 2 13] by simp

text \<open>C15: the constructor. With a power of two as its size, a new accessor holds an empty list
  that satisfies the invariant; it fails only when the allocator refuses memory.\<close>

theorem constructor_establishes:
  assumes "operator_new A" "k < 32" "cells h = Map.empty"
  shows "returns_or_oom (scarce A) (accessor_new A st (2 ^ k) mx h)
    (\<lambda>s. sol_rel s Map.empty \<and> n_buckets s = 2 ^ k \<and> max_bucket_length s = mx \<and> n_items s = 0)"
  unfolding accessor_new_def
proof (rule oom_bind [OF solist_ctor_correct [OF assms]], clarify)
  fix b assume b: "b \<noteq> nullptr" "aligned_ptr b"
  let ?s = "accessor_over st (fresh_solist b (2 ^ k) mx (Suc (allocs h)) :: 'a solist)"
  from fresh_wf [OF b assms(2)] have "sol_wf {} ?s [b]" "items (cells ?s) [b] = []"
    by (simp_all add: accessor_over_def hazp_acquire_def sol_wf_def solist.defs fresh_solist_def)
  then have "sol_rel ?s Map.empty" unfolding sol_rel_def by (intro exI [of _ "[b]"]) (simp del: items_simps)
  then show "returns_or_oom (scarce A) (Inr ?s) (\<lambda>s. sol_rel s Map.empty \<and> n_buckets s = 2 ^ k \<and>
      max_bucket_length s = mx \<and> n_items s = 0)"
    by (simp add: accessor_over_def hazp_acquire_def fresh_solist_def solist.defs)
qed

lemma constructor_establishes_witness:
  "returns_or_oom (scarce demo_new) (accessor_new demo_new 0 (2 ^ 2) 2 \<lparr>cells = Map.empty, allocs = 0\<rparr>)
    (\<lambda>s. sol_rel s Map.empty \<and> n_buckets s = 2 ^ 2 \<and> max_bucket_length s = 2 \<and> n_items s = 0)"
  by (rule constructor_establishes) (simp_all add: bump.operator_new_axioms)

text \<open>C12: \<open>initialise_bucket\<close> on any slot of the table leaves the items as they are and the slot
  with the dummy node of the bucket: a node of the chain without payload whose key is the reversed
  slot number. None of its assertions fails, nothing is dereferenced through a null pointer, and
  the retry loops end.\<close>

theorem initialise_bucket_keeps_items:
  fixes s :: "'a accessor"
  assumes "operator_new A" "sol_rel s m" "slot < n_buckets s" "2 ^ 33 \<le> f"
  shows "returns_or_oom (scarce A) (initialise_bucket A f slot s) (\<lambda>s'. sol_rel s' m \<and>
    n_buckets s' = n_buckets s \<and>
    (\<exists>nd. cells s' (buckets s' ! unat slot) = Some nd \<and> payload nd = None \<and> key nd = reverse_hasht_bits slot))"
proof -
  from assms(2) obtain xs where wf: "sol_wf {} s xs" and m: "m = map_of (items (cells s) xs)" by (rule sol_relE)
  show ?thesis
  proof (rule oom_mono [OF initialise_bucket_correct [OF assms(1) wf assms(3)
        fuel_enough(2,5) [OF wf assms(4)] no_detached]], elim exE conjE)
    fix s' :: "'a accessor" and xs'
    assume w: "sol_wf {} s' xs'" "keeps {} s xs s' xs'" "n_buckets s' = n_buckets s" "buckets s' ! unat slot \<noteq> nullptr"
    from w(1) have l: "list_ok {} (n_buckets s') (cells s') xs'"
      and t: "table_ok (n_buckets s') (buckets s') (cells s') xs'" by (simp_all add: sol_wf_def)
    have u: "unat slot < length (buckets s')"
      using assms(3) w(3) table_okD(2) [OF t] by (simp add: word_less_nat_alt)
    from bucket_in_chain [OF l t u w(4)] obtain as zs where b: "xs' = as @ buckets s' ! unat slot # zs"
      "key_of (cells s') (buckets s' ! unat slot) = reverse_hasht_bits (word_of_nat (unat slot))"
      "payload (at (cells s') (buckets s' ! unat slot)) = None" by blast
    have "cells s' (buckets s' ! unat slot) \<noteq> None"
      using links_in [OF list_okD(1) [OF l]] b(1) by simp
    with b(2,3) have "\<exists>nd. cells s' (buckets s' ! unat slot) = Some nd \<and> payload nd = None \<and>
        key nd = reverse_hasht_bits slot" by auto
    with w(1-3) show "sol_rel s' m \<and> n_buckets s' = n_buckets s \<and>
      (\<exists>nd. cells s' (buckets s' ! unat slot) = Some nd \<and> payload nd = None \<and> key nd = reverse_hasht_bits slot)"
      by (auto simp: keeps_def m intro: sol_relI)
  qed
qed

lemma initialise_bucket_keeps_items_witness:
  "returns_or_oom (scarce demo_new) (initialise_bucket demo_new (2 ^ 33) 3 demo_list)
    (\<lambda>s'. sol_rel s' Map.empty \<and> n_buckets s' = n_buckets demo_list \<and>
      (\<exists>nd. cells s' (buckets s' ! unat (3::u32)) = Some nd \<and> payload nd = None \<and> key nd = reverse_hasht_bits 3))"
  by (rule initialise_bucket_keeps_items [OF bump.operator_new_axioms demo_rel(5)]) (simp_all add: demo_rel(3))

text \<open>\<open>find_item_node\<close> returns a pointer to the item stored under the hash (the lowest 31 bits
  of it) and \<open>nullptr\<close> when there is none; it changes neither the map nor the number of buckets,
  though it may initialise the bucket.\<close>

theorem find_item_refines:
  fixes s :: "'a accessor"
  assumes "operator_new A" "sol_rel s m" "2 ^ 33 \<le> f"
  shows "returns_or_oom (scarce A) (find_item_node A f h s) (\<lambda>(p, s'). sol_rel s' m \<and> n_buckets s' = n_buckets s \<and>
    (case m (take_bit 31 h) of None \<Rightarrow> p = nullptr | Some v \<Rightarrow> p \<noteq> nullptr \<and> item_at p s' = Inr v))"
proof -
  from assms(2) obtain xs where wf: "sol_wf {} s xs" and m: "m = map_of (items (cells s) xs)" by (rule sol_relE)
  show ?thesis
    by (rule oom_mono [OF find_item_node_correct [OF assms(1) wf fuel_enough(2,4) [OF wf assms(3)]]])
       (auto simp: m keeps_def intro: sol_relI)
qed

lemma find_item_refines_witness:
  "returns_or_oom (scarce demo_new) (find_item_node demo_new (2 ^ 33) 7 demo_list) (\<lambda>(p, s'). p = nullptr)"
  by (rule oom_mono [OF find_item_refines [OF bump.operator_new_axioms demo_rel(5)]]) auto

text \<open>C2: \<open>insert_node\<close> with a hash below \<open>2^31\<close> adds the item exactly when the hash is not in the
  map, and reports that; otherwise the map stays as it is and the new node is freed again. With an
  allocator that refuses nothing it always returns.\<close>

theorem insert_refines:
  fixes s :: "'a accessor"
  assumes "operator_new A" "sol_rel s m" "2 ^ 33 \<le> f" "h < 0x80000000" "n_buckets s < 0x80000000"
  shows "returns_or_oom (scarce A) (insert_node A f h v s) (\<lambda>(ok, s'). ok = (m h = None) \<and>
    sol_rel s' (if ok then m(h \<mapsto> v) else m) \<and>
    n_items s' = word_of_nat (card (dom m) + (if ok then 1 else 0)))"
proof (rule oom_mono [OF sol_insert [OF assms]], clarify)
  fix s' :: "'a accessor"
  assume r: "sol_rel s' (if m h = None then m(h \<mapsto> v) else m)"
  have "card (dom (m(h \<mapsto> v))) = Suc (card (dom m))" if "m h = None"
    using item_count(1) [OF assms(2)] that by (simp add: domIff)
  with item_count(2) [OF r] show "(m h = None) = (m h = None) \<and>
      sol_rel s' (if m h = None then m(h \<mapsto> v) else m) \<and>
      n_items s' = word_of_nat (card (dom m) + (if m h = None then 1 else 0))"
    using r by (simp split: if_splits)
qed

lemma insert_refines_witness:
  "returns_or_oom (scarce demo_new) (insert_node demo_new (2 ^ 33) 5 ''five'' demo_list)
    (\<lambda>(ok, s'). ok \<and> sol_rel s' [5 \<mapsto> ''five''] \<and> n_items s' = 1)"
  by (rule oom_mono [OF insert_refines [OF bump.operator_new_axioms demo_rel(5)]]) (auto simp: demo_rel(3))

text \<open>C3: \<open>delete_node\<close> removes the item of the hash (the lowest 31 bits of it) when there is one,
  and reports that; the item count stays exact and the table keeps its size.\<close>

theorem delete_refines:
  fixes s :: "'a accessor"
  assumes "operator_new A" "sol_rel s m" "2 ^ 33 \<le> f"
  shows "returns_or_oom (scarce A) (delete_node A f h s) (\<lambda>(ok, s'). ok = (m (take_bit 31 h) \<noteq> None) \<and>
    sol_rel s' (m(take_bit 31 h := None)) \<and> n_buckets s' = n_buckets s \<and>
    n_items s' = word_of_nat (card (dom m - {take_bit 31 h})))"
proof (rule oom_mono [OF sol_delete [OF assms]], clarify)
  fix s' :: "'a accessor"
  assume "sol_rel s' (m(take_bit 31 h := None))" "n_buckets s' = n_buckets s"
  with item_count(2) [OF this(1)]
  show "(m (take_bit 31 h) \<noteq> None) = (m (take_bit 31 h) \<noteq> None) \<and> sol_rel s' (m(take_bit 31 h := None)) \<and>
    n_buckets s' = n_buckets s \<and> n_items s' = word_of_nat (card (dom m - {take_bit 31 h}))"
    by simp
qed

lemma delete_refines_witness:
  "returns_or_oom (scarce demo_new) (delete_node demo_new (2 ^ 33) 5 demo_list)
    (\<lambda>(ok, s'). \<not> ok \<and> sol_rel s' Map.empty \<and> n_items s' = 0)"
  by (rule oom_mono [OF delete_refines [OF bump.operator_new_axioms demo_rel(5)]]) auto










text \<open>C25: the destructor frees every node exactly once: it never touches a node that was freed and
  leaves no node behind.\<close>

theorem destructor_frees_all:
  assumes "sol_rel s m" "2 ^ 33 \<le> f"
  shows "solist_dtor f s = Inr (s\<lparr>cells := Map.empty\<rparr>)"
proof -
  from assms(1) obtain xs where wf: "sol_wf {} s xs" by (rule sol_relE)
  then show ?thesis using solist_dtor_correct fuel_enough(4) [OF wf assms(2)] by blast
qed

lemma destructor_frees_all_witness:
  "solist_dtor (2 ^ 33) demo_list = Inr (demo_list\<lparr>cells := Map.empty\<rparr>)"
  by (rule destructor_frees_all [OF demo_rel(5)]) simp

text \<open>\<open>expand\<close> with the current size doubles the table: the old slots keep their dummy nodes,
  the new ones are empty, the list represents the same map; called with a size the table has
  outgrown it does nothing.\<close>

theorem expand_doubles:
  fixes s :: "'a accessor"
  assumes "sol_rel s m" "n_buckets s < 0x80000000"
  shows "returns_or_oom (scarce A) (expand A (n_buckets s) s) (\<lambda>s'. sol_rel s' m \<and>
      unat (n_buckets s') = 2 * unat (n_buckets s) \<and>
      buckets s' = buckets s @ replicate (unat (n_buckets s)) nullptr \<and> cells s' = cells s) \<and>
    (n < n_buckets s \<longrightarrow> expand A n s = Inr s)"
proof
  from assms(1) obtain xs where wf: "sol_wf {} s xs" and m: "m = map_of (items (cells s) xs)" by (rule sol_relE)
  then have "table_ok (n_buckets s) (buckets s) (cells s) xs" by (simp add: sol_wf_def)
  then obtain k where k: "k < 32" "n_buckets s = 2 ^ k" "unat (n_buckets s) = 2 ^ k" "length (buckets s) = 2 ^ k"
    by (rule table_size)
  have k31: "k < 31" using below_31 k(1,2) assms(2) by simp
  have e: "s' = s\<lparr>buckets := buckets s @ replicate (2 ^ k) nullptr, n_buckets := 2 ^ Suc k\<rparr>"
    if "expand A (n_buckets s) s = Inr s'" for s'
    using that expand_eq [OF k(4,2) k31, of A] by (simp split: if_splits del: power_Suc)
  have c: "returns_or_oom (scarce A) (expand A (n_buckets s) s) (\<lambda>s'. sol_wf {} s' xs \<and>
     keeps {} s xs s' xs \<and> unat (n_buckets s') = 2 * unat (n_buckets s))"
    by (rule oom_mono [OF expand_correct [OF wf assms(2)]]) blast
  show "returns_or_oom (scarce A) (expand A (n_buckets s) s) (\<lambda>s'. sol_rel s' m \<and>
      unat (n_buckets s') = 2 * unat (n_buckets s) \<and>
      buckets s' = buckets s @ replicate (unat (n_buckets s)) nullptr \<and> cells s' = cells s)"
  proof (cases "expand A (n_buckets s) s")
    case (Inr s')
    have "sol_rel s' m" using c m by (auto simp: Inr keeps_def intro: sol_relI)
    with c e [OF Inr] k(3) show ?thesis by (simp add: Inr del: power_Suc)
  qed (use c in simp)
  show "n < n_buckets s \<longrightarrow> expand A n s = Inr s" by (simp add: expand_def)
qed

lemma expand_doubles_witness:
  "returns_or_oom (scarce demo_new) (expand demo_new (n_buckets demo_list) demo_list) (\<lambda>s'. sol_rel s' Map.empty) \<and>
   expand demo_new 3 demo_list = Inr demo_list"
  using expand_doubles [OF demo_rel(5), of demo_new 3] demo_rel(3) by (auto elim!: oom_mono)

text \<open>C26: \<open>get_parent\<close> for an uninitialised bucket stops at the node behind which its dummy node
  belongs: the key of the cursor is below that of the bucket, and the next node, if any, is above;
  no slot outside the table is read.\<close>

theorem parent_found:
  fixes s :: "'a accessor"
  assumes "sol_rel s m" "slot < n_buckets s" "buckets s ! unat slot = nullptr" "2 ^ 33 \<le> f"
  shows "returns (get_parent f slot (reverse_hasht_bits slot) s) (\<lambda>s'. cells s' = cells s \<and> buckets s' = buckets s \<and>
    (\<exists>c. cells s (cur s') = Some c \<and> key c < reverse_hasht_bits slot \<and> mp_load (next_ref c) = nxt s' \<and>
       (nxt s' = nullptr \<or> (\<exists>n. cells s (nxt s') = Some n \<and> reverse_hasht_bits slot < key n))))"
proof -
  from assms(1) obtain xs where wf: "sol_wf {} s xs" by (rule sol_relE)
  then have l: "list_ok {} (n_buckets s) (cells s) xs"
    and t: "table_ok (n_buckets s) (buckets s) (cells s) xs" by (simp_all add: sol_wf_def)
  from get_parent_finds [OF l t assms(2,3) fuel_enough(2,5) [OF wf assms(4)]] obtain as x zs p where
    xs: "xs = as @ x # zs"
    and g: "get_parent f slot (reverse_hasht_bits slot) s = Inr (s\<lparr>prv := p, cur := x, nxt := nx zs nullptr\<rparr>)"
    and k: "key_of (cells s) x < reverse_hasht_bits slot" "\<forall>z\<in>set zs. reverse_hasht_bits slot < key_of (cells s) z"
    by blast
  have ln: "links (cells s) (as @ x # zs) nullptr" using list_okD(1) [OF l] xs by simp
  from links_next [OF ln] obtain c where c: "cells s x = Some c" "mp_load (next_ref c) = nx zs nullptr" by metis
  have "nx zs nullptr = nullptr \<or> (\<exists>n. cells s (nx zs nullptr) = Some n \<and> reverse_hasht_bits slot < key n)"
    using k(2) links_in [OF ln, of "hd zs"] by (cases zs) auto
  with g c k(1) show ?thesis by simp
qed

lemma parent_found_witness:
  "returns (get_parent (2 ^ 33) 3 (reverse_hasht_bits 3) demo_list) (\<lambda>s'. cells s' = cells demo_list)"
proof (rule returns_mono [OF parent_found [OF demo_rel(5)]])
  show "buckets demo_list ! unat (3::u32) = nullptr"
    by (simp add: demo_list_def accessor_over_def hazp_acquire_def fresh_solist_def solist.defs)
qed (simp_all add: demo_rel(3))





end
